(* ===== verification/D8aPrelude.thy ===== *)
theory D8aPrelude
  imports Complex_Main "HOL-Library.Char_ord" "HOL-Library.List_Lexorder" "HOL-Library.Word"
begin

text \<open>
  What every component shares: the names of the model's basic types, the parts of Go's
  \<^verbatim>\<open>strings\<close>, \<^verbatim>\<open>unicode/utf8\<close> and map semantics the sources use, the
  collections of facts the component proofs are carried by, and generic lemmas about lists
  and maps.

  A Go \<^verbatim>\<open>string\<close> is a sequence of bytes, and so is Isabelle's \<^typ>\<open>string\<close>
  (a list of 8-bit characters). \<^verbatim>\<open>time.Time\<close> and \<^verbatim>\<open>time.Duration\<close>
  are integers counting nanoseconds.
\<close>

section \<open>Basic types and fact collections\<close>

type_synonym bytes = string
type_synonym time = int
type_synonym duration = int
type_synonym headers = "(string \<times> string) list"

definition Second :: duration where
  "Second = 1000000000"

definition Minute :: duration where
  "Minute = 60 * Second"

named_theorems go_defs \<open>definitions of small operations, unfolded by the component proofs\<close>
named_theorems frame_simps \<open>what an operation leaves unchanged\<close>

section \<open>Bytes and UTF-8\<close>

abbreviation byte_of :: "char \<Rightarrow> nat" where
  "byte_of c \<equiv> of_char c"

definition cont_byte :: "char \<Rightarrow> bool" where
  "cont_byte c = (0x80 \<le> byte_of c \<and> byte_of c \<le> 0xBF)"

text \<open>
  \<open>rune_len\<close> is the length of the UTF-8 encoding the string starts with, 0 when the first
  byte starts none (the table of \<^verbatim>\<open>unicode/utf8\<close>: no overlong forms, no
  surrogates, nothing past U+10FFFF).
\<close>

fun rune_len :: "bytes \<Rightarrow> nat" where
  "rune_len [] = 0"
| "rune_len (a # s) =
    (let x = byte_of a in
     if x < 0x80 then 1
     else if x < 0xC2 then 0
     else if x < 0xE0 then
       (case s of b # _ \<Rightarrow> if cont_byte b then 2 else 0 | _ \<Rightarrow> 0)
     else if x < 0xF0 then
       (case s of b # c # _ \<Rightarrow>
          if (if x = 0xE0 then 0xA0 else 0x80) \<le> byte_of b
             \<and> byte_of b \<le> (if x = 0xED then 0x9F else 0xBF) \<and> cont_byte c
          then 3 else 0
        | _ \<Rightarrow> 0)
     else if x < 0xF5 then
       (case s of b # c # d # _ \<Rightarrow>
          if (if x = 0xF0 then 0x90 else 0x80) \<le> byte_of b
             \<and> byte_of b \<le> (if x = 0xF4 then 0x8F else 0xBF) \<and> cont_byte c \<and> cont_byte d
          then 4 else 0
        | _ \<Rightarrow> 0)
     else 0)"

definition RuneError :: nat where
  "RuneError = 0xFFFD"

text \<open>\<^verbatim>\<open>utf8.DecodeRuneInString\<close>: the code point and the number of bytes read.\<close>

definition DecodeRuneInString :: "bytes \<Rightarrow> nat \<times> nat" where
  "DecodeRuneInString s =
    (case s of [] \<Rightarrow> (RuneError, 0)
     | a # _ \<Rightarrow>
       (let n = rune_len s; b = (\<lambda>i. byte_of (s ! i) mod 64) in
        if n = 0 then (RuneError, 1)
        else if n = 1 then (byte_of a, 1)
        else if n = 2 then (byte_of a mod 32 * 64 + b 1, 2)
        else if n = 3 then (byte_of a mod 16 * 4096 + b 1 * 64 + b 2, 3)
        else (byte_of a mod 8 * 262144 + b 1 * 4096 + b 2 * 64 + b 3, 4)))"

definition utf8_encode :: "nat \<Rightarrow> bytes" where
  "utf8_encode r =
    (if r < 0x80 then [char_of r]
     else if r < 0x800 then [char_of (0xC0 + r div 64), char_of (0x80 + r mod 64)]
     else if r < 0x10000 then
       [char_of (0xE0 + r div 4096), char_of (0x80 + r div 64 mod 64), char_of (0x80 + r mod 64)]
     else
       [char_of (0xF0 + r div 262144), char_of (0x80 + r div 4096 mod 64),
        char_of (0x80 + r div 64 mod 64), char_of (0x80 + r mod 64)])"

text \<open>Bytes that start no encoding become U+FFFD, as \<^verbatim>\<open>encoding/json\<close> replaces them.\<close>

fun to_valid_utf8 :: "bytes \<Rightarrow> bytes" where
  "to_valid_utf8 [] = []"
| "to_valid_utf8 (c # s) =
    (let n = rune_len (c # s) in
     if n = 0 then utf8_encode RuneError @ to_valid_utf8 s
     else c # take (n - 1) s @ to_valid_utf8 (drop (n - 1) s))"

lemma rune_len_le: "rune_len s \<le> length s"
  by (cases s) (auto simp: Let_def split: list.splits)

lemma rune_len_le_4: "rune_len s \<le> 4"
  by (cases s) (auto simp: Let_def split: list.splits)

lemma rune_len_ascii [simp]: "byte_of c < 128 \<Longrightarrow> rune_len (c # s) = 1"
  by simp

lemma rune_len_pos_ascii: "rune_len (c # s) = 1 \<Longrightarrow> byte_of c < 128"
  by (auto simp: Let_def split: if_splits list.splits)

lemma to_valid_utf8_ascii:
  "(\<forall>c \<in> set s. byte_of c < 128) \<Longrightarrow> to_valid_utf8 s = s"
  by (induction s) (simp_all del: rune_len.simps)

section \<open>Go's string operations\<close>

definition lower_byte :: "char \<Rightarrow> char" where
  "lower_byte c = (if CHR ''A'' \<le> c \<and> c \<le> CHR ''Z'' then char_of (byte_of c + 32) else c)"

definition ToLower_ascii :: "bytes \<Rightarrow> bytes" where
  "ToLower_ascii s = map lower_byte s"

fun HasPrefix :: "bytes \<Rightarrow> bytes \<Rightarrow> bool" where
  "HasPrefix _ [] = True"
| "HasPrefix [] (_ # _) = False"
| "HasPrefix (c # s) (p # ps) = (c = p \<and> HasPrefix s ps)"

fun Contains :: "bytes \<Rightarrow> bytes \<Rightarrow> bool" where
  "Contains [] p = (p = [])"
| "Contains (c # s) p = (HasPrefix (c # s) p \<or> Contains s p)"

lemma HasPrefix_iff: "HasPrefix s p \<longleftrightarrow> (\<exists>t. s = p @ t)"
  by (induction s p rule: HasPrefix.induct) auto

lemma Contains_iff: "Contains s p \<longleftrightarrow> (\<exists>u t. s = u @ p @ t)"
proof (induction s)
  case Nil
  then show ?case by simp
next
  case (Cons c s)
  show ?case
  proof
    assume "Contains (c # s) p"
    then consider "HasPrefix (c # s) p" | "Contains s p" by auto
    then show "\<exists>u t. c # s = u @ p @ t"
    proof cases
      case 1
      then show ?thesis by (metis HasPrefix_iff append_Nil)
    next
      case 2
      then show ?thesis by (metis Cons.IH append_Cons)
    qed
  next
    assume "\<exists>u t. c # s = u @ p @ t"
    then obtain u t where eq: "c # s = u @ p @ t" by blast
    show "Contains (c # s) p"
    proof (cases u)
      case Nil
      with eq have "HasPrefix (c # s) p" by (auto simp only: HasPrefix_iff append_Nil)
      then show ?thesis by simp
    next
      case (Cons d v)
      with eq have "s = v @ p @ t" by simp
      then show ?thesis using Cons.IH by auto
    qed
  qed
qed

text \<open>
  \<^verbatim>\<open>strings.TrimSpace\<close> drops Unicode white space at both ends; each white-space
  code point is listed by its UTF-8 bytes.
\<close>

definition space_runes :: "nat list" where
  "space_runes = [0x20, 0x09, 0x0A, 0x0B, 0x0C, 0x0D, 0x85, 0xA0, 0x1680,
     0x2000, 0x2001, 0x2002, 0x2003, 0x2004, 0x2005, 0x2006, 0x2007, 0x2008, 0x2009, 0x200A,
     0x2028, 0x2029, 0x202F, 0x205F, 0x3000]"

definition strip_one :: "bytes list \<Rightarrow> bytes \<Rightarrow> bytes option" where
  "strip_one ps s =
    (case filter (HasPrefix s) ps of [] \<Rightarrow> None | p # _ \<Rightarrow> Some (drop (max 1 (length p)) s))"

function strip_all :: "bytes list \<Rightarrow> bytes \<Rightarrow> bytes" where
  "strip_all ps [] = []"
| "strip_all ps (c # s) =
    (case strip_one ps (c # s) of None \<Rightarrow> c # s | Some t \<Rightarrow> strip_all ps t)"
  by pat_completeness auto
termination
  by (relation "measure (\<lambda>(ps, s). length s)")
    (auto simp: strip_one_def max_def split: list.splits if_splits)

definition TrimSpace :: "bytes \<Rightarrow> bytes" where
  "TrimSpace s =
    (let sp = map utf8_encode space_runes in
     rev (strip_all (map rev sp) (rev (strip_all sp s))))"

lemma strip_all_suffix: "\<exists>u. s = u @ strip_all ps s"
proof (induction ps s rule: strip_all.induct)
  case (1 ps)
  then show ?case by simp
next
  case (2 ps c s)
  show ?case
  proof (cases "strip_one ps (c # s)")
    case None
    then show ?thesis by simp
  next
    case (Some t)
    then have "\<exists>n. t = drop n (c # s)"
      by (auto simp: strip_one_def split: list.splits)
    then obtain n where n: "t = drop n (c # s)" by blast
    from 2 [OF Some] obtain u where "t = u @ strip_all ps t" by blast
    then have "c # s = (take n (c # s) @ u) @ strip_all ps t"
      using n by (metis append_assoc append_take_drop_id)
    with Some show ?thesis by (metis (no_types) option.simps(5) strip_all.simps(2))
  qed
qed

lemma TrimSpace_infix: "\<exists>u v. s = u @ TrimSpace s @ v"
proof -
  let ?sp = "map utf8_encode space_runes"
  obtain u where u: "s = u @ strip_all ?sp s" using strip_all_suffix by blast
  obtain v where "rev (strip_all ?sp s) = v @ strip_all (map rev ?sp) (rev (strip_all ?sp s))"
    using strip_all_suffix by blast
  then have "strip_all ?sp s = TrimSpace s @ rev v"
    by (metis TrimSpace_def rev_append rev_rev_ident)
  with u show ?thesis by metis
qed

text \<open>Text without white space or control characters is not trimmed.\<close>

definition graphic :: "char \<Rightarrow> bool" where
  "graphic c \<longleftrightarrow> 0x21 \<le> byte_of c \<and> byte_of c < 0x7F"

lemma space_not_graphic:
  assumes "p \<in> set (map utf8_encode space_runes)"
  shows "p \<noteq> [] \<and> \<not> graphic (hd p) \<and> \<not> graphic (last p)"
proof -
  have "\<forall>p \<in> set (map utf8_encode space_runes). p \<noteq> [] \<and> \<not> graphic (hd p) \<and> \<not> graphic (last p)"
    by (simp add: space_runes_def utf8_encode_def graphic_def)
  with assms show ?thesis by blast
qed

lemma strip_all_stop: "(\<And>p. p \<in> set ps \<Longrightarrow> p \<noteq> [] \<and> hd p \<noteq> c) \<Longrightarrow> strip_all ps (c # s) = c # s"
proof -
  assume ps: "\<And>p. p \<in> set ps \<Longrightarrow> p \<noteq> [] \<and> hd p \<noteq> c"
  have "\<not> HasPrefix (c # s) p" if "p \<in> set ps" for p
    using ps [OF that] by (cases p) simp_all
  then have "filter (HasPrefix (c # s)) ps = []" by (simp add: filter_empty_conv)
  then show ?thesis by (simp add: strip_one_def)
qed

lemma TrimSpace_graphic:
  assumes "s \<noteq> []" "\<forall>c \<in> set s. graphic c"
  shows "TrimSpace s = s"
proof -
  let ?sp = "map utf8_encode space_runes"
  have 1: "strip_all ?sp s = s"
  proof (cases s)
    case (Cons c t)
    then have "graphic c" using assms(2) by simp
    then have "p \<noteq> [] \<and> hd p \<noteq> c" if "p \<in> set ?sp" for p using space_not_graphic [OF that] by blast
    then show ?thesis unfolding Cons by (rule strip_all_stop)
  qed (use assms(1) in simp)
  have 2: "strip_all (map rev ?sp) (rev s) = rev s"
  proof (cases "rev s")
    case (Cons c t)
    then have "c \<in> set s" by (metis list.set_intros(1) set_rev)
    then have "graphic c" using assms(2) by blast
    then have "p \<noteq> [] \<and> hd p \<noteq> c" if "p \<in> set (map rev ?sp)" for p
      using that space_not_graphic by (fastforce simp: hd_rev)
    then show ?thesis unfolding Cons by (rule strip_all_stop)
  qed (simp add: strip_all.simps)
  show ?thesis by (simp add: TrimSpace_def Let_def 1 2 del: map_map list.map)
qed
text \<open>\<^verbatim>\<open>strconv.FormatInt(i, 10)\<close> and reading digits back.\<close>

fun digits_of :: "nat \<Rightarrow> bytes" where
  "digits_of n =
    (if n < 10 then [char_of (48 + n)] else digits_of (n div 10) @ [char_of (48 + n mod 10)])"

declare digits_of.simps [simp del]

definition FormatInt :: "int \<Rightarrow> bytes" where
  "FormatInt i = (if i < 0 then CHR ''-'' # digits_of (nat (- i)) else digits_of (nat i))"

definition is_digit :: "char \<Rightarrow> bool" where
  "is_digit c = (48 \<le> byte_of c \<and> byte_of c \<le> 57)"

fun nat_of_digits :: "nat \<Rightarrow> bytes \<Rightarrow> nat" where
  "nat_of_digits acc [] = acc"
| "nat_of_digits acc (c # cs) = nat_of_digits (acc * 10 + (byte_of c - 48)) cs"

text \<open>\<^verbatim>\<open>strconv.ParseInt\<close> on a number literal, for a 64-bit signed target.\<close>

definition parse_int64 :: "bytes \<Rightarrow> int option" where
  "parse_int64 l =
    (let (neg, ds) =
       (case l of [] \<Rightarrow> (False, []) | c # r \<Rightarrow> if c = CHR ''-'' then (True, r) else (False, l)) in
     if ds = [] \<or> \<not> list_all is_digit ds then None
     else let v = (if neg then - int (nat_of_digits 0 ds) else int (nat_of_digits 0 ds)) in
       if - (2 ^ 63) \<le> v \<and> v < 2 ^ 63 then Some v else None)"

lemma is_digit_char: "n < (10::nat) \<Longrightarrow> is_digit (char_of (48 + n))"
  by (simp add: is_digit_def)

lemma nat_of_digits_append:
  "nat_of_digits a (xs @ ys) = nat_of_digits (nat_of_digits a xs) ys"
  by (induction xs arbitrary: a) auto

lemma digits_of_nonempty: "digits_of n \<noteq> []"
  by (subst digits_of.simps) simp

lemma digits_of_digits: "list_all is_digit (digits_of n)"
proof (induction n rule: digits_of.induct)
  case (1 n)
  then show ?case by (subst digits_of.simps) (auto simp: is_digit_char)
qed

lemma nat_of_digits_of: "nat_of_digits 0 (digits_of n) = n"
proof (induction n rule: digits_of.induct)
  case (1 n)
  then show ?case
    by (cases "n < 10") (simp_all add: digits_of.simps [of n] nat_of_digits_append)
qed

lemma digits_of_no_minus: "digits_of n = c # r \<Longrightarrow> c \<noteq> CHR ''-''"
  using digits_of_digits [of n] by (auto simp: is_digit_def)

lemma parse_FormatInt:
  assumes "- (2 ^ 63) \<le> i" "i < 2 ^ 63"
  shows "parse_int64 (FormatInt i) = Some i"
proof (cases "i < 0")
  case True
  with assms show ?thesis
    by (simp add: parse_int64_def FormatInt_def digits_of_nonempty digits_of_digits
        nat_of_digits_of)
next
  case False
  obtain c r where "digits_of (nat i) = c # r"
    using digits_of_nonempty by (cases "digits_of (nat i)") auto
  with False assms digits_of_no_minus [OF this] digits_of_digits [of "nat i"]
    nat_of_digits_of [of "nat i"] show ?thesis
    by (simp add: parse_int64_def FormatInt_def)
qed

text \<open>The value of a hexadecimal digit.\<close>

definition hex_val :: "char \<Rightarrow> nat option" where
  "hex_val c =
    (let x = byte_of c in
     if 48 \<le> x \<and> x \<le> 57 then Some (x - 48)
     else if 97 \<le> x \<and> x \<le> 102 then Some (x - 87)
     else if 65 \<le> x \<and> x \<le> 70 then Some (x - 55)
     else None)"

section \<open>HTTP header lookup\<close>

text \<open>
  \<^verbatim>\<open>Header.Get\<close>: the first value under the (canonical) name, the empty string when
  there is none.
\<close>

definition header_get :: "headers \<Rightarrow> string \<Rightarrow> string" where
  "header_get hs k = (case map_of hs k of None \<Rightarrow> [] | Some v \<Rightarrow> v)"

section \<open>64-bit integers\<close>

lemma sint_word_of_int_64:
  "- (2 ^ 63) \<le> k \<Longrightarrow> k < 2 ^ 63 \<Longrightarrow> sint (word_of_int k :: 64 word) = k"
  by (simp add: sint_sbintrunc' signed_take_bit_int_eq_self)

section \<open>Go maps\<close>

text \<open>
  A Go map is kept as its entries in order of first insertion, at most one per key: assigning a
  key already present replaces its value. Most maps here have string keys.
\<close>

type_synonym 'v gomap = "(bytes \<times> 'v) list"

fun map_set :: "'k \<Rightarrow> 'v \<Rightarrow> ('k \<times> 'v) list \<Rightarrow> ('k \<times> 'v) list" where
  "map_set k v [] = [(k, v)]"
| "map_set k v ((k', v') # m) = (if k = k' then (k, v) # m else (k', v') # map_set k v m)"

definition map_del :: "'k \<Rightarrow> ('k \<times> 'v) list \<Rightarrow> ('k \<times> 'v) list" where
  "map_del k m = filter (\<lambda>p. fst p \<noteq> k) m"

text \<open>A loop over the map that deletes the entries whose value satisfies a test.\<close>

definition map_purge :: "('v \<Rightarrow> bool) \<Rightarrow> 'v gomap \<Rightarrow> 'v gomap" where
  "map_purge P m = filter (\<lambda>p. \<not> P (snd p)) m"

definition map_count :: "('v \<Rightarrow> bool) \<Rightarrow> 'v gomap \<Rightarrow> nat" where
  "map_count P m = length (filter (\<lambda>p. P (snd p)) m)"

definition wf_map :: "('k \<times> 'v) list \<Rightarrow> bool" where
  "wf_map m \<longleftrightarrow> distinct (map fst m)"

lemma map_of_map_set [simp]: "map_of (map_set k v m) = (map_of m)(k \<mapsto> v)"
  by (induction m) auto

lemma keys_map_set: "fst ` set (map_set k v m) = insert k (fst ` set m)"
  by (simp flip: dom_map_of_conv_image_fst)

lemma distinct_map_set: "distinct (map fst m) \<Longrightarrow> distinct (map fst (map_set k v m))"
proof (induction m)
  case (Cons p m)
  have "fst ` set (map_set k v m) = insert k (fst ` set m)" by (rule keys_map_set)
  with Cons show ?case by (cases p) auto
qed simp

lemma distinct_sort_key_fst: "distinct (map fst m) \<Longrightarrow> distinct (map fst (sort_key fst m))"
  by (simp add: distinct_map)

lemma map_of_sort_key_fst: "distinct (map fst m) \<Longrightarrow> map_of (sort_key fst m) = map_of m"
  by (simp add: map_of_inject_set distinct_sort_key_fst)

lemma map_of_rev_keys: "distinct (map fst m) \<Longrightarrow> map_of (rev m) = map_of m"
  by (simp add: map_of_inject_set flip: rev_map)

lemma wf_map_Nil [simp]: "wf_map []"
  by (simp add: wf_map_def)

lemma wf_map_set [simp]: "wf_map m \<Longrightarrow> wf_map (map_set k v m)"
  by (simp add: wf_map_def distinct_map_set)

lemma wf_map_filter: "wf_map m \<Longrightarrow> wf_map (filter P m)"
  unfolding wf_map_def by (rule distinct_map_filter)

lemma wf_map_del [simp]: "wf_map m \<Longrightarrow> wf_map (map_del k m)"
  by (simp add: map_del_def wf_map_filter)

lemma wf_map_purge [simp]: "wf_map m \<Longrightarrow> wf_map (map_purge P m)"
  by (simp add: map_purge_def wf_map_filter)

lemma map_of_map_del [simp]: "map_of (map_del k m) = (map_of m)(k := None)"
  by (induction m) (auto simp: map_del_def fun_eq_iff)

section \<open>The mathematical map a loop leaves\<close>

text \<open>
  A Go loop that deletes the entries satisfying a test and counts them, over a map: the
  surviving map and the number of deleted keys.
\<close>

definition drop_where :: "('v \<Rightarrow> bool) \<Rightarrow> ('k \<rightharpoonup> 'v) \<Rightarrow> ('k \<rightharpoonup> 'v)" where
  "drop_where P m = (\<lambda>k. case m k of None \<Rightarrow> None | Some v \<Rightarrow> if P v then None else Some v)"

definition hits :: "('v \<Rightarrow> bool) \<Rightarrow> ('k \<rightharpoonup> 'v) \<Rightarrow> 'k set" where
  "hits P m = {k. \<exists>v. m k = Some v \<and> P v}"

lemma drop_where_Some [simp]:
  "drop_where P m k = Some v \<longleftrightarrow> m k = Some v \<and> \<not> P v"
  by (auto simp: drop_where_def split: option.splits)

lemma drop_where_None: "drop_where P m k = None \<longleftrightarrow> (\<forall>v. m k = Some v \<longrightarrow> P v)"
  by (auto simp: drop_where_def split: option.splits)

lemma dom_drop_where: "dom (drop_where P m) = dom m - hits P m"
  by (auto simp: hits_def dom_def drop_where_def split: option.splits)

lemma hits_subset: "hits P m \<subseteq> dom m"
  by (auto simp: hits_def)

lemma finite_hits: "finite (dom m) \<Longrightarrow> finite (hits P m)"
  using finite_subset [OF hits_subset] by blast

lemma card_drop_where:
  "finite (dom m) \<Longrightarrow> card (dom (drop_where P m)) + card (hits P m) = card (dom m)"
  by (simp add: dom_drop_where card_Diff_subset [OF finite_hits hits_subset]
      card_mono [OF _ hits_subset])

lemma drop_where_idem [simp]: "drop_where P (drop_where P m) = drop_where P m"
  by (rule ext) (auto simp: drop_where_def split: option.splits)

lemma ran_drop_where: "ran (drop_where P m) = {v \<in> ran m. \<not> P v}"
  by (auto simp: ran_def)

lemma map_of_map_purge:
  "wf_map m \<Longrightarrow> map_of (map_purge P m) = drop_where P (map_of m)"
  unfolding wf_map_def map_purge_def
  by (induction m) (auto simp: drop_where_def fun_eq_iff map_of_eq_None_iff image_iff
      split: option.splits)

lemma map_of_map_purge_Some:
  "wf_map m \<Longrightarrow> map_of (map_purge P m) k = Some v \<longleftrightarrow> map_of m k = Some v \<and> \<not> P v"
  by (simp add: map_of_map_purge)

lemma map_count_card: "wf_map m \<Longrightarrow> map_count P m = card (hits P (map_of m))"
proof -
  assume wf: "wf_map m"
  let ?h = "filter (\<lambda>p. P (snd p)) m"
  have "hits P (map_of m) = fst ` set ?h"
    using wf by (auto simp: hits_def wf_map_def image_iff)
  moreover have "card (fst ` set ?h) = length ?h"
    using wf_map_filter [OF wf, of "\<lambda>p. P (snd p)"]
    by (metis distinct_card length_map list.set_map wf_map_def)
  ultimately show ?thesis by (simp add: map_count_def)
qed

lemma map_count_purge: "map_count P m + length (map_purge P m) = length m"
  unfolding map_count_def map_purge_def by (rule sum_length_filter_compl)

lemma wf_map_ran: "wf_map m \<Longrightarrow> v \<in> snd ` set m \<longleftrightarrow> (\<exists>k. map_of m k = Some v)"
  by (force simp: wf_map_def image_iff)

lemma map_set_new: "map_of m k = None \<Longrightarrow> map_set k v m = m @ [(k, v)]"
  by (induction m) (auto split: if_splits)

lemma map_of_values: "map_of (map (\<lambda>(k, c). (k, f c)) m) k = map_option f (map_of m k)"
  by (induction m) auto

lemma map_set_twice [simp]: "map_set k v (map_set k u m) = map_set k v m"
  by (induction m) auto

text \<open>A map of references: writing one cell of the store is writing its entry in the map.\<close>

lemma map_write:
  assumes "map_of m k = Some c" "distinct (map snd m)" "wf_map m" "c < length hp"
  shows "map (\<lambda>(k, c'). (k, f (hp[c := x] ! c'))) m = map_set k (f x) (map (\<lambda>(k, c). (k, f (hp ! c))) m)"
  using assms
proof (induction m)
  case (Cons e m)
  obtain k' c' where e: "e = (k', c')" by (cases e)
  show ?case
  proof (cases "k' = k")
    case True
    with Cons.prems e have "c' = c" "c \<notin> snd ` set m" by auto
    then have "map (\<lambda>(k, c'). (k, f (hp[c := x] ! c'))) m = map (\<lambda>(k, c). (k, f (hp ! c))) m"
      by (intro map_cong) (auto simp: image_iff split: prod.splits)
    with True e \<open>c' = c\<close> Cons.prems(4) show ?thesis by simp
  next
    case False
    with Cons.prems e have m: "map_of m k = Some c" "distinct (map snd m)" "wf_map m"
      by (auto simp: wf_map_def)
    moreover have "c' \<noteq> c" using Cons.prems(2) e map_of_SomeD [OF m(1)] by force
    ultimately have "map_of m k = Some c \<and> distinct (map snd m) \<and> wf_map m \<and> c' \<noteq> c" by blast
    with Cons.IH Cons.prems(4) False e show ?thesis by simp
  qed
qed simp

section \<open>Histories\<close>

text \<open>A fold over a history keeps what every step keeps.\<close>

lemma foldl_invariant:
  assumes "P s" "\<And>s x. P s \<Longrightarrow> P (f s x)"
  shows "P (foldl f s xs)"
  using assms(1) by (induction xs arbitrary: s) (simp_all add: assms(2))

end
