(* ===== verification/Json.thy ===== *)
theory Json
  imports D8aPrelude
begin

text \<open>
  The part of \<^verbatim>\<open>encoding/json\<close> the sources use. A JSON value is a tree that keeps
  what a \<^verbatim>\<open>json.RawMessage\<close> keeps: object members in order with their duplicates,
  numbers as their literal text. \<open>json_parse\<close> is the decoder's syntax (RFC 8259, nesting
  at most 10000); the \<open>unmarshal\<close> functions are its rules for Go targets: \<^verbatim>\<open>null\<close>
  leaves a target as it was, a later duplicate member wins, a wrong type is an error that does
  not stop the other members, a struct field is found by its exact name first and by its folded
  name otherwise, a map key by its exact bytes only.
\<close>

section \<open>Values\<close>

datatype json =
    JNull
  | JBool bool
  | JNum string
  | JStr bytes
  | JArr "json list"
  | JObj "(bytes \<times> json) list"

section \<open>Syntax\<close>

definition is_ws :: "char \<Rightarrow> bool" where
  "is_ws c = (c = CHR '' '' \<or> c = CHR 0x09 \<or> c = CHR 0x0A \<or> c = CHR 0x0D)"

definition skip_ws :: "bytes \<Rightarrow> bytes" where
  "skip_ws s = dropWhile is_ws s"

definition digits1 :: "bytes \<Rightarrow> (bytes \<times> bytes) option" where
  "digits1 s = (case takeWhile is_digit s of [] \<Rightarrow> None | ds \<Rightarrow> Some (ds, dropWhile is_digit s))"

definition parse_int_part :: "bytes \<Rightarrow> (bytes \<times> bytes) option" where
  "parse_int_part s =
    (case s of [] \<Rightarrow> None
     | c # r \<Rightarrow> if c = CHR ''0'' then Some (''0'', r) else digits1 s)"

definition parse_frac :: "bytes \<Rightarrow> (bytes \<times> bytes) option" where
  "parse_frac s =
    (case s of
       c # r \<Rightarrow>
         if c = CHR ''.'' then map_option (\<lambda>(ds, t). (c # ds, t)) (digits1 r)
         else Some ([], s)
     | [] \<Rightarrow> Some ([], []))"

definition parse_exp :: "bytes \<Rightarrow> (bytes \<times> bytes) option" where
  "parse_exp s =
    (case s of
       e # r \<Rightarrow>
         if e = CHR ''e'' \<or> e = CHR ''E'' then
           (case r of
              sg # r' \<Rightarrow>
                if sg = CHR ''+'' \<or> sg = CHR ''-''
                then map_option (\<lambda>(ds, t). (e # sg # ds, t)) (digits1 r')
                else map_option (\<lambda>(ds, t). (e # ds, t)) (digits1 r)
            | [] \<Rightarrow> None)
         else Some ([], s)
     | [] \<Rightarrow> Some ([], []))"

definition parse_unsigned :: "bytes \<Rightarrow> (bytes \<times> bytes) option" where
  "parse_unsigned s =
    Option.bind (parse_int_part s) (\<lambda>(i, s1).
    Option.bind (parse_frac s1) (\<lambda>(f, s2).
    map_option (\<lambda>(e, s3). (i @ f @ e, s3)) (parse_exp s2)))"

definition parse_number :: "bytes \<Rightarrow> (bytes \<times> bytes) option" where
  "parse_number s =
    (case s of
       c # r \<Rightarrow>
         if c = CHR ''-'' then map_option (\<lambda>(n, t). (c # n, t)) (parse_unsigned r)
         else parse_unsigned s
     | [] \<Rightarrow> None)"

definition hex4 :: "char \<Rightarrow> char \<Rightarrow> char \<Rightarrow> char \<Rightarrow> nat option" where
  "hex4 a b c d =
    (case (hex_val a, hex_val b, hex_val c, hex_val d) of
       (Some w, Some x, Some y, Some z) \<Rightarrow> Some (w * 4096 + x * 256 + y * 16 + z)
     | _ \<Rightarrow> None)"

definition simple_escape :: "char \<Rightarrow> char option" where
  "simple_escape c =
    (if c = CHR 0x22 \<or> c = CHR 0x5C \<or> c = CHR ''/'' then Some c
     else if c = CHR ''b'' then Some (CHR 0x08)
     else if c = CHR ''f'' then Some (CHR 0x0C)
     else if c = CHR ''n'' then Some (CHR 0x0A)
     else if c = CHR ''r'' then Some (CHR 0x0D)
     else if c = CHR ''t'' then Some (CHR 0x09)
     else None)"

text \<open>
  The literal's characters up to the closing quote, split into raw bytes and the code units of
  \<^verbatim>\<open>\u\<close> escapes.
\<close>

datatype piece = Raw char | Unit nat

fun string_pieces :: "bytes \<Rightarrow> (piece list \<times> bytes) option" where
  "string_pieces [] = None"
| "string_pieces (c # s) =
    (if c = CHR 0x22 then Some ([], s)
     else if byte_of c < 0x20 then None
     else if c = CHR 0x5C then
       (case s of
          [] \<Rightarrow> None
        | e # r \<Rightarrow>
            if e = CHR ''u'' then
              (case r of
                 w # x # y # z # r' \<Rightarrow>
                   (case hex4 w x y z of
                      None \<Rightarrow> None
                    | Some u \<Rightarrow> map_option (\<lambda>(ps, t). (Unit u # ps, t)) (string_pieces r'))
               | _ \<Rightarrow> None)
            else
              (case simple_escape e of
                 None \<Rightarrow> None
               | Some d \<Rightarrow> map_option (\<lambda>(ps, t). (Raw d # ps, t)) (string_pieces r)))
     else map_option (\<lambda>(ps, t). (Raw c # ps, t)) (string_pieces s))"

definition high_surrogate :: "nat \<Rightarrow> bool" where
  "high_surrogate u = (0xD800 \<le> u \<and> u < 0xDC00)"

definition low_surrogate :: "nat \<Rightarrow> bool" where
  "low_surrogate u = (0xDC00 \<le> u \<and> u < 0xE000)"

fun join_pieces :: "piece list \<Rightarrow> bytes" where
  "join_pieces [] = []"
| "join_pieces (Raw c # ps) = c # join_pieces ps"
| "join_pieces (Unit u # Unit v # ps) =
    (if high_surrogate u \<and> low_surrogate v
     then utf8_encode (0x10000 + (u - 0xD800) * 1024 + (v - 0xDC00)) @ join_pieces ps
     else utf8_encode (if high_surrogate u \<or> low_surrogate u then RuneError else u)
          @ join_pieces (Unit v # ps))"
| "join_pieces (Unit u # ps) =
    utf8_encode (if high_surrogate u \<or> low_surrogate u then RuneError else u) @ join_pieces ps"

text \<open>A string literal after its opening quote.\<close>

definition parse_string :: "bytes \<Rightarrow> (bytes \<times> bytes) option" where
  "parse_string s = map_option (\<lambda>(ps, t). (to_valid_utf8 (join_pieces ps), t)) (string_pieces s)"

definition maxNestingDepth :: nat where
  "maxNestingDepth = 10000"

text \<open>A value that is neither an object nor an array, by its first character.\<close>

definition parse_scalar :: "char \<Rightarrow> bytes \<Rightarrow> (json \<times> bytes) option" where
  "parse_scalar c r =
    (if c = CHR 0x22 then map_option (\<lambda>(b, t). (JStr b, t)) (parse_string r)
     else if HasPrefix (c # r) ''null'' then Some (JNull, drop 3 r)
     else if HasPrefix (c # r) ''true'' then Some (JBool True, drop 3 r)
     else if HasPrefix (c # r) ''false'' then Some (JBool False, drop 4 r)
     else map_option (\<lambda>(l, t). (JNum l, t)) (parse_number (c # r)))"

text \<open>A member's name and the colon after it.\<close>

definition parse_key :: "bytes \<Rightarrow> (bytes \<times> bytes) option" where
  "parse_key s =
    (case skip_ws s of
       [] \<Rightarrow> None
     | q # r \<Rightarrow>
       if q \<noteq> CHR 0x22 then None
       else Option.bind (parse_string r) (\<lambda>(k, t).
         case skip_ws t of
           [] \<Rightarrow> None
         | c # u \<Rightarrow> if c = CHR '':'' then Some (k, u) else None))"

text \<open>
  The value, element and member parsers share one fuel: every call that spends a unit of it has
  read a character since the last one or passes to the value parser once, so twice the length of
  the text and two is enough.
\<close>

fun parse_value :: "nat \<Rightarrow> nat \<Rightarrow> bytes \<Rightarrow> (json \<times> bytes) option"
and parse_elems :: "nat \<Rightarrow> nat \<Rightarrow> bytes \<Rightarrow> (json list \<times> bytes) option"
and parse_members :: "nat \<Rightarrow> nat \<Rightarrow> bytes \<Rightarrow> ((bytes \<times> json) list \<times> bytes) option" where
  "parse_value 0 d s = None"
| "parse_value (Suc n) d s =
    (case skip_ws s of
       [] \<Rightarrow> None
     | c # r \<Rightarrow>
       if c = CHR ''{'' then
         (if d = 0 then None
          else case skip_ws r of
            [] \<Rightarrow> None
          | c' # t \<Rightarrow>
              if c' = CHR ''}'' then Some (JObj [], t)
              else map_option (\<lambda>(ms, u). (JObj ms, u)) (parse_members n (d - 1) r))
       else if c = CHR ''['' then
         (if d = 0 then None
          else case skip_ws r of
            [] \<Rightarrow> None
          | c' # t \<Rightarrow>
              if c' = CHR '']'' then Some (JArr [], t)
              else map_option (\<lambda>(vs, u). (JArr vs, u)) (parse_elems n (d - 1) r))
       else parse_scalar c r)"
| "parse_elems 0 d s = None"
| "parse_elems (Suc n) d s =
    Option.bind (parse_value n d s) (\<lambda>(v, s1).
      case skip_ws s1 of
        [] \<Rightarrow> None
      | c # r \<Rightarrow>
          if c = CHR '']'' then Some ([v], r)
          else if c = CHR '','' then map_option (\<lambda>(vs, t). (v # vs, t)) (parse_elems n d r)
          else None)"
| "parse_members 0 d s = None"
| "parse_members (Suc n) d s =
    Option.bind (parse_key s) (\<lambda>(k, s1).
    Option.bind (parse_value n d s1) (\<lambda>(v, s2).
      case skip_ws s2 of
        [] \<Rightarrow> None
      | c # r \<Rightarrow>
          if c = CHR ''}'' then Some ([(k, v)], r)
          else if c = CHR '','' then map_option (\<lambda>(ms, t). ((k, v) # ms, t)) (parse_members n d r)
          else None))"

text \<open>A whole document: one value, then only white space.\<close>

definition json_parse :: "bytes \<Rightarrow> json option" where
  "json_parse s =
    (case parse_value (2 * length s + 2) maxNestingDepth s of
       None \<Rightarrow> None
     | Some (v, t) \<Rightarrow> if skip_ws t = [] then Some v else None)"

section \<open>Decoding into Go values\<close>

text \<open>
  Field names are compared after folding case. Two code points outside ASCII fold onto ASCII
  letters: U+017F (long s) and U+212A (Kelvin sign).
\<close>

definition upper_byte :: "char \<Rightarrow> char" where
  "upper_byte c = (if CHR ''a'' \<le> c \<and> c \<le> CHR ''z'' then char_of (byte_of c - 32) else c)"

fun fold_name :: "bytes \<Rightarrow> bytes" where
  "fold_name (a # b # c # s) =
    (if a = CHR 0xC5 \<and> b = CHR 0xBF then CHR ''S'' # fold_name (c # s)
     else if a = CHR 0xE2 \<and> b = CHR 0x84 \<and> c = CHR 0xAA then CHR ''K'' # fold_name s
     else upper_byte a # fold_name (b # c # s))"
| "fold_name [a, b] =
    (if a = CHR 0xC5 \<and> b = CHR 0xBF then [CHR ''S''] else [upper_byte a, upper_byte b])"
| "fold_name [a] = [upper_byte a]"
| "fold_name [] = []"

text \<open>The struct field a member name selects: the exact name first, then the folded name.\<close>

definition match_field :: "string list \<Rightarrow> bytes \<Rightarrow> string option" where
  "match_field fs k =
    (if k \<in> set fs then Some k
     else case filter (\<lambda>f. fold_name f = fold_name k) fs of [] \<Rightarrow> None | f # _ \<Rightarrow> Some f)"

text \<open>
  A string target: a string replaces it, \<^verbatim>\<open>null\<close> leaves it, anything else leaves it
  and is an error (the second component).
\<close>

fun unmarshal_string :: "json \<Rightarrow> bytes \<Rightarrow> bytes \<times> bool" where
  "unmarshal_string (JStr s) old = (s, True)"
| "unmarshal_string JNull old = (old, True)"
| "unmarshal_string _ old = (old, False)"

text \<open>An integer target.\<close>

fun unmarshal_int :: "json \<Rightarrow> int \<Rightarrow> int \<times> bool" where
  "unmarshal_int (JNum l) old = (case parse_int64 l of Some v \<Rightarrow> (v, True) | None \<Rightarrow> (old, False))"
| "unmarshal_int JNull old = (old, True)"
| "unmarshal_int _ old = (old, False)"

definition map_of_members :: "(bytes \<times> 'v) list \<Rightarrow> 'v gomap" where
  "map_of_members ms = fold (\<lambda>(k, v). map_set k v) ms []"

text \<open>
  \<^verbatim>\<open>json.Unmarshal\<close> into a nil \<^verbatim>\<open>map[string]json.RawMessage\<close>: \<open>None\<close> is the
  error, and \<^verbatim>\<open>null\<close> leaves the map nil (here: empty).
\<close>

fun unmarshal_rawmap :: "json \<Rightarrow> json gomap option" where
  "unmarshal_rawmap (JObj ms) = Some (map_of_members ms)"
| "unmarshal_rawmap JNull = Some []"
| "unmarshal_rawmap _ = None"

text \<open>\<^verbatim>\<open>json.Unmarshal\<close> into a nil \<^verbatim>\<open>[]json.RawMessage\<close>.\<close>

fun unmarshal_rawlist :: "json \<Rightarrow> json list option" where
  "unmarshal_rawlist (JArr vs) = Some vs"
| "unmarshal_rawlist JNull = Some []"
| "unmarshal_rawlist _ = None"

text \<open>\<^verbatim>\<open>json.Marshal\<close> of a map writes its members sorted by key.\<close>

definition marshal_map :: "json gomap \<Rightarrow> json" where
  "marshal_map m = JObj (sort_key fst m)"

text \<open>
  A nil \<^verbatim>\<open>json.RawMessage\<close> (here \<open>None\<close>) marshals as \<^verbatim>\<open>null\<close>.
\<close>

definition marshal_raw :: "json option \<Rightarrow> json" where
  "marshal_raw r = (case r of None \<Rightarrow> JNull | Some v \<Rightarrow> v)"

subsection \<open>Maps\<close>

lemma map_of_fold_map_set:
  "map_of (fold (\<lambda>(k, v). map_set k v) ms m) = map_of m ++ map_of (rev ms)"
  by (induction ms arbitrary: m) (auto simp: map_add_def fun_eq_iff split: option.splits)

text \<open>The last of several members with the same name wins.\<close>

lemma map_of_map_of_members: "map_of (map_of_members ms) = map_of (rev ms)"
  by (simp add: map_of_members_def map_of_fold_map_set)

lemma distinct_fold_map_set:
  "distinct (map fst m) \<Longrightarrow> distinct (map fst (fold (\<lambda>(k, v). map_set k v) ms m))"
  by (induction ms arbitrary: m) (auto simp: distinct_map_set)

lemma distinct_map_of_members: "distinct (map fst (map_of_members ms))"
  by (simp add: map_of_members_def distinct_fold_map_set)

lemma unmarshal_rawmap_wf: "unmarshal_rawmap v = Some m \<Longrightarrow> wf_map m"
  by (cases v) (auto simp: distinct_map_of_members wf_map_def)

text \<open>
  Decoding what \<open>marshal_map\<close> wrote gives the same map back.
\<close>

lemma unmarshal_marshal_map:
  assumes "distinct (map fst m)"
  shows "\<exists>m'. unmarshal_rawmap (marshal_map m) = Some m' \<and> map_of m' = map_of m"
  using assms
  by (simp add: marshal_map_def map_of_map_of_members map_of_rev_keys distinct_sort_key_fst
      map_of_sort_key_fst)

section \<open>The parser reads its input and has enough fuel\<close>

lemma length_skip_ws: "length (skip_ws s) \<le> length s"
  by (simp add: skip_ws_def length_dropWhile_le)

lemma skip_ws_Cons: "skip_ws s = c # r \<Longrightarrow> length r < length s"
  using length_skip_ws [of s] by simp

lemma digits1_shrinks: "digits1 s = Some (x, t) \<Longrightarrow> length t < length s"
proof -
  assume "digits1 s = Some (x, t)"
  then have t: "t = dropWhile is_digit s" and ne: "takeWhile is_digit s \<noteq> []"
    by (auto simp: digits1_def split: list.splits)
  have "length (takeWhile is_digit s) + length (dropWhile is_digit s) = length s"
    by (metis length_append takeWhile_dropWhile_id)
  with t ne show ?thesis by (cases "takeWhile is_digit s") auto
qed

lemma parse_int_part_shrinks: "parse_int_part s = Some (x, t) \<Longrightarrow> length t < length s"
  unfolding parse_int_part_def
  by (auto split: list.splits if_splits dest: digits1_shrinks)

lemma parse_frac_shrinks: "parse_frac s = Some (x, t) \<Longrightarrow> length t \<le> length s"
  unfolding parse_frac_def
  by (auto split: list.splits if_splits dest: digits1_shrinks)

lemma parse_exp_shrinks: "parse_exp s = Some (x, t) \<Longrightarrow> length t \<le> length s"
  unfolding parse_exp_def
  by (auto split: list.splits if_splits dest!: digits1_shrinks)

lemma parse_unsigned_shrinks: "parse_unsigned s = Some (x, t) \<Longrightarrow> length t < length s"
  unfolding parse_unsigned_def
  by (force simp: bind_eq_Some_conv
      dest!: parse_int_part_shrinks parse_frac_shrinks parse_exp_shrinks)

lemma parse_number_shrinks: "parse_number s = Some (x, t) \<Longrightarrow> length t < length s"
  unfolding parse_number_def
  by (auto split: list.splits if_splits dest: parse_unsigned_shrinks)

lemma string_pieces_shrinks: "string_pieces s = Some (x, t) \<Longrightarrow> length t < length s"
  by (induction s arbitrary: x t rule: string_pieces.induct)
    (force split: if_splits list.splits option.splits)+

lemma parse_string_shrinks: "parse_string s = Some (x, t) \<Longrightarrow> length t < length s"
  by (auto simp: parse_string_def dest: string_pieces_shrinks)

lemmas token_shrinks = digits1_shrinks parse_number_shrinks parse_string_shrinks skip_ws_Cons

lemma parse_scalar_shrinks: "parse_scalar c r = Some (v, t) \<Longrightarrow> length t \<le> length r"
  unfolding parse_scalar_def
  by (auto split: if_splits dest!: parse_string_shrinks parse_number_shrinks)

lemma parse_key_shrinks:
  assumes "parse_key s = Some (k, u)"
  shows "length u < length s"
proof -
  from assms obtain q r where q: "skip_ws s = q # r"
    by (cases "skip_ws s") (auto simp: parse_key_def)
  with assms obtain k' t where k: "parse_string r = Some (k', t)"
    by (auto simp: parse_key_def bind_eq_Some_conv split: if_splits)
  with q assms have "\<exists>c. skip_ws t = c # u"
    by (cases "skip_ws t") (auto simp: parse_key_def split: if_splits)
  then have "length u < length t" using skip_ws_Cons by blast
  with skip_ws_Cons [OF q] parse_string_shrinks [OF k] show ?thesis by linarith
qed

lemma parse_shrinks:
  shows "parse_value n d s = Some (v, t) \<Longrightarrow> length t < length s"
    and "parse_elems n d s = Some (vs, t) \<Longrightarrow> length t < length s"
    and "parse_members n d s = Some (ms, t) \<Longrightarrow> length t < length s"
proof (induction n d s and n d s and n d s arbitrary: v t and vs t and ms t
    rule: parse_value_parse_elems_parse_members.induct)
  case (2 n d s)
  from "2.prems" obtain c r where sk: "skip_ws s = c # r"
    by (auto split: list.splits)
  have r: "length r < length s" by (rule skip_ws_Cons [OF sk])
  consider (obj) "c = CHR ''{''" | (arr) "c = CHR ''[''"
    | (scalar) "c \<noteq> CHR ''{''" "c \<noteq> CHR ''[''" by blast
  then show ?case
  proof cases
    case obj
    with "2.prems" sk r "2.IH"(1) [OF sk obj] show ?thesis
      by (fastforce split: list.splits if_splits dest: skip_ws_Cons)
  next
    case arr
    with "2.prems" sk r "2.IH"(2) [OF sk _ arr] show ?thesis
      by (fastforce split: list.splits if_splits dest: skip_ws_Cons)
  next
    case scalar
    with "2.prems" sk r show ?thesis by (auto dest: parse_scalar_shrinks)
  qed
next
  case (4 n d s)
  from "4.prems" obtain v s1 where v: "parse_value n d s = Some (v, s1)"
    by (auto simp: bind_eq_Some_conv)
  with "4.prems" obtain c r where sk: "skip_ws s1 = c # r"
    by (cases "skip_ws s1") auto
  have "length s1 < length s" by (rule "4.IH"(1) [OF v])
  moreover have "length r < length s1" by (rule skip_ws_Cons [OF sk])
  ultimately show ?case
    using "4.prems" v sk "4.IH"(2) [OF v refl sk]
    by (fastforce split: if_splits)
next
  case (6 n d s)
  from "6.prems" obtain k s1 where k: "parse_key s = Some (k, s1)"
    by (auto simp: bind_eq_Some_conv)
  with "6.prems" obtain v s2 where v: "parse_value n d s1 = Some (v, s2)"
    by (auto simp: bind_eq_Some_conv)
  with k "6.prems" obtain c r where sk: "skip_ws s2 = c # r"
    by (cases "skip_ws s2") auto
  have "length s2 < length s1" by (rule "6.IH"(1) [OF k refl v])
  moreover have "length s1 < length s" "length r < length s2"
    using k sk by (auto dest: parse_key_shrinks skip_ws_Cons)
  ultimately show ?case
    using "6.prems" k v sk "6.IH"(2) [OF k refl v refl sk]
    by (fastforce split: if_splits)
qed simp_all

text \<open>One more unit of fuel changes nothing once there is enough of it.\<close>

lemma fuel_step:
  shows "2 * length s + 1 \<le> n \<Longrightarrow> parse_value (Suc n) d s = parse_value n d s"
    and "2 * length s + 2 \<le> n \<Longrightarrow> parse_elems (Suc n) d s = parse_elems n d s"
    and "2 * length s + 2 \<le> n \<Longrightarrow> parse_members (Suc n) d s = parse_members n d s"
proof (induction n d s and n d s and n d s rule: parse_value_parse_elems_parse_members.induct)
  case (2 n d s)
  show ?case
  proof (cases "skip_ws s")
    case (Cons c r)
    have r: "2 * length r + 2 \<le> n"
      using "2.prems" skip_ws_Cons [OF Cons] by linarith
    have m: "parse_members (Suc n) (d - 1) r = parse_members n (d - 1) r"
      if "c = CHR ''{''" "d \<noteq> 0" "skip_ws r = c' # u" "c' \<noteq> CHR ''}''" for c' u
      using "2.IH"(1) [OF Cons that] r by blast
    have e: "parse_elems (Suc n) (d - 1) r = parse_elems n (d - 1) r"
      if "c = CHR ''[''" "d \<noteq> 0" "skip_ws r = c' # u" "c' \<noteq> CHR '']''" for c' u
      using "2.IH"(2) [OF Cons _ that] that(1) r by simp
    show ?thesis
      using Cons m e by (simp del: parse_elems.simps parse_members.simps split: list.split)
  qed simp
next
  case (4 n d s)
  note unfold = parse_elems.simps(2) [of "Suc n" d s] parse_elems.simps(2) [of n d s]
  have v: "parse_value (Suc n) d s = parse_value n d s"
    using "4.IH"(1) "4.prems" by simp
  show ?case
  proof (cases "parse_value n d s")
    case (Some p)
    obtain x s1 where p: "p = (x, s1)" by (cases p)
    show ?thesis
    proof (cases "skip_ws s1")
      case (Cons c r)
      have "2 * length r + 2 \<le> n"
        using "4.prems" skip_ws_Cons [OF Cons] parse_shrinks(1) [OF Some [unfolded p]] by linarith
      then have "parse_elems (Suc n) d r = parse_elems n d r"
        if "c \<noteq> CHR '']''" "c = CHR '',''"
        using "4.IH"(2) [OF Some p [symmetric] Cons that] by blast
      then show ?thesis
        unfolding unfold v Some p using Cons by simp
    next
      case Nil
      then show ?thesis unfolding unfold v Some p by simp
    qed
  next
    case None
    then show ?thesis unfolding unfold v by simp
  qed
next
  case (6 n d s)
  note unfold = parse_members.simps(2) [of "Suc n" d s] parse_members.simps(2) [of n d s]
  show ?case
  proof (cases "parse_key s")
    case (Some kp)
    obtain k s1 where kp: "kp = (k, s1)" by (cases kp)
    have s1: "length s1 < length s"
      using parse_key_shrinks [OF Some [unfolded kp]] .
    have v: "parse_value (Suc n) d s1 = parse_value n d s1"
      using "6.IH"(1) [OF Some kp [symmetric]] "6.prems" s1 by simp
    show ?thesis
    proof (cases "parse_value n d s1")
      case vs: (Some p)
      obtain x s2 where p: "p = (x, s2)" by (cases p)
      show ?thesis
      proof (cases "skip_ws s2")
        case (Cons c r)
        have "2 * length r + 2 \<le> n"
          using "6.prems" s1 skip_ws_Cons [OF Cons] parse_shrinks(1) [OF vs [unfolded p]]
          by linarith
        then have "parse_members (Suc n) d r = parse_members n d r"
          if "c \<noteq> CHR ''}''" "c = CHR '',''"
          using "6.IH"(2) [OF Some kp [symmetric] vs p [symmetric] Cons that] by blast
        then show ?thesis unfolding unfold Some kp Option.bind.simps prod.case v vs p Cons by simp
      next
        case Nil
        then show ?thesis unfolding unfold Some kp Option.bind.simps prod.case v vs p by simp
      qed
    next
      case None
      then show ?thesis unfolding unfold Some kp Option.bind.simps prod.case v by simp
    qed
  next
    case None
    then show ?thesis unfolding unfold by simp
  qed
qed simp_all

lemma parse_value_fuel:
  "2 * length s + 1 \<le> n \<Longrightarrow> parse_value n d s = parse_value (2 * length s + 1) d s"
  by (induction n rule: dec_induct) (simp_all only: fuel_step)

end
