(* ===== verification/JsonRpc.thy ===== *)
theory JsonRpc
  imports Json
begin

text \<open>
  \<^verbatim>\<open>internal/server/jsonrpc.go\<close> and the message types of
  \<^verbatim>\<open>mcp_types.go\<close>: the JSON-RPC envelope, how a message is classified, decoded from
  the bytes of a request body, and how responses are built. An absent
  \<^verbatim>\<open>json.RawMessage\<close> (length 0) is \<open>None\<close>.
\<close>

section \<open>Messages\<close>

definition ErrCodeParseError :: int where "ErrCodeParseError = -32700"
definition ErrCodeInvalidRequest :: int where "ErrCodeInvalidRequest = -32600"
definition ErrCodeMethodNotFound :: int where "ErrCodeMethodNotFound = -32601"
definition ErrCodeInvalidParams :: int where "ErrCodeInvalidParams = -32602"
definition ErrCodeInternalError :: int where "ErrCodeInternalError = -32603"

lemmas error_codes =
  ErrCodeParseError_def ErrCodeInvalidRequest_def ErrCodeMethodNotFound_def
  ErrCodeInvalidParams_def ErrCodeInternalError_def

definition jsonrpcVersion :: string where
  "jsonrpcVersion = ''2.0''"

record JSONRPCError =
  errCode :: int
  errMessage :: bytes
  errData :: "json option"

record JSONRPCMessage =
  msgJSONRPC :: bytes
  msgID :: "json option"
  msgMethod :: bytes
  msgParams :: "json option"
  msgResult :: "json option"
  msgError :: "JSONRPCError option"

definition zero_message :: JSONRPCMessage where
  "zero_message = \<lparr>msgJSONRPC = [], msgID = None, msgMethod = [], msgParams = None,
     msgResult = None, msgError = None\<rparr>"

definition zero_error :: JSONRPCError where
  "zero_error = \<lparr>errCode = 0, errMessage = [], errData = None\<rparr>"

definition IsRequest :: "JSONRPCMessage \<Rightarrow> bool" where
  "IsRequest m \<longleftrightarrow> msgMethod m \<noteq> [] \<and> msgID m \<noteq> None \<and> msgID m \<noteq> Some JNull"

definition IsNotification :: "JSONRPCMessage \<Rightarrow> bool" where
  "IsNotification m \<longleftrightarrow> msgMethod m \<noteq> [] \<and> (msgID m = None \<or> msgID m = Some JNull)"

section \<open>Decoding\<close>

text \<open>
  One member of the error object, then the whole object. The boolean says that no member so far
  had a wrong type; a wrong type does not stop the decoding.
\<close>

definition set_error_member :: "bytes \<times> json \<Rightarrow> JSONRPCError \<times> bool \<Rightarrow> JSONRPCError \<times> bool" where
  "set_error_member kv st =
    (let (k, v) = kv; (e, ok) = st in
     case match_field [''code'', ''message'', ''data''] k of
       None \<Rightarrow> (e, ok)
     | Some f \<Rightarrow>
       if f = ''code'' then
         (let (n, g) = unmarshal_int v (errCode e) in (e\<lparr>errCode := n\<rparr>, ok \<and> g))
       else if f = ''message'' then
         (let (b, g) = unmarshal_string v (errMessage e) in (e\<lparr>errMessage := b\<rparr>, ok \<and> g))
       else (e\<lparr>errData := (if v = JNull then None else Some v)\<rparr>, ok))"

fun unmarshal_error :: "json \<Rightarrow> JSONRPCError option \<Rightarrow> JSONRPCError option \<times> bool" where
  "unmarshal_error JNull old = (None, True)"
| "unmarshal_error (JObj ms) old =
    (let (e, ok) = fold set_error_member ms (case old of None \<Rightarrow> zero_error | Some e \<Rightarrow> e, True)
     in (Some e, ok))"
| "unmarshal_error _ old = (Some (case old of None \<Rightarrow> zero_error | Some e \<Rightarrow> e), False)"

definition message_fields :: "string list" where
  "message_fields = [''jsonrpc'', ''id'', ''method'', ''params'', ''result'', ''error'']"

definition set_message_member ::
    "bytes \<times> json \<Rightarrow> JSONRPCMessage \<times> bool \<Rightarrow> JSONRPCMessage \<times> bool" where
  "set_message_member kv st =
    (let (k, v) = kv; (m, ok) = st in
     case match_field message_fields k of
       None \<Rightarrow> (m, ok)
     | Some f \<Rightarrow>
       if f = ''jsonrpc'' then
         (let (b, g) = unmarshal_string v (msgJSONRPC m) in (m\<lparr>msgJSONRPC := b\<rparr>, ok \<and> g))
       else if f = ''id'' then (m\<lparr>msgID := Some v\<rparr>, ok)
       else if f = ''method'' then
         (let (b, g) = unmarshal_string v (msgMethod m) in (m\<lparr>msgMethod := b\<rparr>, ok \<and> g))
       else if f = ''params'' then (m\<lparr>msgParams := Some v\<rparr>, ok)
       else if f = ''result'' then (m\<lparr>msgResult := Some v\<rparr>, ok)
       else (let (e, g) = unmarshal_error v (msgError m) in (m\<lparr>msgError := e\<rparr>, ok \<and> g)))"

text \<open>\<^verbatim>\<open>json.Unmarshal(raw, &m)\<close> for a zero message, on the parsed value.\<close>

fun unmarshal_message :: "json \<Rightarrow> JSONRPCMessage \<times> bool" where
  "unmarshal_message (JObj ms) = fold set_message_member ms (zero_message, True)"
| "unmarshal_message JNull = (zero_message, True)"
| "unmarshal_message _ = (zero_message, False)"

datatype rpc_decode_error = ErrJSONRPCParse | ErrJSONRPCInvalidRequest

text \<open>
  \<^verbatim>\<open>DecodeJSONRPC\<close> returns the message even when it returns an error: the caller
  echoes its id.
\<close>

definition DecodeJSONRPC :: "bytes \<Rightarrow> JSONRPCMessage \<times> rpc_decode_error option" where
  "DecodeJSONRPC raw =
    (case json_parse raw of
       None \<Rightarrow> (zero_message, Some ErrJSONRPCParse)
     | Some v \<Rightarrow>
       let (m, ok) = unmarshal_message v in
       if \<not> ok then (m, Some ErrJSONRPCParse)
       else if msgJSONRPC m \<noteq> jsonrpcVersion then (m, Some ErrJSONRPCInvalidRequest)
       else (m, None))"

section \<open>Responses\<close>

definition NewResultResponse :: "json option \<Rightarrow> json \<Rightarrow> JSONRPCMessage" where
  "NewResultResponse reqID result =
    zero_message\<lparr>msgJSONRPC := jsonrpcVersion, msgID := reqID, msgResult := Some result\<rparr>"

definition NewErrorResponse ::
    "json option \<Rightarrow> int \<Rightarrow> bytes \<Rightarrow> json option \<Rightarrow> JSONRPCMessage" where
  "NewErrorResponse reqID code message data =
    (let i = (if reqID = None then Some JNull else reqID) in
     zero_message\<lparr>msgJSONRPC := jsonrpcVersion, msgID := i,
       msgError := Some \<lparr>errCode = code, errMessage = message, errData = data\<rparr>\<rparr>)"

text \<open>
  \<^verbatim>\<open>json.Marshal\<close> of a message: the members in field order, the empty ones left out
  (\<^verbatim>\<open>omitempty\<close>), \<^verbatim>\<open>jsonrpc\<close> always written.
\<close>

definition marshal_error :: "JSONRPCError \<Rightarrow> json" where
  "marshal_error e =
    JObj ([(''code'', JNum (FormatInt (errCode e))), (''message'', JStr (errMessage e))]
      @ (case errData e of None \<Rightarrow> [] | Some d \<Rightarrow> [(''data'', d)]))"

definition marshal_message :: "JSONRPCMessage \<Rightarrow> json" where
  "marshal_message m =
    JObj ([(''jsonrpc'', JStr (msgJSONRPC m))]
      @ (case msgID m of None \<Rightarrow> [] | Some v \<Rightarrow> [(''id'', v)])
      @ (if msgMethod m = [] then [] else [(''method'', JStr (msgMethod m))])
      @ (case msgParams m of None \<Rightarrow> [] | Some v \<Rightarrow> [(''params'', v)])
      @ (case msgResult m of None \<Rightarrow> [] | Some v \<Rightarrow> [(''result'', v)])
      @ (case msgError m of None \<Rightarrow> [] | Some e \<Rightarrow> [(''error'', marshal_error e)]))"

section \<open>Classification\<close>

text \<open>Every message with a method is a request or a notification, never both, and a message
  without a method is neither: the dispatch on \<^verbatim>\<open>IsRequest\<close> and
  \<^verbatim>\<open>IsNotification\<close> is a case distinction.\<close>

theorem classification:
  "(IsRequest m \<or> IsNotification m \<longleftrightarrow> msgMethod m \<noteq> []) \<and> \<not> (IsRequest m \<and> IsNotification m)"
  by (auto simp: IsRequest_def IsNotification_def)

section \<open>Responses are well formed\<close>

lemma NewErrorResponse_sel [simp]:
  "msgJSONRPC (NewErrorResponse i c t d) = jsonrpcVersion"
  "msgID (NewErrorResponse i c t d) = (if i = None then Some JNull else i)"
  "msgMethod (NewErrorResponse i c t d) = []"
  "msgParams (NewErrorResponse i c t d) = None"
  "msgResult (NewErrorResponse i c t d) = None"
  "msgError (NewErrorResponse i c t d) = Some \<lparr>errCode = c, errMessage = t, errData = d\<rparr>"
  by (simp_all add: NewErrorResponse_def zero_message_def Let_def)

lemma NewResultResponse_sel [simp]:
  "msgJSONRPC (NewResultResponse i r) = jsonrpcVersion"
  "msgID (NewResultResponse i r) = i"
  "msgMethod (NewResultResponse i r) = []"
  "msgParams (NewResultResponse i r) = None"
  "msgResult (NewResultResponse i r) = Some r"
  "msgError (NewResultResponse i r) = None"
  by (simp_all add: NewResultResponse_def zero_message_def)

text \<open>A message a round trip through JSON preserves.\<close>

definition wf_error :: "JSONRPCError \<Rightarrow> bool" where
  "wf_error e \<longleftrightarrow> - (2 ^ 63) \<le> errCode e \<and> errCode e < 2 ^ 63 \<and> errData e \<noteq> Some JNull"

definition wf_message :: "JSONRPCMessage \<Rightarrow> bool" where
  "wf_message m \<longleftrightarrow> (\<forall>e. msgError m = Some e \<longrightarrow> wf_error e)"

lemma match_field_exact: "f \<in> set fs \<Longrightarrow> match_field fs f = Some f"
  by (simp add: match_field_def)

lemma message_field_simps [simp]:
  "match_field message_fields ''jsonrpc'' = Some ''jsonrpc''"
  "match_field message_fields ''id'' = Some ''id''"
  "match_field message_fields ''method'' = Some ''method''"
  "match_field message_fields ''params'' = Some ''params''"
  "match_field message_fields ''result'' = Some ''result''"
  "match_field message_fields ''error'' = Some ''error''"
  by (simp_all add: match_field_def message_fields_def)

lemma error_field_simps [simp]:
  "match_field [''code'', ''message'', ''data''] ''code'' = Some ''code''"
  "match_field [''code'', ''message'', ''data''] ''message'' = Some ''message''"
  "match_field [''code'', ''message'', ''data''] ''data'' = Some ''data''"
  by (simp_all add: match_field_def)

lemma unmarshal_marshal_error:
  "wf_error e \<Longrightarrow> unmarshal_error (marshal_error e) None = (Some e, True)"
  by (cases e; cases "errData e")
    (simp_all add: wf_error_def marshal_error_def set_error_member_def zero_error_def
      parse_FormatInt)


end
