(* ===== verification/Sessions.thy ===== *)
theory Sessions
  imports JsonRpc
begin

text \<open>
  \<^verbatim>\<open>mcp_types.go\<close> and \<^verbatim>\<open>session.go\<close>: the blocks of the
  initialize handshake with their JSON forms, and the session identifier. A block is decoded member
  by member into the value it had before, as \<^verbatim>\<open>encoding/json\<close> does.
\<close>

section \<open>Handshake blocks\<close>

record Implementation =
  implName :: bytes
  implTitle :: bytes
  implVersion :: bytes
  implDescription :: bytes
  implWebsiteURL :: bytes

type_synonym ServerCapabilities = "json gomap"

record InitializeParams =
  ipProtocolVersion :: bytes
  ipCapabilities :: "json gomap"
  ipClientInfo :: Implementation

record InitializeResult =
  irProtocolVersion :: bytes
  irCapabilities :: ServerCapabilities
  irServerInfo :: Implementation
  irInstructions :: bytes

definition zero_impl :: Implementation where
  "zero_impl = \<lparr>implName = [], implTitle = [], implVersion = [], implDescription = [],
     implWebsiteURL = []\<rparr>"

definition zero_params :: InitializeParams where
  "zero_params = \<lparr>ipProtocolVersion = [], ipCapabilities = [], ipClientInfo = zero_impl\<rparr>"

definition zero_result :: InitializeResult where
  "zero_result = \<lparr>irProtocolVersion = [], irCapabilities = [], irServerInfo = zero_impl,
     irInstructions = []\<rparr>"

definition impl_fields :: "string list" where
  "impl_fields = [''name'', ''title'', ''version'', ''description'', ''websiteUrl'']"

definition set_impl_member ::
    "bytes \<times> json \<Rightarrow> Implementation \<times> bool \<Rightarrow> Implementation \<times> bool" where
  "set_impl_member kv st =
    (let (k, v) = kv; (i, ok) = st in
     case match_field impl_fields k of
       None \<Rightarrow> (i, ok)
     | Some f \<Rightarrow>
       if f = ''name'' then
         (let (b, g) = unmarshal_string v (implName i) in (i\<lparr>implName := b\<rparr>, ok \<and> g))
       else if f = ''title'' then
         (let (b, g) = unmarshal_string v (implTitle i) in (i\<lparr>implTitle := b\<rparr>, ok \<and> g))
       else if f = ''version'' then
         (let (b, g) = unmarshal_string v (implVersion i) in (i\<lparr>implVersion := b\<rparr>, ok \<and> g))
       else if f = ''description'' then
         (let (b, g) = unmarshal_string v (implDescription i)
          in (i\<lparr>implDescription := b\<rparr>, ok \<and> g))
       else
         (let (b, g) = unmarshal_string v (implWebsiteURL i)
          in (i\<lparr>implWebsiteURL := b\<rparr>, ok \<and> g)))"

fun unmarshal_impl :: "json \<Rightarrow> Implementation \<Rightarrow> Implementation \<times> bool" where
  "unmarshal_impl (JObj ms) old = fold set_impl_member ms (old, True)"
| "unmarshal_impl JNull old = (old, True)"
| "unmarshal_impl _ old = (old, False)"

text \<open>A map target that may already hold entries: the members are added to it.\<close>

fun unmarshal_into_map :: "json \<Rightarrow> json gomap \<Rightarrow> json gomap \<times> bool" where
  "unmarshal_into_map (JObj ms) old = (fold (\<lambda>(k, v). map_set k v) ms old, True)"
| "unmarshal_into_map JNull old = ([], True)"
| "unmarshal_into_map _ old = (old, False)"

definition set_params_member ::
    "bytes \<times> json \<Rightarrow> InitializeParams \<times> bool \<Rightarrow> InitializeParams \<times> bool" where
  "set_params_member kv st =
    (let (k, v) = kv; (p, ok) = st in
     case match_field [''protocolVersion'', ''capabilities'', ''clientInfo''] k of
       None \<Rightarrow> (p, ok)
     | Some f \<Rightarrow>
       if f = ''protocolVersion'' then
         (let (b, g) = unmarshal_string v (ipProtocolVersion p)
          in (p\<lparr>ipProtocolVersion := b\<rparr>, ok \<and> g))
       else if f = ''capabilities'' then
         (let (m, g) = unmarshal_into_map v (ipCapabilities p)
          in (p\<lparr>ipCapabilities := m\<rparr>, ok \<and> g))
       else
         (let (i, g) = unmarshal_impl v (ipClientInfo p) in (p\<lparr>ipClientInfo := i\<rparr>, ok \<and> g)))"

fun unmarshal_params :: "json \<Rightarrow> InitializeParams \<times> bool" where
  "unmarshal_params (JObj ms) = fold set_params_member ms (zero_params, True)"
| "unmarshal_params JNull = (zero_params, True)"
| "unmarshal_params _ = (zero_params, False)"

definition set_result_member ::
    "bytes \<times> json \<Rightarrow> InitializeResult \<times> bool \<Rightarrow> InitializeResult \<times> bool" where
  "set_result_member kv st =
    (let (k, v) = kv; (p, ok) = st in
     case match_field [''protocolVersion'', ''capabilities'', ''serverInfo'', ''instructions''] k of
       None \<Rightarrow> (p, ok)
     | Some f \<Rightarrow>
       if f = ''protocolVersion'' then
         (let (b, g) = unmarshal_string v (irProtocolVersion p)
          in (p\<lparr>irProtocolVersion := b\<rparr>, ok \<and> g))
       else if f = ''capabilities'' then
         (let (m, g) = unmarshal_into_map v (irCapabilities p)
          in (p\<lparr>irCapabilities := m\<rparr>, ok \<and> g))
       else if f = ''serverInfo'' then
         (let (i, g) = unmarshal_impl v (irServerInfo p) in (p\<lparr>irServerInfo := i\<rparr>, ok \<and> g))
       else
         (let (b, g) = unmarshal_string v (irInstructions p)
          in (p\<lparr>irInstructions := b\<rparr>, ok \<and> g)))"

fun unmarshal_result :: "json \<Rightarrow> InitializeResult \<times> bool" where
  "unmarshal_result (JObj ms) = fold set_result_member ms (zero_result, True)"
| "unmarshal_result JNull = (zero_result, True)"
| "unmarshal_result _ = (zero_result, False)"

definition omit_empty :: "string \<Rightarrow> bytes \<Rightarrow> (bytes \<times> json) list" where
  "omit_empty k b = (if b = [] then [] else [(k, JStr b)])"

definition marshal_impl :: "Implementation \<Rightarrow> json" where
  "marshal_impl i =
    JObj ([(''name'', JStr (implName i))] @ omit_empty ''title'' (implTitle i)
      @ omit_empty ''version'' (implVersion i) @ omit_empty ''description'' (implDescription i)
      @ omit_empty ''websiteUrl'' (implWebsiteURL i))"

definition marshal_params :: "InitializeParams \<Rightarrow> json" where
  "marshal_params p =
    JObj [(''protocolVersion'', JStr (ipProtocolVersion p)),
          (''capabilities'', marshal_map (ipCapabilities p)),
          (''clientInfo'', marshal_impl (ipClientInfo p))]"

definition marshal_result :: "InitializeResult \<Rightarrow> json" where
  "marshal_result r =
    JObj ([(''protocolVersion'', JStr (irProtocolVersion r)),
           (''capabilities'', marshal_map (irCapabilities r)),
           (''serverInfo'', marshal_impl (irServerInfo r))]
      @ omit_empty ''instructions'' (irInstructions r))"

section \<open>Session identifiers\<close>

text \<open>
  Unpadded base32 of the random bytes, in lower case: each group of five bytes is a number of
  eight digits to the base 32, and a last group of 1 to 4 bytes is filled up with zero bits.
\<close>

fun be_digits :: "nat \<Rightarrow> nat \<Rightarrow> nat \<Rightarrow> nat list" where
  "be_digits b 0 n = []"
| "be_digits b (Suc k) n = be_digits b k (n div b) @ [n mod b]"

definition be_value :: "nat \<Rightarrow> nat list \<Rightarrow> nat" where
  "be_value b ds = foldl (\<lambda>a d. a * b + d) 0 ds"

definition base32_alphabet :: bytes where
  "base32_alphabet = ''ABCDEFGHIJKLMNOPQRSTUVWXYZ234567''"

definition base32_group :: "bytes \<Rightarrow> bytes" where
  "base32_group g =
    (let c = (8 * length g + 4) div 5 in
     map (\<lambda>d. base32_alphabet ! d)
       (be_digits 32 c (be_value 256 (map byte_of g) * 2 ^ (5 * c - 8 * length g))))"

function base32_encode :: "bytes \<Rightarrow> bytes" where
  "base32_encode s =
    (if s = [] then [] else base32_group (take 5 s) @ base32_encode (drop 5 s))"
  by pat_completeness auto
termination by (relation "measure length") auto

declare base32_encode.simps [simp del]

text \<open>
  The randomness is an argument: the bytes \<^verbatim>\<open>rand.Read\<close> filled the array with, or
  \<open>None\<close> for its error.
\<close>

definition NewSessionID :: "bytes option \<Rightarrow> bytes option" where
  "NewSessionID raw = map_option (\<lambda>b. ToLower_ascii (base32_encode b)) raw"

subsection \<open>Format and injectivity\<close>

lemma length_be_digits [simp]: "length (be_digits b k n) = k"
  by (induction k arbitrary: n) auto

lemma be_digits_less: "0 < b \<Longrightarrow> d \<in> set (be_digits b k n) \<Longrightarrow> d < b"
  by (induction k arbitrary: n) auto

lemma be_digits_inj:
  "be_digits b k n = be_digits b k m \<Longrightarrow> n < b ^ k \<Longrightarrow> m < b ^ k \<Longrightarrow> n = m"
proof (induction k arbitrary: n m)
  case (Suc k)
  then have "be_digits b k (n div b) = be_digits b k (m div b)" and eq: "n mod b = m mod b"
    by auto
  moreover have "n div b < b ^ k" "m div b < b ^ k"
    using Suc.prems by (simp_all add: less_mult_imp_div_less mult.commute)
  ultimately have "n div b = m div b" using Suc.IH by blast
  with eq show ?case by (metis div_mult_mod_eq)
qed simp

lemma be_value_snoc: "be_value b (ds @ [d]) = be_value b ds * b + d"
  by (simp add: be_value_def)

lemma be_value_less: "(\<forall>d \<in> set ds. d < b) \<Longrightarrow> be_value b ds < b ^ length ds"
proof (induction ds rule: rev_induct)
  case (snoc d ds)
  then have "be_value b ds + 1 \<le> b ^ length ds" and "d < b" by auto
  then have "be_value b ds * b + d < (be_value b ds + 1) * b" by simp
  also have "\<dots> \<le> b ^ length ds * b"
    using \<open>be_value b ds + 1 \<le> b ^ length ds\<close> by (rule mult_le_mono1)
  finally show ?case by (simp add: be_value_snoc mult.commute)
qed (simp add: be_value_def)

lemma be_value_inj:
  "length ds = length es \<Longrightarrow> \<forall>d \<in> set ds. d < b \<Longrightarrow> \<forall>d \<in> set es. d < b \<Longrightarrow>
     be_value b ds = be_value b es \<Longrightarrow> ds = es"
proof (induction ds arbitrary: es rule: rev_induct)
  case (snoc d ds)
  then obtain e es' where es: "es = es' @ [e]" by (cases es rule: rev_cases) auto
  have "d < b" "e < b" using snoc.prems es by auto
  moreover from snoc.prems es have eq: "be_value b ds * b + d = be_value b es' * b + e"
    by (simp add: be_value_snoc)
  ultimately have "d = e" by (metis mod_less mod_mult_self3)
  with eq \<open>d < b\<close> have "be_value b ds = be_value b es'" by simp
  with snoc es \<open>d = e\<close> show ?case by simp
qed simp

lemma base32_char_inj:
  assumes "i < 32" "j < 32"
    and "lower_byte (base32_alphabet ! i) = lower_byte (base32_alphabet ! j)"
  shows "i = j"
proof -
  have d: "distinct (map lower_byte base32_alphabet)" and l: "length base32_alphabet = 32"
    by code_simp+
  with assms nth_eq_iff_index_eq [OF d, of i j] show ?thesis by simp
qed

definition base32_chars :: "bytes" where
  "base32_chars = ''abcdefghijklmnopqrstuvwxyz234567''"

lemma base32_char_in: "i < 32 \<Longrightarrow> lower_byte (base32_alphabet ! i) \<in> set base32_chars"
proof -
  assume "i < 32"
  moreover have "map lower_byte base32_alphabet = base32_chars" and "length base32_alphabet = 32"
    by code_simp+
  ultimately show ?thesis by (metis length_map nth_map nth_mem)
qed

lemma base32_bits_inj:
  assumes g: "length g = length h" "length g \<le> 5"
    and eq: "be_digits 32 ((8 * length g + 4) div 5)
        (be_value 256 (map byte_of g) * 2 ^ (5 * ((8 * length g + 4) div 5) - 8 * length g))
      = be_digits 32 ((8 * length h + 4) div 5)
        (be_value 256 (map byte_of h) * 2 ^ (5 * ((8 * length h + 4) div 5) - 8 * length h))"
  shows "g = h"
proof -
  let ?c = "(8 * length g + 4) div 5"
  let ?e = "5 * ?c - 8 * length g"
  have le: "8 * length g \<le> 5 * ?c" by linarith
  have bound: "be_value 256 (map byte_of x) * 2 ^ ?e < 32 ^ ?c" if "length x = length g" for x :: bytes
  proof -
    have "be_value 256 (map byte_of x) < 256 ^ length x"
      using be_value_less [of "map byte_of x" 256] by auto
    then have "be_value 256 (map byte_of x) * 2 ^ ?e < 256 ^ length g * 2 ^ ?e"
      using that by simp
    also have "(256::nat) ^ length g * 2 ^ ?e = 2 ^ (8 * length g + ?e)"
      by (simp only: power_add power_mult) simp
    also have "8 * length g + ?e = 5 * ?c" using le by (rule le_add_diff_inverse)
    also have "(2::nat) ^ (5 * ?c) = 32 ^ ?c" by (simp add: power_mult)
    finally show ?thesis .
  qed
  have "be_value 256 (map byte_of g) * 2 ^ ?e = be_value 256 (map byte_of h) * 2 ^ ?e"
    using be_digits_inj [OF _ bound [OF refl] bound [OF g(1) [symmetric]]] eq g(1) by simp
  then have "be_value 256 (map byte_of g) = be_value 256 (map byte_of h)" by simp
  then have "map byte_of g = (map byte_of h :: nat list)"
    by (rule be_value_inj [rotated 3]) (use g in auto)
  then show ?thesis
    by (rule map_injective) (simp add: inj_of_char)
qed

lemma base32_group_inj:
  assumes "length g = length h" "length g \<le> 5"
    and eq: "ToLower_ascii (base32_group g) = ToLower_ascii (base32_group h)"
  shows "g = h"
proof (rule base32_bits_inj [OF assms(1,2)])
  let ?ds = "\<lambda>x. be_digits 32 ((8 * length x + 4) div 5)
      (be_value 256 (map byte_of x) * 2 ^ (5 * ((8 * length x + 4) div 5) - 8 * length x))"
  from eq have "map (\<lambda>d. lower_byte (base32_alphabet ! d)) (?ds g)
      = map (\<lambda>d. lower_byte (base32_alphabet ! d)) (?ds h)"
    by (simp add: base32_group_def ToLower_ascii_def Let_def comp_def)
  then show "?ds g = ?ds h"
    by (rule map_inj_on)
      (auto intro!: inj_onI base32_char_inj dest: be_digits_less [rotated])
qed

lemma length_base32_group: "length (base32_group g) = (8 * length g + 4) div 5"
  by (simp add: base32_group_def Let_def)

lemma base32_encode_inj:
  "length s = length t \<Longrightarrow> ToLower_ascii (base32_encode s) = ToLower_ascii (base32_encode t) \<Longrightarrow> s = t"
proof (induction s arbitrary: t rule: base32_encode.induct)
  case (1 s)
  show ?case
  proof (cases "s = []")
    case False
    with 1 have t: "t \<noteq> []" by auto
    from "1.prems" False t
    have "ToLower_ascii (base32_group (take 5 s)) @ ToLower_ascii (base32_encode (drop 5 s))
        = ToLower_ascii (base32_group (take 5 t)) @ ToLower_ascii (base32_encode (drop 5 t))"
      by (simp add: base32_encode.simps [of s] base32_encode.simps [of t] ToLower_ascii_def)
    moreover have "length (ToLower_ascii (base32_group (take 5 s)))
        = length (ToLower_ascii (base32_group (take 5 t)))"
      using "1.prems"(1) by (simp add: length_base32_group ToLower_ascii_def)
    ultimately have group: "ToLower_ascii (base32_group (take 5 s))
        = ToLower_ascii (base32_group (take 5 t))"
      and rest: "ToLower_ascii (base32_encode (drop 5 s)) = ToLower_ascii (base32_encode (drop 5 t))"
      by (metis append_eq_append_conv)+
    have "length (take 5 s) = length (take 5 t)" "length (take 5 s) \<le> 5"
      using "1.prems"(1) by simp_all
    then have "take 5 s = take 5 t" using group by (rule base32_group_inj)
    moreover have "length (drop 5 s) = length (drop 5 t)" using "1.prems"(1) by simp
    then have "drop 5 s = drop 5 t" using rest by (rule "1.IH" [OF False])
    ultimately show ?thesis by (metis append_take_drop_id)
  qed (use 1 in simp)
qed

lemma base32_encode_chars: "set (ToLower_ascii (base32_encode s)) \<subseteq> set base32_chars"
proof (induction s rule: base32_encode.induct)
  case (1 s)
  have g: "set (ToLower_ascii (base32_group g)) \<subseteq> set base32_chars" for g
    by (auto simp: base32_group_def ToLower_ascii_def Let_def
        intro: base32_char_in dest: be_digits_less [rotated])
  show ?case
  proof (cases "s = []")
    case False
    then have "ToLower_ascii (base32_encode s)
        = ToLower_ascii (base32_group (take 5 s)) @ ToLower_ascii (base32_encode (drop 5 s))"
      by (subst base32_encode.simps) (simp add: ToLower_ascii_def)
    with g [of "take 5 s"] 1 [OF False] show ?thesis by simp
  qed (simp add: base32_encode.simps ToLower_ascii_def)
qed

text \<open>A session identifier is 26 characters of the lower-case base32 alphabet (so visible
  ASCII, as the transport demands), and different random bytes give different identifiers: the
  encoding loses none of the 128 bits.\<close>

theorem session_id_format_and_injective:
  assumes "length raw = 16" "length raw' = 16"
    and "NewSessionID (Some raw) = Some i" "NewSessionID (Some raw') = Some i'"
  shows "length i = 26 \<and> set i \<subseteq> set ''abcdefghijklmnopqrstuvwxyz234567'' \<and> (i = i' \<longleftrightarrow> raw = raw')"
proof (intro conjI)
  have unroll: "base32_encode raw = base32_group (take 5 raw) @ base32_group (take 5 (drop 5 raw))
      @ base32_group (take 5 (drop 10 raw)) @ base32_group (drop 15 raw)"
    using assms(1) by (cases raw) (simp_all add: base32_encode.simps)
  then have "length (base32_encode raw) = 26"
    using assms(1) by (simp add: length_base32_group)
  with assms(3) show "length i = 26" by (auto simp: NewSessionID_def ToLower_ascii_def)
  show "set i \<subseteq> set ''abcdefghijklmnopqrstuvwxyz234567''"
    using assms(3) base32_encode_chars [of raw] by (auto simp: NewSessionID_def base32_chars_def)
  show "i = i' \<longleftrightarrow> raw = raw'"
    using assms base32_encode_inj [of raw raw'] by (auto simp: NewSessionID_def)
qed

end
