(* ===== verification/Sandbox.thy ===== *)
theory Sandbox
  imports D8aPrelude
begin

text \<open>
  \<^verbatim>\<open>sandbox.go\<close>: the policy a backing MCP is contained by and the bubblewrap
  command line it becomes. \<^verbatim>\<open>exec.LookPath\<close> is the argument \<open>look\<close>: the path a
  program name resolves to, or the text of the error. Of \<^verbatim>\<open>exec.Cmd\<close> the model keeps the path,
  the arguments (the first is the program name) and the environment, whose \<open>None\<close> is Go's nil:
  inherit the parent's. An error keeps what its message is formatted from.
\<close>

section \<open>Policies and commands\<close>

record SandboxPolicy =
  spNetwork :: bytes
  spBindReadOnly :: "bytes list"
  spBindReadWrite :: "bytes list"
  spNoDefaults :: bool
  spDisabled :: bool

definition zero_policy :: SandboxPolicy where
  "zero_policy = \<lparr>spNetwork = [], spBindReadOnly = [], spBindReadWrite = [],
     spNoDefaults = False, spDisabled = False\<rparr>"

datatype sandbox_error =
    ErrSandboxUnavailable bytes
  | UnsupportedNetwork bytes
  | NotAbsolute bytes bytes

record Cmd =
  cmdPath :: bytes
  cmdArgs :: "bytes list"
  cmdEnv :: "bytes list option"

text \<open>
  \<^verbatim>\<open>exec.Command\<close>: a name without a slash is looked up; one that is not found stays as
  it is (starting it fails later).
\<close>

definition exec_Command :: "(bytes \<Rightarrow> bytes + bytes) \<Rightarrow> bytes \<Rightarrow> bytes list \<Rightarrow> Cmd" where
  "exec_Command look name args =
    \<lparr>cmdPath = (if CHR ''/'' \<in> set name then name
                 else case look name of Inl _ \<Rightarrow> name | Inr p \<Rightarrow> p),
     cmdArgs = name # args, cmdEnv = None\<rparr>"

definition defaultROBinds :: "bytes list" where
  "defaultROBinds = [''/usr'', ''/bin'', ''/sbin'', ''/lib'', ''/lib64'', ''/etc'']"

definition resolveSandboxPolicy :: "SandboxPolicy option \<Rightarrow> SandboxPolicy" where
  "resolveSandboxPolicy p =
    (let out = (case p of None \<Rightarrow> zero_policy | Some q \<Rightarrow> q) in
     if spDisabled out \<or> spNoDefaults out then out
     else out\<lparr>spBindReadOnly := defaultROBinds @ spBindReadOnly out\<rparr>)"

section \<open>The bubblewrap command line\<close>

definition IsAbs :: "bytes \<Rightarrow> bool" where
  "IsAbs path \<longleftrightarrow> HasPrefix path ''/''"

definition base_args :: "bytes list" where
  "base_args =
    [''--unshare-pid'', ''--unshare-ipc'', ''--unshare-uts'', ''--unshare-cgroup-try'',
     ''--die-with-parent'', ''--new-session'',
     ''--proc'', ''/proc'', ''--dev'', ''/dev'', ''--tmpfs'', ''/tmp'', ''--tmpfs'', ''/run'',
     ''--clearenv'']"

text \<open>A loop over bind paths: appends to the arguments, or stops at a path that is not absolute.\<close>

fun bind_loop :: "bytes \<Rightarrow> bytes \<Rightarrow> bytes list \<Rightarrow> bytes list \<Rightarrow> sandbox_error + bytes list" where
  "bind_loop field flag [] args = Inr args"
| "bind_loop field flag (path # ps) args =
    (if \<not> IsAbs path
     then Inl (NotAbsolute field path)
     else bind_loop field flag ps (args @ [flag, path, path]))"

text \<open>
  One step of the loop over the environment: the entry is split at its first equals sign, and one
  without a name is skipped.
\<close>

definition setenv_args :: "bytes \<Rightarrow> bytes list" where
  "setenv_args kv =
    (let i = length (takeWhile (\<lambda>c. c \<noteq> CHR ''='') kv) in
     if i = length kv \<or> i = 0 then []
     else [''--setenv'', take i kv, drop (i + 1) kv])"

definition env_loop :: "bytes list \<Rightarrow> bytes list \<Rightarrow> bytes list" where
  "env_loop kvs args = foldl (\<lambda>as kv. as @ setenv_args kv) args kvs"

definition buildBwrapArgs :: "SandboxPolicy \<Rightarrow> Cmd \<Rightarrow> sandbox_error + bytes list" where
  "buildBwrapArgs p cmd =
    (case (if spNetwork p = '''' \<or> spNetwork p = ''host'' then Inr base_args
           else if spNetwork p = ''none'' then Inr (base_args @ [''--unshare-net''])
           else Inl (UnsupportedNetwork (spNetwork p))) of
       Inl e \<Rightarrow> Inl e
     | Inr args \<Rightarrow>
       (case bind_loop ''BindReadOnly'' ''--ro-bind-try'' (spBindReadOnly p) args of
          Inl e \<Rightarrow> Inl e
        | Inr args \<Rightarrow>
          (case bind_loop ''BindReadWrite'' ''--bind-try'' (spBindReadWrite p) args of
             Inl e \<Rightarrow> Inl e
           | Inr args \<Rightarrow>
               Inr (env_loop (case cmdEnv cmd of None \<Rightarrow> [] | Some kvs \<Rightarrow> kvs) args
                 @ [''--''] @ [cmdPath cmd] @ tl (cmdArgs cmd)))))"

definition WrapCommand ::
    "(bytes \<Rightarrow> bytes + bytes) \<Rightarrow> Cmd \<Rightarrow> SandboxPolicy option \<Rightarrow> sandbox_error + Cmd" where
  "WrapCommand look cmd policy =
    (let p = resolveSandboxPolicy policy in
     if spDisabled p then Inr cmd
     else case look ''bwrap'' of
       Inl e \<Rightarrow> Inl (ErrSandboxUnavailable e)
     | Inr bwrap \<Rightarrow>
         (case buildBwrapArgs p cmd of
            Inl e \<Rightarrow> Inl e
          | Inr args \<Rightarrow> Inr (exec_Command look bwrap args)))"

definition SandboxAvailable :: "(bytes \<Rightarrow> bytes + bytes) \<Rightarrow> bool" where
  "SandboxAvailable look \<longleftrightarrow> \<not> isl (look ''bwrap'')"

section \<open>How bubblewrap reads it\<close>

text \<open>
  The documented grammar of the options used here: options without, with one and with two
  arguments, and \<^verbatim>\<open>--\<close>, after which comes the program. What a command line asks for is
  the list of its options with their arguments, and the program with its arguments.
\<close>

definition option_arity :: "bytes \<Rightarrow> nat option" where
  "option_arity a =
    (if a \<in> {''--unshare-pid'', ''--unshare-ipc'', ''--unshare-uts'', ''--unshare-cgroup-try'',
          ''--die-with-parent'', ''--new-session'', ''--clearenv'', ''--unshare-net''} then Some 0
     else if a \<in> {''--proc'', ''--dev'', ''--tmpfs''} then Some 1
     else if a \<in> {''--ro-bind-try'', ''--bind-try'', ''--setenv''} then Some 2
     else None)"

type_synonym bwrap_request = "bytes list list \<times> bytes list"

function read_bwrap :: "bytes list \<Rightarrow> bwrap_request option" where
  "read_bwrap [] = None"
| "read_bwrap (a # as) =
    (if a = ''--'' then Some ([], as)
     else case option_arity a of
       None \<Rightarrow> None
     | Some n \<Rightarrow>
         if length as < n then None
         else map_option (\<lambda>(os, prog). ((a # take n as) # os, prog)) (read_bwrap (drop n as)))"
  by pat_completeness auto
termination by (relation "measure length") auto

declare read_bwrap.simps(2) [simp del]

text \<open>Environment entries that have a name, split at the first equals sign.\<close>

definition env_pairs :: "bytes list \<Rightarrow> (bytes \<times> bytes) list" where
  "env_pairs kvs =
    map (\<lambda>kv. (takeWhile (\<lambda>c. c \<noteq> CHR ''='') kv, tl (dropWhile (\<lambda>c. c \<noteq> CHR ''='') kv)))
      (filter (\<lambda>kv. CHR ''='' \<in> set kv \<and> hd kv \<noteq> CHR ''='') kvs)"

text \<open>What the policy and the command mean.\<close>

definition intended_options :: "SandboxPolicy \<Rightarrow> Cmd \<Rightarrow> bytes list list" where
  "intended_options p cmd =
    [[''--unshare-pid''], [''--unshare-ipc''], [''--unshare-uts''], [''--unshare-cgroup-try''],
     [''--die-with-parent''], [''--new-session''], [''--proc'', ''/proc''], [''--dev'', ''/dev''],
     [''--tmpfs'', ''/tmp''], [''--tmpfs'', ''/run''], [''--clearenv'']]
    @ (if spNetwork p = ''none'' then [[''--unshare-net'']] else [])
    @ map (\<lambda>x. [''--ro-bind-try'', x, x]) (spBindReadOnly p)
    @ map (\<lambda>x. [''--bind-try'', x, x]) (spBindReadWrite p)
    @ map (\<lambda>(k, v). [''--setenv'', k, v])
        (env_pairs (case cmdEnv cmd of None \<Rightarrow> [] | Some kvs \<Rightarrow> kvs))"

definition policy_ok :: "SandboxPolicy \<Rightarrow> bool" where
  "policy_ok p \<longleftrightarrow> spNetwork p \<in> {'''', ''host'', ''none''}
    \<and> (\<forall>x \<in> set (spBindReadOnly p) \<union> set (spBindReadWrite p). IsAbs x)"

lemma bind_loop_eq:
  "bind_loop f flag ps args =
    (case find (\<lambda>x. \<not> IsAbs x) ps of
       None \<Rightarrow> Inr (args @ concat (map (\<lambda>x. [flag, x, x]) ps))
     | Some x \<Rightarrow> Inl (NotAbsolute f x))"
  by (induction ps arbitrary: args) (auto split: option.splits)

lemma length_takeWhile_eq:
  "length (takeWhile P xs) = length xs \<longleftrightarrow> (\<forall>x \<in> set xs. P x)"
  by (induction xs) auto

lemma setenv_args_eq:
  "setenv_args kv = concat (map (\<lambda>(k, v). [''--setenv'', k, v]) (env_pairs [kv]))"
proof -
  let ?P = "\<lambda>c. c \<noteq> CHR ''=''"
  let ?k = "takeWhile ?P kv"
  have full: "length ?k = length kv \<longleftrightarrow> CHR ''='' \<notin> set kv"
    by (auto simp: length_takeWhile_eq)
  have zero: "length ?k = 0 \<longleftrightarrow> kv = [] \<or> hd kv = CHR ''=''"
    by (cases kv) auto
  have "drop (length ?k + 1) kv = tl (dropWhile ?P kv)"
    by (simp add: dropWhile_eq_drop drop_Suc tl_drop)
  moreover have "take (length ?k) kv = ?k"
    by (rule takeWhile_eq_take [symmetric])
  ultimately show ?thesis
    unfolding setenv_args_def env_pairs_def Let_def full zero
    by (cases "CHR ''='' \<in> set kv") auto
qed

lemma env_loop_eq:
  "env_loop kvs args = args @ concat (map (\<lambda>(k, v). [''--setenv'', k, v]) (env_pairs kvs))"
proof (induction kvs arbitrary: args)
  case (Cons kv kvs)
  have "env_pairs (kv # kvs) = env_pairs [kv] @ env_pairs kvs" by (simp add: env_pairs_def)
  with Cons show ?case by (simp add: env_loop_def setenv_args_eq)
qed (simp add: env_pairs_def env_loop_def)

lemma bind_loop_ok:
  "\<forall>x \<in> set ps. IsAbs x \<Longrightarrow>
    bind_loop f flag ps args = Inr (args @ concat (map (\<lambda>x. [flag, x, x]) ps))"
  by (induction ps arbitrary: args) auto

lemma buildBwrapArgs_iff:
  "(\<exists>args. buildBwrapArgs p cmd = Inr args) \<longleftrightarrow> policy_ok p"
  by (auto simp: buildBwrapArgs_def bind_loop_eq policy_ok_def find_None_iff find_Some_iff
      split: option.splits)

lemma buildBwrapArgs_eq:
  assumes "policy_ok p"
  shows "buildBwrapArgs p cmd = Inr (concat (intended_options p cmd) @ [''--'', cmdPath cmd]
    @ tl (cmdArgs cmd))"
  using assms
  by (auto simp: buildBwrapArgs_def bind_loop_ok policy_ok_def intended_options_def base_args_def
      env_loop_eq)

text \<open>Reading back a list of options each of the right length.\<close>

definition well_formed_option :: "bytes list \<Rightarrow> bool" where
  "well_formed_option opt \<longleftrightarrow>
    opt \<noteq> [] \<and> hd opt \<noteq> ''--'' \<and> option_arity (hd opt) = Some (length (tl opt))"

lemma read_bwrap_options:
  "\<forall>opt \<in> set os. well_formed_option opt \<Longrightarrow> read_bwrap (concat os @ ''--'' # prog) = Some (os, prog)"
proof (induction os)
  case Nil
  show ?case by (simp add: read_bwrap.simps(2))
next
  case (Cons opt os)
  then obtain a as where opt: "opt = a # as" "a \<noteq> ''--''" "option_arity a = Some (length as)"
    by (cases opt) (auto simp: well_formed_option_def)
  with Cons show ?case by (simp add: read_bwrap.simps(2))
qed

lemma intended_well_formed: "\<forall>opt \<in> set (intended_options p cmd). well_formed_option opt"
  by (auto simp: intended_options_def well_formed_option_def option_arity_def)

lemma buildBwrapArgs_read:
  "buildBwrapArgs p cmd = Inr args \<Longrightarrow>
    read_bwrap args = Some (intended_options p cmd, cmdPath cmd # tl (cmdArgs cmd))"
  using buildBwrapArgs_iff [of p cmd]
  by (auto simp: buildBwrapArgs_eq read_bwrap_options [OF intended_well_formed])

text \<open>C16. The sandbox is what the policy says: the command line is built exactly when the network
  mode is known and every bind path is absolute, and bubblewrap reads it as the fixed namespaces
  and a cleared environment, the network cut off exactly under \<^verbatim>\<open>none\<close>, the policy's
  binds, the named environment entries, and the backing command after \<^verbatim>\<open>--\<close>: no
  path, variable or argument can pass for an option.\<close>

theorem bwrap_reads_policy:
  "(case buildBwrapArgs p cmd of
      Inl e \<Rightarrow> \<not> policy_ok p
    | Inr args \<Rightarrow> policy_ok p \<and>
        read_bwrap args = Some (intended_options p cmd, cmdPath cmd # tl (cmdArgs cmd)))"
proof (cases "policy_ok p")
  case True
  then show ?thesis
    by (simp add: buildBwrapArgs_eq read_bwrap_options [OF intended_well_formed])
next
  case False
  with buildBwrapArgs_iff [of p cmd] show ?thesis by (cases "buildBwrapArgs p cmd") auto
qed

text \<open>Containment is opt-out only: unless the policy disables the sandbox, wrapping either
  fails or yields bubblewrap itself as the program, clearing the environment; and unless the
  policy drops the defaults, the system directories are bound read-only whatever else it adds.\<close>

theorem wrap_contains:
  assumes "WrapCommand look cmd policy = Inr wrapped" "\<not> spDisabled (resolveSandboxPolicy policy)"
  shows "\<exists>bwrap opts. look ''bwrap'' = Inr bwrap \<and> hd (cmdArgs wrapped) = bwrap
    \<and> read_bwrap (tl (cmdArgs wrapped)) = Some (opts, cmdPath cmd # tl (cmdArgs cmd))
    \<and> [''--clearenv''] \<in> set opts \<and> [''--unshare-pid''] \<in> set opts
    \<and> (\<not> spNoDefaults (resolveSandboxPolicy policy) \<longrightarrow>
         (\<forall>d \<in> set defaultROBinds. [''--ro-bind-try'', d, d] \<in> set opts))"
proof -
  let ?p = "resolveSandboxPolicy policy"
  from assms obtain bwrap args where b: "look ''bwrap'' = Inr bwrap"
    and args: "buildBwrapArgs ?p cmd = Inr args" and w: "wrapped = exec_Command look bwrap args"
    by (auto simp: WrapCommand_def Let_def split: option.splits sum.splits)
  have "read_bwrap args = Some (intended_options ?p cmd, cmdPath cmd # tl (cmdArgs cmd))"
    by (rule buildBwrapArgs_read [OF args])
  moreover have "\<not> spNoDefaults ?p \<Longrightarrow> set defaultROBinds \<subseteq> set (spBindReadOnly ?p)"
    using assms(2) by (auto simp: resolveSandboxPolicy_def Let_def)
  ultimately show ?thesis
    using b w by (auto simp: exec_Command_def intended_options_def)
qed

end
