(* ===== verification/World.thy ===== *)
theory World
  imports Sessions Sandbox
begin

text \<open>
  What the server's operations reach outside themselves, and the record they leave of it. The
  \<^verbatim>\<open>Runner\<close> interface (\<^verbatim>\<open>runner.go\<close>), the clock, the random source,
  \<^verbatim>\<open>exec.LookPath\<close> and the text of the decoder's errors are the fields of \<open>Env\<close>,
  arguments of every definition that uses them. A runner's answer may depend on everything that
  happened so far and on the runner asked, so an \<open>Env\<close> can be any backing MCP, one that fails at
  times included. The \<open>World\<close> holds how often the clock and the random source were read, the
  number of runners built, and the trace of what was done with runners, newest first.
\<close>

section \<open>Events and the environment\<close>

type_synonym runner_id = nat

datatype event =
    EvBuild runner_id Cmd
  | EvStart runner_id
  | EvCall runner_id bytes "json option"
  | EvNotify runner_id bytes "json option"
  | EvStop runner_id

type_synonym trace = "event list"

fun ev_runner :: "event \<Rightarrow> runner_id" where
  "ev_runner (EvBuild r _) = r"
| "ev_runner (EvStart r) = r"
| "ev_runner (EvCall r _ _) = r"
| "ev_runner (EvNotify r _ _) = r"
| "ev_runner (EvStop r) = r"

record Env =
  envClock :: "nat \<Rightarrow> time"
  envRand :: "nat \<Rightarrow> bytes option"
  envLook :: "bytes \<Rightarrow> bytes + bytes"
  envStart :: "trace \<Rightarrow> runner_id \<Rightarrow> bytes + ServerCapabilities"
  envCall :: "trace \<Rightarrow> runner_id \<Rightarrow> bytes \<Rightarrow> json option \<Rightarrow> JSONRPCError + json option"
  envNotify :: "trace \<Rightarrow> runner_id \<Rightarrow> bytes \<Rightarrow> json option \<Rightarrow> bytes option"
  envStop :: "trace \<Rightarrow> runner_id \<Rightarrow> bytes option"
  envParseErr :: "bytes \<Rightarrow> bytes"
  envDecodeErr :: "json \<Rightarrow> bytes"
  envSandboxErr :: "sandbox_error \<Rightarrow> bytes"

record World =
  wClock :: nat
  wRand :: nat
  wNext :: runner_id
  wTrace :: trace

definition init_world :: World where
  "init_world = \<lparr>wClock = 0, wRand = 0, wNext = 0, wTrace = []\<rparr>"

section \<open>The primitive effects\<close>

definition Now :: "Env \<Rightarrow> World \<Rightarrow> time \<times> World" where
  "Now E w = (envClock E (wClock w), w\<lparr>wClock := wClock w + 1\<rparr>)"

definition rand_Read :: "Env \<Rightarrow> World \<Rightarrow> bytes option \<times> World" where
  "rand_Read E w = (envRand E (wRand w), w\<lparr>wRand := wRand w + 1\<rparr>)"

definition emit :: "event \<Rightarrow> World \<Rightarrow> World" where
  "emit e w = w\<lparr>wTrace := e # wTrace w\<rparr>"

definition runner_Start :: "Env \<Rightarrow> World \<Rightarrow> runner_id \<Rightarrow> (bytes + ServerCapabilities) \<times> World" where
  "runner_Start E w r = (envStart E (wTrace w) r, emit (EvStart r) w)"

definition runner_Call ::
    "Env \<Rightarrow> World \<Rightarrow> runner_id \<Rightarrow> bytes \<Rightarrow> json option \<Rightarrow> (JSONRPCError + json option) \<times> World" where
  "runner_Call E w r method params =
    (envCall E (wTrace w) r method params, emit (EvCall r method params) w)"

definition runner_Notify ::
    "Env \<Rightarrow> World \<Rightarrow> runner_id \<Rightarrow> bytes \<Rightarrow> json option \<Rightarrow> bytes option \<times> World" where
  "runner_Notify E w r method params =
    (envNotify E (wTrace w) r method params, emit (EvNotify r method params) w)"

definition runner_Stop :: "Env \<Rightarrow> World \<Rightarrow> runner_id \<Rightarrow> bytes option \<times> World" where
  "runner_Stop E w r = (envStop E (wTrace w) r, emit (EvStop r) w)"

lemma effects_world [simp]:
  "snd (Now E w) = w\<lparr>wClock := wClock w + 1\<rparr>"
  "snd (rand_Read E w) = w\<lparr>wRand := wRand w + 1\<rparr>"
  "snd (runner_Start E w r) = emit (EvStart r) w"
  "snd (runner_Call E w r m ps) = emit (EvCall r m ps) w"
  "snd (runner_Notify E w r m ps) = emit (EvNotify r m ps) w"
  "snd (runner_Stop E w r) = emit (EvStop r) w"
  by (simp_all add: Now_def rand_Read_def runner_Start_def runner_Call_def runner_Notify_def
      runner_Stop_def)

lemma emit_sel [simp]:
  "wTrace (emit e w) = e # wTrace w" "wClock (emit e w) = wClock w"
  "wRand (emit e w) = wRand w" "wNext (emit e w) = wNext w"
  by (simp_all add: emit_def)

section \<open>Building a backing MCP\<close>

text \<open>\<^verbatim>\<open>Backend\<close> and \<^verbatim>\<open>Backend.Build\<close> of \<^verbatim>\<open>runner_pool.go\<close>.\<close>

record Backend =
  beCommand :: bytes
  beArgs :: "bytes list"
  beEnv :: "bytes list option"
  beSandbox :: "SandboxPolicy option"
  beClientInfo :: Implementation

definition Build :: "Env \<Rightarrow> World \<Rightarrow> Backend \<Rightarrow> (bytes + runner_id) \<times> World" where
  "Build E w b =
    (let cmd = (exec_Command (envLook E) (beCommand b) (beArgs b))\<lparr>cmdEnv := beEnv b\<rparr> in
     case WrapCommand (envLook E) cmd (beSandbox b) of
       Inl e \<Rightarrow> (Inl (''sandbox wrap: '' @ envSandboxErr E e), w)
     | Inr wrapped \<Rightarrow>
         (Inr (wNext w), emit (EvBuild (wNext w) wrapped) (w\<lparr>wNext := wNext w + 1\<rparr>)))"

text \<open>Runner numbers are fresh: no event of the past names one not yet given out.\<close>

definition world_ok :: "World \<Rightarrow> bool" where
  "world_ok w \<longleftrightarrow> (\<forall>e \<in> set (wTrace w). ev_runner e < wNext w)"

lemma world_ok_init: "world_ok init_world"
  by (simp add: world_ok_def init_world_def)

lemma world_ok_emit: "world_ok w \<Longrightarrow> ev_runner e < wNext w \<Longrightarrow> world_ok (emit e w)"
  by (simp add: world_ok_def)

lemma Build_cases:
  obtains (err) msg where "Build E w b = (Inl msg, w)"
  | (ok) c where "Build E w b =
      (Inr (wNext w), emit (EvBuild (wNext w) c) (w\<lparr>wNext := wNext w + 1\<rparr>))"
proof (cases "fst (Build E w b)")
  case (Inl msg)
  then have "Build E w b = (Inl msg, w)"
    by (auto simp: Build_def Let_def split: sum.splits)
  then show thesis by (rule err)
next
  case (Inr r)
  then have "\<exists>c. Build E w b =
      (Inr (wNext w), emit (EvBuild (wNext w) c) (w\<lparr>wNext := wNext w + 1\<rparr>))"
    by (auto simp: Build_def Let_def split: sum.splits)
  then show thesis using ok by blast
qed

lemma Build_world:
  assumes "world_ok w"
  shows "world_ok (snd (Build E w b))" "wNext w \<le> wNext (snd (Build E w b))"
  using assms by (cases rule: Build_cases [of E w b]; force simp: world_ok_def)+

lemma build_contained:
  assumes "Build E w b = (Inr r, w')" "\<not> spDisabled (resolveSandboxPolicy (beSandbox b))"
  shows "\<exists>bwrap opts wrapped prog. envLook E ''bwrap'' = Inr bwrap
    \<and> wTrace w' = EvBuild r wrapped # wTrace w
    \<and> cmdArgs wrapped = bwrap # concat opts @ ''--'' # prog # beArgs b
    \<and> prog = cmdPath (exec_Command (envLook E) (beCommand b) (beArgs b))
    \<and> [''--clearenv''] \<in> set opts
    \<and> (\<forall>k v. [''--setenv'', k, v] \<in> set opts
         \<longleftrightarrow> (k, v) \<in> set (env_pairs (case beEnv b of None \<Rightarrow> [] | Some kvs \<Rightarrow> kvs)))"
proof -
  let ?p = "resolveSandboxPolicy (beSandbox b)"
  let ?cmd = "(exec_Command (envLook E) (beCommand b) (beArgs b))\<lparr>cmdEnv := beEnv b\<rparr>"
  from assms(1) obtain wrapped where wr: "WrapCommand (envLook E) ?cmd (beSandbox b) = Inr wrapped"
    and tr: "wTrace w' = EvBuild r wrapped # wTrace w"
    by (auto simp: Build_def Let_def split: sum.splits)
  from wr assms(2) obtain bwrap args where b: "envLook E ''bwrap'' = Inr bwrap"
    and args: "buildBwrapArgs ?p ?cmd = Inr args" and w: "wrapped = exec_Command (envLook E) bwrap args"
    by (auto simp: WrapCommand_def Let_def split: sum.splits)
  have ok: "policy_ok ?p" using args buildBwrapArgs_iff by blast
  with args have a: "args = concat (intended_options ?p ?cmd) @ [''--'', cmdPath ?cmd] @ beArgs b"
    by (simp add: buildBwrapArgs_eq) (simp add: exec_Command_def)
  have se: "[''--setenv'', k, v] \<in> set (intended_options ?p ?cmd)
      \<longleftrightarrow> (k, v) \<in> set (env_pairs (case beEnv b of None \<Rightarrow> [] | Some kvs \<Rightarrow> kvs))" for k v
    by (auto simp: intended_options_def)
  have ce: "[''--clearenv''] \<in> set (intended_options ?p ?cmd)"
    by (simp add: intended_options_def)
  show ?thesis
    by (intro exI [of _ bwrap] exI [of _ "intended_options ?p ?cmd"] exI [of _ wrapped]
        exI [of _ "cmdPath (exec_Command (envLook E) (beCommand b) (beArgs b))"] conjI allI)
      (use b tr se ce in \<open>auto simp: w a exec_Command_def [of _ bwrap]\<close>)
qed

text \<open>What the backing MCP is started as: unless its policy disables the sandbox, building a
  backend fails or yields a bubblewrap command whose program is the configured command and whose
  environment is exactly the configured one; the server's own environment never leaks into it.\<close>

theorem build_is_contained:
  assumes "Build E w b = (Inr r, w')" "\<not> spDisabled (resolveSandboxPolicy (beSandbox b))"
  shows "\<exists>bwrap opts wrapped prog. envLook E ''bwrap'' = Inr bwrap
    \<and> wTrace w' = EvBuild r wrapped # wTrace w
    \<and> cmdArgs wrapped = bwrap # concat opts @ ''--'' # prog # beArgs b
    \<and> prog = cmdPath (exec_Command (envLook E) (beCommand b) (beArgs b))
    \<and> [''--clearenv''] \<in> set opts
    \<and> (\<forall>k v. [''--setenv'', k, v] \<in> set opts
         \<longleftrightarrow> (k, v) \<in> set (env_pairs (case beEnv b of None \<Rightarrow> [] | Some kvs \<Rightarrow> kvs)))"
  by (rule build_contained [OF assms])

end
