(* ===== verification/StdioRunner.thy ===== *)
theory StdioRunner
  imports World "HOL-Library.Word"
begin

text \<open>
  \<^verbatim>\<open>stdio_runner.go\<close>: the bridge to one backing process, as a machine of
  interleaved steps. The goroutines are the callers of the four methods and the read loop; each
  step is what one of them does between two points where another can run, and an action names
  whose step it is. The process itself is the environment: what it writes, whether it closes its
  output or exits, whether a pipe or a write fails, whether a caller's context ends and whether the
  timer of \<^verbatim>\<open>Stop\<close> fires are chosen by the action. A channel is a cell of a store,
  named by the number of its allocation, so that the aliasing between the table of pending calls,
  the read loop and the waiting caller is explicit. A line the runner writes or keeps is its parsed
  JSON value; the bytes the process writes are split into lines and parsed as the code does.
\<close>

section \<open>State\<close>

definition stdioMaxLine :: nat where
  "stdioMaxLine = 16 * 2 ^ 20"

definition stdioStopGrace :: duration where
  "stdioStopGrace = 5 * Second"

type_synonym call_id = "64 word"
type_synonym chan = nat

datatype pipe = Open | Shut
datatype proc = NotStarted | Running | Exited
datatype reader = NoReader | Reading | Sending chan json | Drained | Finished

type_synonym call_result = "JSONRPCError + json option"

text \<open>
  Where a method's goroutine stands. \<open>CallLeave\<close> is the deferred deletion, on every way out of
  \<^verbatim>\<open>Call\<close> once the identifier is registered.
\<close>

datatype pc =
    CallBegin bytes "json option"
  | CallWrite call_id chan JSONRPCMessage
  | CallWait call_id chan
  | CallLeave call_id chan call_result
  | CallReturn call_result
  | NotifyBegin bytes "json option"
  | NotifyWrite JSONRPCMessage
  | NotifyReturn "bytes option"
  | StopBegin
  | StopClose
  | StopDrain
  | StopWait
  | StopKilled
  | StopReturn "bytes option"
  | StartStdin
  | StartStdout
  | StartStderr
  | StartSpawn
  | StartReturn "bytes + ServerCapabilities"

text \<open>\<^verbatim>\<open>Start\<close> calls the other methods; the frame says what it goes on with.\<close>

datatype frame = Direct | StartCall | StartNotify ServerCapabilities | StartFail bytes

record StdioRunner =
  srCmd :: Cmd
  srClientInfo :: Implementation
  srStdin :: "pipe option"
  srNextID :: call_id
  srPending :: "(call_id \<times> chan) list"
  srStopped :: bool
  srReadDone :: bool
  srChans :: "chan \<Rightarrow> json option"
  srNextChan :: chan
  srReader :: reader
  srWritten :: "json list"
  srOut :: bytes
  srEOF :: bool
  srProc :: proc
  srKilled :: bool
  srThreads :: "nat \<Rightarrow> (pc \<times> frame) option"

definition NewStdioRunner :: "Cmd \<Rightarrow> Implementation \<Rightarrow> StdioRunner" where
  "NewStdioRunner cmd info =
    \<lparr>srCmd = cmd, srClientInfo = info, srStdin = None, srNextID = 0, srPending = [],
     srStopped = False, srReadDone = False, srChans = (\<lambda>_. None), srNextChan = 0,
     srReader = NoReader, srWritten = [], srOut = [], srEOF = False, srProc = NotStarted,
     srKilled = False, srThreads = (\<lambda>_. None)\<rparr>"

section \<open>Calls and notifications\<close>

text \<open>What the environment decides in a step.\<close>

datatype outcome = Go | Fails bytes | Cancelled bytes | TimedOut

definition internal_error :: "bytes \<Rightarrow> call_result" where
  "internal_error text = Inl \<lparr>errCode = ErrCodeInternalError, errMessage = text, errData = None\<rparr>"

text \<open>
  \<^verbatim>\<open>writeLine\<close>: the write happens under the write lock, so it is one step; a closed
  pipe only fails.
\<close>

definition writeLine ::
    "StdioRunner \<Rightarrow> JSONRPCMessage \<Rightarrow> outcome \<Rightarrow> (bytes option \<times> StdioRunner) option" where
  "writeLine r msg oc =
    (case srStdin r of
       None \<Rightarrow> (if oc = Go then Some (Some ''runner not started'', r) else None)
     | Some p \<Rightarrow>
       (case oc of
          Go \<Rightarrow> (if p = Open then Some (None, r\<lparr>srWritten := srWritten r @ [marshal_message msg]\<rparr>)
                 else None)
        | Fails e \<Rightarrow> Some (Some e, r)
        | _ \<Rightarrow> None))"

text \<open>The start of \<^verbatim>\<open>Call\<close>, under the lock: a new identifier and its channel.\<close>

definition call_begin :: "StdioRunner \<Rightarrow> bytes \<Rightarrow> json option \<Rightarrow> pc \<times> StdioRunner" where
  "call_begin r method params =
    (if srStopped r then (CallReturn (internal_error ''runner stopped''), r)
     else
       let i = srNextID r + 1; ch = srNextChan r;
           r = r\<lparr>srNextID := i, srNextChan := ch + 1, srChans := (srChans r)(ch := None),
             srPending := map_set i ch (srPending r)\<rparr>;
           msg = zero_message\<lparr>msgJSONRPC := jsonrpcVersion, msgID := Some (JNum (FormatInt (sint i))),
             msgMethod := method, msgParams := params\<rparr> in
       (CallWrite i ch msg, r))"

definition call_leave :: "StdioRunner \<Rightarrow> call_id \<Rightarrow> StdioRunner" where
  "call_leave r i = r\<lparr>srPending := map_del i (srPending r)\<rparr>"

text \<open>What a caller makes of the line it received.\<close>

definition decode_response :: "json \<Rightarrow> call_result" where
  "decode_response v =
    (let (resp, ok) = unmarshal_message v in
     if \<not> ok then internal_error ''malformed response from backing mcp''
     else case msgError resp of Some e \<Rightarrow> Inl e | None \<Rightarrow> Inr (msgResult resp))"

fun Call :: "StdioRunner \<Rightarrow> pc \<Rightarrow> outcome \<Rightarrow> (pc \<times> StdioRunner) option" where
  "Call r (CallBegin method params) oc = (if oc = Go then Some (call_begin r method params) else None)"
| "Call r (CallWrite i ch msg) oc =
    (case writeLine r msg oc of
       None \<Rightarrow> None
     | Some (Some e, r) \<Rightarrow> Some (CallLeave i ch (internal_error e), r)
     | Some (None, r) \<Rightarrow> Some (CallWait i ch, r))"
| "Call r (CallWait i ch) oc =
    (case oc of
       Go \<Rightarrow>
         (case srChans r ch of
            None \<Rightarrow> None
          | Some v \<Rightarrow>
              Some (CallLeave i ch (decode_response v), r\<lparr>srChans := (srChans r)(ch := None)\<rparr>))
     | Cancelled e \<Rightarrow> Some (CallLeave i ch (internal_error e), r)
     | _ \<Rightarrow> None)"
| "Call r (CallLeave i ch res) oc =
    (if oc = Go then Some (CallReturn res, call_leave r i) else None)"
| "Call r _ oc = None"

fun Notify :: "StdioRunner \<Rightarrow> pc \<Rightarrow> outcome \<Rightarrow> (pc \<times> StdioRunner) option" where
  "Notify r (NotifyBegin method params) oc =
    (if oc \<noteq> Go then None
     else if srStopped r then Some (NotifyReturn (Some ''runner stopped''), r)
     else Some (NotifyWrite (zero_message\<lparr>msgJSONRPC := jsonrpcVersion, msgMethod := method,
       msgParams := params\<rparr>), r))"
| "Notify r (NotifyWrite msg) oc =
    (case writeLine r msg oc of None \<Rightarrow> None | Some (e, r) \<Rightarrow> Some (NotifyReturn e, r))"
| "Notify r _ oc = None"

section \<open>Stop\<close>

text \<open>
  A process that was never started cannot be waited for: \<^verbatim>\<open>Wait\<close> returns at once.
\<close>

fun Stop :: "StdioRunner \<Rightarrow> pc \<Rightarrow> outcome \<Rightarrow> (pc \<times> StdioRunner) option" where
  "Stop r StopBegin oc =
    (if oc \<noteq> Go then None
     else if srStopped r then Some (StopReturn None, r)
     else Some (StopClose, r\<lparr>srStopped := True\<rparr>))"
| "Stop r StopClose oc =
    (if oc = Go then Some (StopDrain, r\<lparr>srStdin := map_option (\<lambda>_. Shut) (srStdin r)\<rparr>) else None)"
| "Stop r StopDrain oc = (if oc = Go \<and> srReadDone r then Some (StopWait, r) else None)"
| "Stop r StopWait oc =
    (case oc of
       Go \<Rightarrow> (if srProc r \<noteq> Running then Some (StopReturn None, r) else None)
     | TimedOut \<Rightarrow> Some (StopKilled, r\<lparr>srKilled := srKilled r \<or> srProc r \<noteq> NotStarted\<rparr>)
     | _ \<Rightarrow> None)"
| "Stop r StopKilled oc =
    (if oc = Go \<and> srProc r \<noteq> Running
     then Some (StopReturn (Some ''backing mcp did not exit in time''), r) else None)"
| "Stop r _ oc = None"

section \<open>Start\<close>

text \<open>
  The pipes and the process. The read loop starts with the process; a start that fails before
  returns without one.
\<close>

definition default_env :: "Cmd \<Rightarrow> Cmd" where
  "default_env cmd = cmd\<lparr>cmdEnv := Some (case cmdEnv cmd of None \<Rightarrow> [] | Some e \<Rightarrow> e)\<rparr>"

definition initialize_params :: "StdioRunner \<Rightarrow> json" where
  "initialize_params r =
    marshal_params \<lparr>ipProtocolVersion = ''2025-11-25'', ipCapabilities = [],
      ipClientInfo = srClientInfo r\<rparr>"

fun Start :: "StdioRunner \<Rightarrow> pc \<Rightarrow> outcome \<Rightarrow> (pc \<times> StdioRunner) option" where
  "Start r StartStdin oc =
    (let r = r\<lparr>srCmd := default_env (srCmd r)\<rparr> in
     case oc of
       Go \<Rightarrow> Some (StartStdout, r)
     | Fails e \<Rightarrow> Some (StartReturn (Inl (''stdin pipe: '' @ e)), r)
     | _ \<Rightarrow> None)"
| "Start r StartStdout oc =
    (case oc of
       Go \<Rightarrow> Some (StartStderr, r\<lparr>srStdin := Some Open\<rparr>)
     | Fails e \<Rightarrow> Some (StartReturn (Inl (''stdout pipe: '' @ e)), r)
     | _ \<Rightarrow> None)"
| "Start r StartStderr oc =
    (case oc of
       Go \<Rightarrow> Some (StartSpawn, r)
     | Fails e \<Rightarrow> Some (StartReturn (Inl (''stderr pipe: '' @ e)), r)
     | _ \<Rightarrow> None)"
| "Start r StartSpawn oc =
    (case oc of
       Go \<Rightarrow> Some (CallBegin ''initialize'' (Some (initialize_params r)),
               r\<lparr>srProc := Running, srReader := Reading\<rparr>)
     | Fails e \<Rightarrow> Some (StartReturn (Inl (''start: '' @ e)), r\<lparr>srStdin := map_option (\<lambda>_. Shut) (srStdin r)\<rparr>)
     | _ \<Rightarrow> None)"
| "Start r _ oc = None"

text \<open>
  What \<^verbatim>\<open>Start\<close> does when a method it called returns. The text of the decoder's
  error is a parameter.
\<close>

fun resume :: "(json option \<Rightarrow> bytes) \<Rightarrow> pc \<Rightarrow> frame \<Rightarrow> pc \<times> frame" where
  "resume derr (CallReturn (Inl e)) StartCall =
    (StopBegin, StartFail (''backing mcp initialize failed: '' @ errMessage e))"
| "resume derr (CallReturn (Inr raw)) StartCall =
    (case map_option unmarshal_result raw of
       Some (result, True) \<Rightarrow>
         (NotifyBegin ''notifications/initialized'' None, StartNotify (irCapabilities result))
     | _ \<Rightarrow> (StopBegin, StartFail (''decode initialize result: '' @ derr raw)))"
| "resume derr (NotifyReturn (Some e)) (StartNotify caps) =
    (StopBegin, StartFail (''notifications/initialized: '' @ e))"
| "resume derr (NotifyReturn None) (StartNotify caps) = (StartReturn (Inr caps), Direct)"
| "resume derr (StopReturn _) (StartFail e) = (StartReturn (Inl e), Direct)"
| "resume derr p f = (p, f)"

section \<open>The read loop\<close>

text \<open>
  \<^verbatim>\<open>bufio.Scanner\<close> with its limit: the next line without its end, or what else there
  is to say about the bytes that can be read.
\<close>

datatype token = Token bytes bytes | TooLong | AtEOF | More

definition dropCR :: "bytes \<Rightarrow> bytes" where
  "dropCR l = (if l \<noteq> [] \<and> last l = CHR 0x0D then butlast l else l)"

definition scan_line :: "nat \<Rightarrow> bool \<Rightarrow> bytes \<Rightarrow> token" where
  "scan_line maxLine eof data =
    (let l = takeWhile (\<lambda>c. c \<noteq> CHR 0x0A) data in
     if length l < length data \<and> length l < maxLine
     then Token (dropCR l) (drop (length l + 1) data)
     else if maxLine \<le> length data then TooLong
     else if \<not> eof then More
     else if data = [] then AtEOF
     else Token (dropCR data) [])"

text \<open>The identifier of a response, as the loop finds it.\<close>

fun unmarshal_head :: "json \<Rightarrow> json option \<times> bool" where
  "unmarshal_head (JObj ms) =
    (fold (\<lambda>(k, v) i. if match_field [''id''] k = None then i else Some v) ms None, True)"
| "unmarshal_head JNull = (None, True)"
| "unmarshal_head _ = (None, False)"

definition response_id :: "json \<Rightarrow> int option" where
  "response_id v =
    (let (h, ok) = unmarshal_head v in
     if \<not> ok \<or> h = None \<or> h = Some JNull then None
     else let (i, ok) = unmarshal_int (the h) 0 in if ok then Some i else None)"

definition read_line :: "StdioRunner \<Rightarrow> bytes \<Rightarrow> StdioRunner" where
  "read_line r line =
    (case json_parse line of
       None \<Rightarrow> r
     | Some v \<Rightarrow>
       (case response_id v of
          None \<Rightarrow> r
        | Some i \<Rightarrow>
          (case map_of (srPending r) (word_of_int i) of
             None \<Rightarrow> r
           | Some ch \<Rightarrow> r\<lparr>srReader := Sending ch v\<rparr>)))"

definition closed_response :: "call_id \<Rightarrow> json" where
  "closed_response i =
    marshal_message (NewErrorResponse (Some (JNum (FormatInt (sint i)))) ErrCodeInternalError
      ''backing mcp closed'' None)"

definition drain_one :: "call_id \<times> chan \<Rightarrow> (chan \<Rightarrow> json option) \<Rightarrow> chan \<Rightarrow> json option" where
  "drain_one ic cs =
    (case ic of (i, ch) \<Rightarrow> if cs ch = None then cs(ch := Some (closed_response i)) else cs)"

definition drain :: "StdioRunner \<Rightarrow> StdioRunner" where
  "drain r = r\<lparr>srChans := fold drain_one (srPending r) (srChans r), srReader := Drained\<rparr>"

text \<open>
  One step of the loop. A send blocks while the channel's one place is taken; the end of the loop
  drains the pending calls under the lock and then closes \<^verbatim>\<open>readDone\<close>.
\<close>

definition readLoop :: "StdioRunner \<Rightarrow> StdioRunner option" where
  "readLoop r =
    (case srReader r of
       Reading \<Rightarrow>
         (case scan_line stdioMaxLine (srEOF r) (srOut r) of
            Token l rest \<Rightarrow> Some (read_line (r\<lparr>srOut := rest\<rparr>) l)
          | TooLong \<Rightarrow> Some (drain r)
          | AtEOF \<Rightarrow> Some (drain r)
          | More \<Rightarrow> None)
     | Sending ch v \<Rightarrow>
         (if srChans r ch = None
          then Some (r\<lparr>srChans := (srChans r)(ch := Some v), srReader := Reading\<rparr>) else None)
     | Drained \<Rightarrow> Some (r\<lparr>srReadDone := True, srReader := Finished\<rparr>)
     | _ \<Rightarrow> None)"

section \<open>The machine\<close>

datatype invocation = DoCall bytes "json option" | DoNotify bytes "json option" | DoStop | DoStart

fun entry :: "invocation \<Rightarrow> pc \<times> frame" where
  "entry (DoCall m ps) = (CallBegin m ps, Direct)"
| "entry (DoNotify m ps) = (NotifyBegin m ps, Direct)"
| "entry DoStop = (StopBegin, Direct)"
| "entry DoStart = (StartStdin, StartCall)"

text \<open>
  \<open>Invoke\<close> starts a goroutine on a method, \<open>Step\<close> is its next step, \<open>ReadLoop\<close> one of the read
  loop; the others are the process's.
\<close>

datatype action =
    Invoke nat invocation
  | Step nat outcome
  | ReadLoop
  | Writes bytes
  | ClosesOut
  | Exits

definition method_step :: "StdioRunner \<Rightarrow> pc \<Rightarrow> outcome \<Rightarrow> (pc \<times> StdioRunner) option" where
  "method_step r p oc =
    (case Call r p oc of Some x \<Rightarrow> Some x | None \<Rightarrow>
    (case Notify r p oc of Some x \<Rightarrow> Some x | None \<Rightarrow>
    (case Stop r p oc of Some x \<Rightarrow> Some x | None \<Rightarrow> Start r p oc)))"

fun sr_step :: "(json option \<Rightarrow> bytes) \<Rightarrow> action \<Rightarrow> StdioRunner \<Rightarrow> StdioRunner option" where
  "sr_step derr (Invoke t m) r =
    (if srThreads r t = None then Some (r\<lparr>srThreads := (srThreads r)(t \<mapsto> entry m)\<rparr>) else None)"
| "sr_step derr (Step t oc) r =
    (case srThreads r t of
       None \<Rightarrow> None
     | Some (p, f) \<Rightarrow>
       (case method_step r p oc of
          None \<Rightarrow> None
        | Some (p', r') \<Rightarrow> Some (r'\<lparr>srThreads := (srThreads r')(t \<mapsto> resume derr p' f)\<rparr>)))"
| "sr_step derr ReadLoop r = readLoop r"
| "sr_step derr (Writes bs) r =
    (if srProc r \<noteq> NotStarted \<and> \<not> srEOF r then Some (r\<lparr>srOut := srOut r @ bs\<rparr>) else None)"
| "sr_step derr ClosesOut r = (if srProc r \<noteq> NotStarted then Some (r\<lparr>srEOF := True\<rparr>) else None)"
| "sr_step derr Exits r = (if srProc r = Running then Some (r\<lparr>srProc := Exited\<rparr>) else None)"

fun sr_exec :: "(json option \<Rightarrow> bytes) \<Rightarrow> action list \<Rightarrow> StdioRunner \<Rightarrow> StdioRunner option" where
  "sr_exec derr [] r = Some r"
| "sr_exec derr (a # xs) r = (case sr_step derr a r of None \<Rightarrow> None | Some r' \<Rightarrow> sr_exec derr xs r')"

lemma sr_exec_append:
  "sr_exec derr (xs @ bs) r = (case sr_exec derr xs r of None \<Rightarrow> None | Some r' \<Rightarrow> sr_exec derr bs r')"
  by (induction xs arbitrary: r) (simp_all split: option.split)

text \<open>An invariant of the steps is an invariant of the runs.\<close>

lemma sr_exec_invariant:
  assumes "P r" "sr_exec derr xs r = Some r'"
    and "\<And>a s s'. P s \<Longrightarrow> sr_step derr a s = Some s' \<Longrightarrow> a \<in> set xs \<Longrightarrow> P s'"
  shows "P r'"
  using assms
proof (induction xs arbitrary: r)
  case (Cons a xs)
  from Cons.prems(2) obtain s where s: "sr_step derr a r = Some s" "sr_exec derr xs s = Some r'"
    by (auto split: option.splits)
  from Cons.prems(1,3) s(1) have "P s" by (meson list.set_intros(1))
  then show ?case using Cons.IH [OF _ s(2)] Cons.prems(3) by (meson list.set_intros(2))
qed simp


end
