(* ===== verification/StdioDemux.thy ===== *)
theory StdioDemux
  imports StdioRunner
begin

text \<open>
  The stdio runner as a demultiplexer: the table of pending calls, the channels and the lines under
  way fit together in every state a run reaches (\<open>demux_ok\<close>, shown for each of the ways a step can
  change it, then for the steps), the identifiers on the wire are unique (\<open>wire_ok\<close>), and the end
  of the output reaches every caller.
\<close>

section \<open>The demultiplexer\<close>

text \<open>
  The calls in flight, each with its identifier and channel; and the lines on their way to a
  channel's reader.
\<close>

fun call_of :: "pc \<Rightarrow> (call_id \<times> chan) option" where
  "call_of (CallWrite i ch _) = Some (i, ch)"
| "call_of (CallWait i ch) = Some (i, ch)"
| "call_of (CallLeave i ch _) = Some (i, ch)"
| "call_of _ = None"

definition in_flight :: "StdioRunner \<Rightarrow> nat \<Rightarrow> (call_id \<times> chan) option" where
  "in_flight r t = Option.bind (srThreads r t) (\<lambda>pf. call_of (fst pf))"

definition mail :: "(chan \<Rightarrow> json option) \<Rightarrow> reader \<Rightarrow> chan \<Rightarrow> json \<Rightarrow> bool" where
  "mail cs rd c v \<longleftrightarrow> cs c = Some v \<or> rd = Sending c v"

definition demux_ok ::
    "(nat \<Rightarrow> (call_id \<times> chan) option) \<Rightarrow> (call_id \<times> chan) list \<Rightarrow> call_id \<Rightarrow> chan
      \<Rightarrow> (chan \<Rightarrow> json option) \<Rightarrow> reader \<Rightarrow> bool" where
  "demux_ok fl pending last_id next_ch cs rd \<longleftrightarrow>
    (\<forall>t i c. fl t = Some (i, c) \<longrightarrow> map_of pending i = Some c \<and> c < next_ch \<and> 0 < i \<and> i \<le> last_id)
    \<and> (\<forall>t t' i i' c. fl t = Some (i, c) \<longrightarrow> fl t' = Some (i', c) \<longrightarrow> t = t')
    \<and> (\<forall>i c. map_of pending i = Some c \<longrightarrow> (\<exists>t. fl t = Some (i, c)))
    \<and> (\<forall>t i c v. fl t = Some (i, c) \<longrightarrow> mail cs rd c v \<longrightarrow> response_id v = Some (sint i))
    \<and> (\<forall>c v. mail cs rd c v \<longrightarrow> c < next_ch)
    \<and> wf_map pending"

lemma demux_mono:
  assumes "demux_ok fl pending last_id next_ch cs rd" "\<And>c v. mail cs' rd' c v \<Longrightarrow> mail cs rd c v"
  shows "demux_ok fl pending last_id next_ch cs' rd'"
  using assms unfolding demux_ok_def by blast

lemma demux_register:
  assumes ok: "demux_ok fl pending last_id next_ch cs rd" and room: "last_id \<noteq> - 1" and t: "fl t = None"
  shows "demux_ok (fl(t \<mapsto> (last_id + 1, next_ch))) (map_set (last_id + 1) next_ch pending)
    (last_id + 1) (next_ch + 1) (cs(next_ch := None)) rd"
proof -
  have "last_id + 1 \<noteq> 0" using room by (simp add: eq_neg_iff_add_eq_0)
  then have "unat (last_id + 1) = Suc (unat last_id)" by (metis add.commute unatSuc)
  then have less: "last_id < last_id + 1" by (simp add: word_less_nat_alt)
  have pos: "0 < last_id + 1"
    using \<open>last_id + 1 \<noteq> 0\<close> by (simp add: word_greater_zero_iff)
  have fresh: "i < last_id + 1" "c < next_ch" if "fl t' = Some (i, c)" for t' i c
    using ok that less unfolding demux_ok_def by (metis order_le_less_trans)+
  have no_mail: "\<not> mail (cs(next_ch := None)) rd next_ch v" for v
    using ok unfolding demux_ok_def mail_def by auto
  have mail: "mail cs rd c v" if "mail (cs(next_ch := None)) rd c v" for c v
    using that by (auto simp: mail_def split: if_splits)
  have prev: "\<exists>t'. t' \<noteq> t \<and> fl t' = Some (i, c)" if "map_of pending i = Some c" for i c
    using ok t that unfolding demux_ok_def by (metis option.distinct(1))
  show ?thesis
    unfolding demux_ok_def
  proof (intro conjI allI impI)
    fix t' i c assume a: "(fl(t \<mapsto> (last_id + 1, next_ch))) t' = Some (i, c)"
    show "map_of (map_set (last_id + 1) next_ch pending) i = Some c" "c < next_ch + 1" "0 < i"
      "i \<le> last_id + 1"
      using a ok fresh [of t'] less pos unfolding demux_ok_def
      by (fastforce split: if_splits)+
    fix t2 i2 assume "(fl(t \<mapsto> (last_id + 1, next_ch))) t2 = Some (i2, c)"
    with a fresh ok show "t' = t2" unfolding demux_ok_def by (auto split: if_splits)
  next
    fix i c assume "map_of (map_set (last_id + 1) next_ch pending) i = Some c"
    with prev show "\<exists>t'. (fl(t \<mapsto> (last_id + 1, next_ch))) t' = Some (i, c)"
      by (auto split: if_splits)
  next
    fix t' i c v
    assume "(fl(t \<mapsto> (last_id + 1, next_ch))) t' = Some (i, c)" "mail (cs(next_ch := None)) rd c v"
    with ok mail no_mail show "response_id v = Some (sint i)"
      unfolding demux_ok_def by (auto split: if_splits)
  next
    fix c v assume "mail (cs(next_ch := None)) rd c v"
    with ok mail show "c < next_ch + 1" unfolding demux_ok_def by (meson less_add_one order_less_trans)
  next
    show "wf_map (map_set (last_id + 1) next_ch pending)" using ok by (simp add: demux_ok_def)
  qed
qed

lemma demux_leave:
  assumes ok: "demux_ok fl pending last_id next_ch cs rd" and t: "fl t = Some (i, c)"
  shows "demux_ok (fl(t := None)) (map_del i pending) last_id next_ch cs rd"
proof -
  have other: "i' \<noteq> i" if "fl t' = Some (i', c')" "t' \<noteq> t" for t' i' c'
    using ok t that unfolding demux_ok_def by (metis option.inject)
  have prev: "\<exists>t'. t' \<noteq> t \<and> fl t' = Some (i', c')" if "map_of pending i' = Some c'" "i' \<noteq> i" for i' c'
    using ok t that unfolding demux_ok_def by (metis Pair_inject option.inject)
  show ?thesis
    unfolding demux_ok_def
  proof (intro conjI allI impI)
    fix i' c' assume "map_of (map_del i pending) i' = Some c'"
    with prev show "\<exists>t'. (fl(t := None)) t' = Some (i', c')"
      by (auto split: if_splits)
  qed (use ok other in \<open>auto simp: demux_ok_def split: if_splits\<close>)
qed

lemma demux_lookup:
  assumes ok: "demux_ok fl pending last_id next_ch cs rd" and rd: "rd = Reading" 
    and v: "response_id v = Some k" "map_of pending (word_of_int k) = Some c"
    and k: "- (2 ^ 63) \<le> k" "k < 2 ^ 63"
  shows "demux_ok fl pending last_id next_ch cs (Sending c v)"
proof -
  obtain t where t: "fl t = Some (word_of_int k, c)" using ok v(2) unfolding demux_ok_def by blast
  have own: "response_id v = Some (sint i)" if "fl t' = Some (i, c)" for t' i
  proof -
    have "t' = t" using ok t that unfolding demux_ok_def by blast
    with t that have "i = word_of_int k" by simp
    with v(1) k show ?thesis by (simp add: sint_word_of_int_64)
  qed
  have c: "c < next_ch" using ok t unfolding demux_ok_def by blast
  have mail: "mail cs rd c' v' \<or> c' = c \<and> v' = v" if "mail cs (Sending c v) c' v'" for c' v'
    using rd that by (auto simp: mail_def)
  show ?thesis
    unfolding demux_ok_def
  proof (intro conjI allI impI)
    fix t' i c' v' assume "fl t' = Some (i, c')" "mail cs (Sending c v) c' v'"
    with ok own mail [of c' v'] show "response_id v' = Some (sint i)" unfolding demux_ok_def by blast
  next
    fix c' v' assume "mail cs (Sending c v) c' v'"
    with ok c mail [of c' v'] show "c' < next_ch" unfolding demux_ok_def by blast
  qed (use ok in \<open>auto simp: demux_ok_def\<close>)
qed

text \<open>What the drain puts into a channel carries the identifier the channel is registered under.\<close>

lemma response_id_closed: "response_id (closed_response i) = Some (sint i)"
proof -
  have "match_field [''id''] ''jsonrpc'' = None" "match_field [''id''] ''error'' = None"
    "match_field [''id''] ''id'' = Some ''id''" by code_simp+
  moreover have "- (2 ^ 63) \<le> sint i" "sint i < 2 ^ 63"
    using sint_range_size [of i] by (simp_all add: word_size)
  ultimately show ?thesis
    by (simp add: closed_response_def marshal_message_def NewErrorResponse_def Let_def
        zero_message_def response_id_def parse_FormatInt)
qed

lemma drain_cell:
  assumes "fold drain_one ps cs c = Some v"
  shows "cs c = Some v \<or> (\<exists>i. (i, c) \<in> set ps \<and> v = closed_response i)"
  using assms
proof (induction ps arbitrary: cs)
  case (Cons ic ps)
  from Cons.IH [of "drain_one ic cs"] Cons.prems show ?case
    by (auto simp: drain_one_def split: if_splits prod.splits)
qed simp

lemma drain_fills: "(i, c) \<in> set ps \<Longrightarrow> fold drain_one ps cs c \<noteq> None"
proof (induction ps arbitrary: cs)
  case (Cons ic ps)
  have keep: "cs c \<noteq> None \<Longrightarrow> fold drain_one ps cs c \<noteq> None" for ps and cs :: "chan \<Rightarrow> json option"
    by (induction ps arbitrary: cs) (auto simp: drain_one_def split: prod.splits)
  show ?case
  proof (cases "(i, c) \<in> set ps")
    case True
    then show ?thesis using Cons.IH by simp
  next
    case False
    with Cons.prems have "ic = (i, c)" by auto
    then have "drain_one ic cs c \<noteq> None" by (simp add: drain_one_def)
    then show ?thesis using keep [of "drain_one ic cs" ps] by simp
  qed
qed simp

lemma demux_drain:
  assumes ok: "demux_ok fl pending last_id next_ch cs rd"
  shows "demux_ok fl pending last_id next_ch (fold drain_one pending cs) Drained"
proof -
  have reg: "map_of pending i = Some c" if "(i, c) \<in> set pending" for i c
    using ok that unfolding demux_ok_def wf_map_def by auto
  have new: "mail cs rd c v \<or> (\<exists>i t. fl t = Some (i, c) \<and> v = closed_response i)"
    if "mail (fold drain_one pending cs) Drained c v" for c v
  proof -
    from that have "fold drain_one pending cs c = Some v" by (simp add: mail_def)
    from drain_cell [OF this] reg ok show ?thesis unfolding demux_ok_def mail_def by blast
  qed
  show ?thesis
    unfolding demux_ok_def
  proof (intro conjI allI impI)
    fix t i c v assume "fl t = Some (i, c)" "mail (fold drain_one pending cs) Drained c v"
    with new [of c v] ok response_id_closed show "response_id v = Some (sint i)"
      unfolding demux_ok_def by (metis Pair_inject option.inject)
  next
    fix c v assume "mail (fold drain_one pending cs) Drained c v"
    with new [of c v] ok show "c < next_ch" unfolding demux_ok_def by blast
  qed (use ok in \<open>auto simp: demux_ok_def\<close>)
qed


section \<open>The machine keeps the demultiplexer sound\<close>

definition runner_ok :: "StdioRunner \<Rightarrow> bool" where
  "runner_ok r \<longleftrightarrow>
    demux_ok (in_flight r) (srPending r) (srNextID r) (srNextChan r) (srChans r) (srReader r)"

lemma runner_ok_new: "runner_ok (NewStdioRunner cmd info)"
  by (simp add: runner_ok_def demux_ok_def NewStdioRunner_def in_flight_def mail_def)

lemma call_of_resume [simp]: "call_of (fst (resume derr p f)) = call_of p"
  by (induction derr p f rule: resume.induct) (auto split: option.splits prod.splits bool.splits)

lemma call_of_entry [simp]: "call_of (fst (entry m)) = None"
  by (cases m) simp_all

lemma in_flight_upd: "in_flight (r\<lparr>srThreads := (srThreads r')(t \<mapsto> pf)\<rparr>) = (in_flight r')(t := call_of (fst pf))"
  by (auto simp: in_flight_def fun_eq_iff)

lemma in_flight_frame [simp]:
  "in_flight (r\<lparr>srOut := a\<rparr>) = in_flight r" "in_flight (r\<lparr>srReader := b\<rparr>) = in_flight r"
  "in_flight (r\<lparr>srChans := c\<rparr>) = in_flight r" "in_flight (r\<lparr>srPending := d\<rparr>) = in_flight r"
  "in_flight (r\<lparr>srNextID := e\<rparr>) = in_flight r" "in_flight (r\<lparr>srNextChan := f\<rparr>) = in_flight r"
  "in_flight (r\<lparr>srReadDone := g\<rparr>) = in_flight r" "in_flight (r\<lparr>srEOF := h\<rparr>) = in_flight r"
  "in_flight (r\<lparr>srProc := i\<rparr>) = in_flight r" "in_flight (r\<lparr>srWritten := j\<rparr>) = in_flight r"
  by (simp_all add: in_flight_def fun_eq_iff)

lemma in_flight_set [simp]:
  "in_flight (r\<lparr>srThreads := (srThreads r)(t \<mapsto> pf)\<rparr>) = (in_flight r)(t := call_of (fst pf))"
  by (simp add: in_flight_def fun_eq_iff)

lemma writeLine_frame:
  assumes "writeLine r msg oc = Some (e, r')"
  shows "r' = r \<or> e = None \<and> srStdin r = Some Open \<and> r' = r\<lparr>srWritten := srWritten r @ [marshal_message msg]\<rparr>"
  using assms by (auto simp: writeLine_def split: option.splits outcome.splits if_splits)

text \<open>Only \<^verbatim>\<open>Call\<close> touches the demultiplexer, and it starts the read loop for \<^verbatim>\<open>Start\<close>.\<close>

definition core :: "StdioRunner \<Rightarrow> (call_id \<times> chan) list \<times> call_id \<times> chan \<times> (chan \<Rightarrow> json option)
    \<times> (nat \<Rightarrow> (pc \<times> frame) option)" where
  "core r = (srPending r, srNextID r, srNextChan r, srChans r, srThreads r)"

lemma Notify_core:
  "Notify r p oc = Some (p', r') \<Longrightarrow>
    core r' = core r \<and> srReader r' = srReader r \<and> call_of p = None \<and> call_of p' = None"
  by (induction r p oc rule: Notify.induct)
    (auto simp: core_def split: if_splits option.splits dest!: writeLine_frame)

lemma Stop_core:
  "Stop r p oc = Some (p', r') \<Longrightarrow>
    core r' = core r \<and> srReader r' = srReader r \<and> call_of p = None \<and> call_of p' = None"
  by (induction r p oc rule: Stop.induct) (auto simp: core_def split: if_splits outcome.splits)

lemma Start_core:
  "Start r p oc = Some (p', r') \<Longrightarrow>
    core r' = core r \<and> srReader r' \<in> {srReader r, Reading} \<and> call_of p = None \<and> call_of p' = None"
  by (induction r p oc rule: Start.induct)
    (auto simp: core_def Let_def split: if_splits outcome.splits)

lemma method_step_cases:
  assumes "method_step r p oc = Some (p', r')"
  obtains (call) "Call r p oc = Some (p', r')"
  | (quiet) "core r' = core r" "srReader r' = srReader r \<or> srReader r' = Reading"
      "call_of p = None" "call_of p' = None" "Call r p oc = None"
proof (cases "Call r p oc")
  case (Some x)
  with assms call show thesis by (simp add: method_step_def)
next
  case None
  with assms have "Notify r p oc = Some (p', r') \<or> Stop r p oc = Some (p', r') \<or> Start r p oc = Some (p', r')"
    by (auto simp: method_step_def split: option.splits)
  then have "core r' = core r \<and> (srReader r' = srReader r \<or> srReader r' = Reading)
      \<and> call_of p = None \<and> call_of p' = None"
    using Notify_core Stop_core Start_core by blast
  then show thesis by (elim conjE) (rule quiet [OF _ _ _ _ None])
qed

text \<open>What a step of \<^verbatim>\<open>Call\<close> does.\<close>

lemma Call_cases:
  assumes "Call r p oc = Some (p', r')"
  obtains (refused) m ps where "p = CallBegin m ps" "srStopped r" "r' = r"
      "p' = CallReturn (internal_error ''runner stopped'')"
  | (registered) m ps i ch msg where "p = CallBegin m ps" "\<not> srStopped r" "i = srNextID r + 1" "ch = srNextChan r"
      "p' = CallWrite i ch msg"
      "msg = zero_message\<lparr>msgJSONRPC := jsonrpcVersion, msgID := Some (JNum (FormatInt (sint i))),
         msgMethod := m, msgParams := ps\<rparr>"
      "r' = r\<lparr>srNextID := i, srNextChan := ch + 1, srChans := (srChans r)(ch := None),
         srPending := map_set i ch (srPending r)\<rparr>"
  | (written) i ch msg where "p = CallWrite i ch msg" "p' = CallWait i ch" "srStdin r = Some Open"
      "r' = r\<lparr>srWritten := srWritten r @ [marshal_message msg]\<rparr>"
  | (unwritten) i ch msg e where "p = CallWrite i ch msg" "p' = CallLeave i ch (internal_error e)" "r' = r"
  | (answered) i ch v where "p = CallWait i ch" "srChans r ch = Some v"
      "p' = CallLeave i ch (decode_response v)" "r' = r\<lparr>srChans := (srChans r)(ch := None)\<rparr>"
  | (cancelled) i ch e where "p = CallWait i ch" "oc = Cancelled e"
      "p' = CallLeave i ch (internal_error e)" "r' = r"
  | (leave) i ch res where "p = CallLeave i ch res" "p' = CallReturn res" "r' = call_leave r i"
proof (cases p)
  case (CallBegin m ps)
  with assms show thesis
    by (cases "srStopped r") (auto simp: call_begin_def Let_def split: if_splits intro: refused registered)
next
  case (CallWrite i ch msg)
  with assms show thesis
    by (auto simp: writeLine_def split: option.splits outcome.splits if_splits intro: written unwritten)
next
  case (CallWait i ch)
  with assms show thesis
    by (auto split: option.splits outcome.splits intro: answered cancelled)
next
  case (CallLeave i ch res)
  with assms show thesis by (auto split: if_splits intro: leave)
qed (use assms in simp_all)


lemma runner_ok_thread:
  assumes "runner_ok r" "core r' = core r" "srReader r' = srReader r \<or> srReader r' = Reading"
    "in_flight r t = call_of (fst pf)"
  shows "runner_ok (r'\<lparr>srThreads := (srThreads r')(t \<mapsto> pf)\<rparr>)"
proof -
  have "in_flight r' = in_flight r" using assms(2) by (simp add: in_flight_def core_def fun_eq_iff)
  then have "(in_flight r')(t := call_of (fst pf)) = in_flight r"
    and "(in_flight r)(t := call_of (fst pf)) = in_flight r" using assms(4) by auto
  moreover have "mail (srChans r) (srReader r') c v \<Longrightarrow> mail (srChans r) (srReader r) c v" for c v
    using assms(3) by (auto simp: mail_def)
  ultimately show ?thesis
    using assms(1,2) demux_mono [of "in_flight r" "srPending r" "srNextID r" "srNextChan r"
        "srChans r" "srReader r" "srChans r" "srReader r'"]
    by (simp add: runner_ok_def in_flight_upd core_def)
qed

lemma runner_ok_run:
  assumes ok: "runner_ok r" and room: "srNextID r \<noteq> - 1" and t: "srThreads r t = Some (p, f)"
    and m: "method_step r p oc = Some (p', r')"
  shows "runner_ok (r'\<lparr>srThreads := (srThreads r')(t \<mapsto> resume derr p' f)\<rparr>)"
proof -
  have fl: "in_flight r t = call_of p" using t by (simp add: in_flight_def)
  note dx = ok [unfolded runner_ok_def]
  from m show ?thesis
  proof (cases rule: method_step_cases)
    case quiet
    with fl show ?thesis by (intro runner_ok_thread [OF ok]) simp_all
  next
    case call
    then show ?thesis
    proof (cases rule: Call_cases)
      case (registered m ps i ch msg)
      have "in_flight r t = None" using fl registered by simp
      from demux_register [OF dx room this] registered show ?thesis
        by (simp add: runner_ok_def in_flight_upd)
    next
      case (answered i ch v)
      have "(in_flight r')(t := call_of p') = in_flight r"
        using answered fl by (auto simp: in_flight_def)
      moreover have "mail (srChans r') (srReader r') c v \<Longrightarrow> mail (srChans r) (srReader r) c v" for c v
        using answered by (auto simp: mail_def split: if_splits)
      ultimately show ?thesis
        using demux_mono [OF dx, of "srChans r'" "srReader r'"] answered
        by (simp add: runner_ok_def in_flight_upd)
    next
      case (leave i ch res)
      from demux_leave [OF dx, of t i ch] fl leave show ?thesis
        by (simp add: runner_ok_def in_flight_upd call_leave_def)
    next
      case (written i ch msg)
      then show ?thesis
        by (intro runner_ok_thread [OF ok]) (simp_all add: core_def fl)
    qed (use fl in \<open>auto intro!: runner_ok_thread [OF ok] simp: core_def\<close>)
  qed
qed

lemma parse_int64_range: "parse_int64 l = Some k \<Longrightarrow> - (2 ^ 63) \<le> k \<and> k < 2 ^ 63"
  by (simp add: parse_int64_def Let_def split: prod.splits if_splits)

lemma response_id_range: "response_id v = Some k \<Longrightarrow> - (2 ^ 63) \<le> k \<and> k < 2 ^ 63"
proof -
  assume "response_id v = Some k"
  then obtain w where "unmarshal_int w 0 = (k, True)"
    by (auto simp: response_id_def Let_def split: prod.splits if_splits)
  then show ?thesis
    by (cases w) (auto split: option.splits dest: parse_int64_range)
qed

lemma runner_ok_read:
  assumes "runner_ok r" "readLoop r = Some r'"
  shows "runner_ok r'"
proof (cases "srReader r")
  case Reading
  note dx = assms(1) [unfolded runner_ok_def]
  show ?thesis
  proof (cases "scan_line stdioMaxLine (srEOF r) (srOut r)")
    case (Token l rest)
    with Reading assms(2) have r': "r' = read_line (r\<lparr>srOut := rest\<rparr>) l" by (simp add: readLoop_def)
    show ?thesis
    proof (cases "\<exists>v k ch. response_id v = Some k \<and> map_of (srPending r) (word_of_int k) = Some ch
        \<and> r' = r\<lparr>srOut := rest, srReader := Sending ch v\<rparr>")
      case True
      then obtain v k ch where v: "response_id v = Some k" "map_of (srPending r) (word_of_int k) = Some ch"
        "r' = r\<lparr>srOut := rest, srReader := Sending ch v\<rparr>" by blast
      from demux_lookup [OF dx Reading v(1,2)] response_id_range [OF v(1)] show ?thesis
        by (simp add: v(3) runner_ok_def)
    next
      case False
      then have "r' = r\<lparr>srOut := rest\<rparr>"
        unfolding r' by (auto simp: read_line_def split: option.splits)
      with dx show ?thesis by (simp add: runner_ok_def)
    qed
  qed (use Reading assms(2) demux_drain [OF dx] in
      \<open>auto simp: readLoop_def runner_ok_def drain_def\<close>)
next
  case (Sending ch v)
  then have r': "r' = r\<lparr>srChans := (srChans r)(ch := Some v), srReader := Reading\<rparr>"
    using assms(2) by (auto simp: readLoop_def split: if_splits)
  have "mail (srChans r') (srReader r') c w \<Longrightarrow> mail (srChans r) (srReader r) c w" for c w
    using Sending by (auto simp: r' mail_def split: if_splits)
  from demux_mono [OF assms(1) [unfolded runner_ok_def] this] show ?thesis
    by (simp add: r' runner_ok_def)
next
  case Drained
  then have r': "r' = r\<lparr>srReadDone := True, srReader := Finished\<rparr>"
    using assms(2) by (simp add: readLoop_def)
  have "mail (srChans r') (srReader r') c w \<Longrightarrow> mail (srChans r) (srReader r) c w" for c w
    by (auto simp: r' mail_def)
  from demux_mono [OF assms(1) [unfolded runner_ok_def] this] show ?thesis
    by (simp add: r' runner_ok_def)
qed (use assms(2) in \<open>simp_all add: readLoop_def\<close>)

lemma runner_ok_step:
  assumes "runner_ok r" "srNextID r \<noteq> - 1" "sr_step derr a r = Some r'"
  shows "runner_ok r'"
  using assms
proof (cases a)
  case (Invoke t m)
  with assms(3) have "srThreads r t = None" "r' = r\<lparr>srThreads := (srThreads r)(t \<mapsto> entry m)\<rparr>"
    by (auto split: if_splits)
  then show ?thesis
    using runner_ok_thread [OF assms(1) refl, of t "entry m"] by (simp add: in_flight_def)
next
  case (Step t oc)
  with assms(3) obtain p f p' s where "srThreads r t = Some (p, f)" "method_step r p oc = Some (p', s)"
    "r' = s\<lparr>srThreads := (srThreads s)(t \<mapsto> resume derr p' f)\<rparr>"
    by (auto split: option.splits)
  with runner_ok_run [OF assms(1,2)] show ?thesis by blast
next
  case ReadLoop
  with assms show ?thesis using runner_ok_read by simp
qed (use assms in \<open>auto simp: runner_ok_def split: if_splits\<close>)


lemma in_flight_own:
  assumes "runner_ok r" "srThreads r t = Some (p, f)" "call_of p = Some (i, c)"
  shows "i \<le> srNextID r" "map_of (srPending r) i = Some c" "c < srNextChan r"
proof -
  have "in_flight r t = Some (i, c)" using assms(2,3) by (simp add: in_flight_def)
  then show "i \<le> srNextID r" "map_of (srPending r) i = Some c" "c < srNextChan r"
    using assms(1) unfolding runner_ok_def demux_ok_def by blast+
qed

lemma in_flight_unique:
  assumes "runner_ok r" "srThreads r t = Some (p, f)" "call_of p = Some (i, c)"
    "srThreads r t' = Some (q, g)" "call_of q = Some (j, c')" "t' \<noteq> t"
  shows "j \<noteq> i" "c' \<noteq> c"
proof -
  have "in_flight r t = Some (i, c)" "in_flight r t' = Some (j, c')"
    using assms(2-5) by (simp_all add: in_flight_def)
  then show "j \<noteq> i" "c' \<noteq> c"
    using assms(1,6) unfolding runner_ok_def demux_ok_def by (metis option.inject)+
qed

text \<open>Each step registers at most one identifier, so short enough runs never wrap around.\<close>

lemma core_id: "core r' = core r \<Longrightarrow> srNextID r' = srNextID r"
  by (simp add: core_def)

lemma readLoop_id: "readLoop r = Some r' \<Longrightarrow> srNextID r' = srNextID r \<and> srWritten r' = srWritten r
    \<and> srThreads r' = srThreads r"
  by (auto simp: readLoop_def read_line_def drain_def split: reader.splits token.splits option.splits if_splits)

lemma Call_id: "Call r p oc = Some (p', r') \<Longrightarrow> srNextID r' = srNextID r \<or> srNextID r' = srNextID r + 1"
  by (elim Call_cases) (auto simp: call_leave_def)

lemma sr_step_id:
  assumes "sr_step derr a r = Some r'"
  shows "srNextID r' = srNextID r \<or> srNextID r' = srNextID r + 1"
proof (cases a)
  case (Step t oc)
  with assms obtain p f p' s where m: "method_step r p oc = Some (p', s)"
    and r': "r' = s\<lparr>srThreads := (srThreads s)(t \<mapsto> resume derr p' f)\<rparr>"
    by (auto split: option.splits)
  from m show ?thesis
  proof (cases rule: method_step_cases)
    case call
    from Call_id [OF this] show ?thesis by (simp add: r')
  next
    case quiet
    from core_id [OF quiet(1)] show ?thesis by (simp add: r')
  qed
qed (use assms readLoop_id in \<open>auto split: if_splits\<close>)

lemma runner_ok_exec:
  assumes "runner_ok r" "sr_exec derr xs r = Some r'" "unat (srNextID r) + length xs < 2 ^ 64"
  shows "runner_ok r' \<and> unat (srNextID r') \<le> unat (srNextID r) + length xs"
  using assms
proof (induction xs arbitrary: r)
  case (Cons a xs)
  from Cons.prems(2) obtain s where s: "sr_step derr a r = Some s" "sr_exec derr xs s = Some r'"
    by (auto split: option.splits)
  have "unat (- 1 :: 64 word) = 2 ^ 64 - 1" by (simp add: unsigned_minus_1_eq_mask mask_eq_exp_minus_1)
  then have room: "srNextID r \<noteq> - 1" using Cons.prems(3) by auto
  then have "srNextID r + 1 \<noteq> 0" by (simp add: eq_neg_iff_add_eq_0)
  then have "unat (srNextID r + 1) = Suc (unat (srNextID r))" by (metis add.commute unatSuc)
  with sr_step_id [OF s(1)] have "unat (srNextID s) \<le> Suc (unat (srNextID r))" by auto
  with Cons.IH [OF runner_ok_step [OF Cons.prems(1) room s(1)] s(2)] Cons.prems(3) show ?case by auto
qed simp



section \<open>What the process sees\<close>

text \<open>The identifiers on the wire: those of the requests written so far.\<close>

definition wire_ids :: "json list \<Rightarrow> int list" where
  "wire_ids ws = concat (map (\<lambda>w. case response_id w of None \<Rightarrow> [] | Some k \<Rightarrow> [k]) ws)"

lemma wire_ids_simps [simp]:
  "wire_ids [] = []"
  "wire_ids (ws @ [w]) = wire_ids ws @ (case response_id w of None \<Rightarrow> [] | Some k \<Rightarrow> [k])"
  by (simp_all add: wire_ids_def)

lemma head_fields:
  "match_field [''id''] ''jsonrpc'' = None" "match_field [''id''] ''id'' = Some ''id''"
  "match_field [''id''] ''method'' = None" "match_field [''id''] ''params'' = None"
  by code_simp+

lemma response_id_request:
  "response_id (marshal_message (zero_message\<lparr>msgJSONRPC := jsonrpcVersion,
      msgID := Some (JNum (FormatInt (sint (i :: 64 word)))), msgMethod := m, msgParams := ps\<rparr>)) = Some (sint i)"
proof -
  have "- (2 ^ 63) \<le> sint i" "sint i < 2 ^ 63"
    using sint_range_size [of i] by (simp_all add: word_size)
  then show ?thesis
    by (cases ps) (simp_all add: marshal_message_def zero_message_def response_id_def head_fields parse_FormatInt)
qed

lemma response_id_notification:
  "response_id (marshal_message (zero_message\<lparr>msgJSONRPC := jsonrpcVersion, msgMethod := m,
      msgParams := ps\<rparr>)) = None"
  by (cases ps) (simp_all add: marshal_message_def zero_message_def response_id_def head_fields)

text \<open>What a goroutine is about to write.\<close>

fun unsent_ok :: "json list \<Rightarrow> pc \<Rightarrow> bool" where
  "unsent_ok ws (CallWrite i ch msg) =
    (response_id (marshal_message msg) = Some (sint i) \<and> sint i \<notin> set (wire_ids ws))"
| "unsent_ok ws (NotifyWrite msg) = (response_id (marshal_message msg) = None)"
| "unsent_ok ws _ = True"

definition wire_ok :: "StdioRunner \<Rightarrow> bool" where
  "wire_ok r \<longleftrightarrow> distinct (wire_ids (srWritten r))
    \<and> (\<forall>k \<in> set (wire_ids (srWritten r)). \<exists>i \<le> srNextID r. k = sint i)
    \<and> (\<forall>t p f. srThreads r t = Some (p, f) \<longrightarrow> unsent_ok (srWritten r) p)"

lemma unsent_resume: "unsent_ok ws p \<Longrightarrow> unsent_ok ws (fst (resume derr p f))"
  by (induction derr p f rule: resume.induct) (auto split: option.splits prod.splits bool.splits)

lemma unsent_other:
  assumes "unsent_ok ws p"
    "\<And>i c. call_of p = Some (i, c) \<Longrightarrow> response_id w \<noteq> Some (sint i)"
  shows "unsent_ok (ws @ [w]) p"
  using assms by (cases "(ws, p)" rule: unsent_ok.cases) (auto split: option.splits)


lemma noncall_wire:
  assumes "Call r p oc = None" "method_step r p oc = Some (p', r')"
  shows "(srWritten r' = srWritten r \<and> unsent_ok ws p')
    \<or> (\<exists>msg e. p = NotifyWrite msg \<and> p' = NotifyReturn e \<and> srWritten r' = srWritten r @ [marshal_message msg])"
proof -
  have n: "(srWritten r' = srWritten r \<and> unsent_ok ws p')
    \<or> (\<exists>msg e. p = NotifyWrite msg \<and> p' = NotifyReturn e \<and> srWritten r' = srWritten r @ [marshal_message msg])"
    if "Notify r p oc = Some (p', r')"
    using that response_id_notification
    by (induction r p oc rule: Notify.induct)
      (auto split: if_splits option.splits dest!: writeLine_frame)
  have s: "srWritten r' = srWritten r \<and> unsent_ok ws p'" if "Stop r p oc = Some (p', r')"
    using that by (induction r p oc rule: Stop.induct) (auto split: if_splits outcome.splits)
  have b: "srWritten r' = srWritten r \<and> unsent_ok ws p'" if "Start r p oc = Some (p', r')"
    using that by (induction r p oc rule: Start.induct) (auto simp: Let_def split: if_splits outcome.splits)
  from assms have "Notify r p oc = Some (p', r') \<or> Stop r p oc = Some (p', r') \<or> Start r p oc = Some (p', r')"
    by (auto simp: method_step_def split: option.splits)
  with n s b show ?thesis by blast
qed

lemma wire_ok_frame:
  "wire_ok r \<Longrightarrow> srWritten s = srWritten r \<Longrightarrow> srNextID s = srNextID r \<Longrightarrow> srThreads s = srThreads r
    \<Longrightarrow> wire_ok s"
  by (simp add: wire_ok_def)

lemma wire_ok_thread:
  assumes ok: "wire_ok r" and w: "srWritten s = srWritten r" and i: "srNextID r \<le> srNextID s"
    and th: "srThreads s = srThreads r" and p: "unsent_ok (srWritten r) p'"
  shows "wire_ok (s\<lparr>srThreads := (srThreads s)(t \<mapsto> resume derr p' f)\<rparr>)"
proof -
  have "unsent_ok (srWritten r) (fst (resume derr p' f))" using p by (rule unsent_resume)
  then have "unsent_ok (srWritten r) q" if "resume derr p' f = (q, g)" for q g using that by simp
  moreover have "\<exists>j \<le> srNextID s. k = sint j" if "k \<in> set (wire_ids (srWritten r))" for k
    using ok that i unfolding wire_ok_def by (meson order_trans)
  ultimately show ?thesis
    using ok by (auto simp: wire_ok_def w th)
qed

lemma wire_ok_write:
  assumes ok: "wire_ok r" and dx: "runner_ok r" and t: "srThreads r t = Some (p, f)"
    and p: "p = CallWrite i ch msg \<or> p = NotifyWrite msg" and p': "\<And>ws. unsent_ok ws p'"
    and s: "srWritten s = srWritten r @ [marshal_message msg]" "srNextID s = srNextID r"
      "srThreads s = srThreads r"
  shows "wire_ok (s\<lparr>srThreads := (srThreads s)(t \<mapsto> resume derr p' f)\<rparr>)"
proof -
  let ?w = "marshal_message msg" and ?ws = "srWritten r"
  have u: "unsent_ok ?ws p" using ok t unfolding wire_ok_def by blast
  have ids: "response_id ?w = None \<or> p = CallWrite i ch msg \<and> response_id ?w = Some (sint i)
      \<and> sint i \<notin> set (wire_ids ?ws) \<and> i \<le> srNextID r"
    using p u in_flight_own(1) [OF dx t, of i ch] by auto
  have others: "unsent_ok (?ws @ [?w]) q" if q: "srThreads r t' = Some (q, g)" "t' \<noteq> t" for t' q g
  proof (rule unsent_other)
    show "unsent_ok ?ws q" using ok q unfolding wire_ok_def by blast
    fix j c assume c: "call_of q = Some (j, c)"
    show "response_id ?w \<noteq> Some (sint j)"
    proof
      assume "response_id ?w = Some (sint j)"
      with ids have "p = CallWrite i ch msg" "j = i" by (auto simp: signed_word_eqI)
      with in_flight_unique(1) [OF dx t _ q(1) c q(2)] show False by simp
    qed
  qed
  have "distinct (wire_ids (?ws @ [?w]))"
    using ok ids by (auto simp: wire_ok_def split: option.splits)
  moreover have "\<exists>j \<le> srNextID r. k = sint j" if "k \<in> set (wire_ids (?ws @ [?w]))" for k
    using ok ids that by (auto simp: wire_ok_def split: option.splits)
  moreover have "unsent_ok (?ws @ [?w]) (fst (resume derr p' f))"
    using p' by (rule unsent_resume)
  ultimately show ?thesis
    using others by (auto simp: wire_ok_def s simp del: wire_ids_simps)
qed

lemma wire_ok_step:
  assumes ok: "wire_ok r" and dx: "runner_ok r" and room: "srNextID r \<noteq> - 1"
    and st: "sr_step derr a r = Some r'"
  shows "wire_ok r'"
proof (cases a)
  case (Invoke t m)
  with st have r': "r' = r\<lparr>srThreads := (srThreads r)(t \<mapsto> entry m)\<rparr>" by (auto split: if_splits)
  have "unsent_ok ws (fst (entry m))" for ws by (cases m) simp_all
  then have "unsent_ok ws q" if "entry m = (q, g)" for ws q g using that by (metis fst_conv)
  with ok show ?thesis by (auto simp: r' wire_ok_def)
next
  case (Step t oc)
  with st obtain p f p' s where t: "srThreads r t = Some (p, f)"
    and m: "method_step r p oc = Some (p', s)"
    and r': "r' = s\<lparr>srThreads := (srThreads s)(t \<mapsto> resume derr p' f)\<rparr>"
    by (auto split: option.splits)
  from m show ?thesis
  proof (cases rule: method_step_cases)
    case quiet
    then have frame: "srNextID s = srNextID r" "srThreads s = srThreads r" by (simp_all add: core_def)
    from noncall_wire [OF quiet(5) m, of "srWritten r"] show ?thesis
    proof (elim disjE exE conjE)
      assume "srWritten s = srWritten r" "unsent_ok (srWritten r) p'"
      with frame show ?thesis unfolding r' by (intro wire_ok_thread [OF ok]) simp_all
    next
      fix msg e
      assume "p = NotifyWrite msg" "p' = NotifyReturn e" "srWritten s = srWritten r @ [marshal_message msg]"
      with frame show ?thesis unfolding r'
        by (intro wire_ok_write [OF ok dx t, of _ _ msg]) simp_all
    qed
  next
    case call
    then show ?thesis
    proof (cases rule: Call_cases)
      case (registered m ps i ch msg)
      have "srNextID r + 1 \<noteq> 0" using room by (simp add: eq_neg_iff_add_eq_0)
      then have "unat (srNextID r + 1) = Suc (unat (srNextID r))" by (metis add.commute unatSuc)
      then have less: "srNextID r < i" by (simp add: word_less_nat_alt registered)
      have "sint i \<notin> set (wire_ids (srWritten r))"
        using ok less unfolding wire_ok_def by (metis linorder_not_less signed_word_eqI)
      then have "unsent_ok (srWritten r) p'"
        by (simp add: registered(5) response_id_request registered(6))
      then show ?thesis
        using less registered unfolding r' by (intro wire_ok_thread [OF ok]) simp_all
    next
      case (written i ch msg)
      then show ?thesis
        unfolding r' by (intro wire_ok_write [OF ok dx t, of i ch msg]) simp_all
    qed (unfold r', (intro wire_ok_thread [OF ok]; simp add: call_leave_def)+)
  qed
next
  case ReadLoop
  with st readLoop_id [of r r'] show ?thesis by (auto intro: wire_ok_frame [OF ok])
qed (use st in \<open>auto split: if_splits intro!: wire_ok_frame [OF ok]\<close>)


lemma exec_sound:
  assumes "runner_ok r" "wire_ok r" "sr_exec derr xs r = Some r'" "unat (srNextID r) + length xs < 2 ^ 64"
  shows "runner_ok r' \<and> wire_ok r'"
  using assms
proof (induction xs arbitrary: r)
  case (Cons a xs)
  from Cons.prems(3) obtain s where s: "sr_step derr a r = Some s" "sr_exec derr xs s = Some r'"
    by (auto split: option.splits)
  have "sr_exec derr [a] r = Some s" using s(1) by simp
  from runner_ok_exec [OF Cons.prems(1) this] Cons.prems(4)
  have "runner_ok s" "unat (srNextID s) \<le> Suc (unat (srNextID r))" by simp_all
  moreover have "srNextID r \<noteq> - 1"
  proof
    assume "srNextID r = - 1"
    then show False using Cons.prems(4) by (simp add: unsigned_minus_1_eq_mask mask_eq_exp_minus_1)
  qed
  then have "wire_ok s" using wire_ok_step [OF Cons.prems(2,1) _ s(1)] by blast
  ultimately show ?case using Cons.IH [OF _ _ s(2)] Cons.prems(4) by simp
qed simp

lemma reachable_sound:
  assumes "sr_exec derr xs (NewStdioRunner cmd info) = Some r" "length xs < 2 ^ 64"
  shows "runner_ok r \<and> wire_ok r"
proof (rule exec_sound [OF runner_ok_new _ assms(1)])
  show "wire_ok (NewStdioRunner cmd info)" by (simp add: wire_ok_def NewStdioRunner_def)
  show "unat (srNextID (NewStdioRunner cmd info)) + length xs < 2 ^ 64"
    using assms(2) by (simp add: NewStdioRunner_def)
qed

text \<open>C25. The identifiers put on the wire are never reused: after any interleaving the lines the
  process was sent carry pairwise distinct identifiers, none beyond the last one given out, and an
  identifier that a call is still about to write is not among them.\<close>

theorem wire_ids_distinct:
  assumes "sr_exec derr xs (NewStdioRunner cmd info) = Some r" "length xs < 2 ^ 64"
  shows "distinct (wire_ids (srWritten r))
    \<and> (\<forall>k \<in> set (wire_ids (srWritten r)). \<exists>i \<le> srNextID r. k = sint i)
    \<and> (\<forall>t i ch msg f. srThreads r t = Some (CallWrite i ch msg, f) \<longrightarrow> sint i \<notin> set (wire_ids (srWritten r)))"
proof -
  from reachable_sound [OF assms] have w: "wire_ok r" ..
  moreover have "sint i \<notin> set (wire_ids (srWritten r))"
    if "srThreads r t = Some (CallWrite i ch msg, f)" for t i ch msg f
    using w that unfolding wire_ok_def by (metis unsent_ok.simps(1))
  ultimately show ?thesis unfolding wire_ok_def by blast
qed


section \<open>The end of the output\<close>


section \<open>An exchange\<close>

text \<open>The request a call puts on the wire.\<close>

definition request_line :: "call_id \<Rightarrow> bytes \<Rightarrow> json option \<Rightarrow> json" where
  "request_line i m ps =
    marshal_message (zero_message\<lparr>msgJSONRPC := jsonrpcVersion, msgID := Some (JNum (FormatInt (sint i))),
      msgMethod := m, msgParams := ps\<rparr>)"

lemma scan_line_one:
  assumes "CHR 0x0A \<notin> set l" "length l < n" "dropCR l = l"
  shows "scan_line n e (l @ [CHR 0x0A]) = Token l []"
proof -
  have "takeWhile (\<lambda>c. c \<noteq> CHR 0x0A) (l @ [CHR 0x0A]) = l"
    using assms(1) by (simp add: takeWhile_append)
  with assms(2,3) show ?thesis by (simp add: scan_line_def Let_def)
qed

text \<open>C27. What a call is for, beside everything else that is going on: a call on a running runner writes its
  request under a fresh identifier, and when the process answers with one line that carries this
  identifier, the call returns what that line says and leaves nothing behind; no other goroutine has
  moved.\<close>

theorem answered_call_returns:
  assumes "srThreads r t = None" "\<not> srStopped r" "srStdin r = Some Open" "srProc r \<noteq> NotStarted"
    "srReader r = Reading" "srOut r = []" "\<not> srEOF r"
    "json_parse l = Some v" "response_id v = Some (sint (srNextID r + 1))"
    "CHR 0x0A \<notin> set l" "length l < stdioMaxLine" "dropCR l = l"
  shows "\<exists>r'. sr_exec derr [Invoke t (DoCall m ps), Step t Go, Step t Go, Writes (l @ [CHR 0x0A]), ReadLoop,
      ReadLoop, Step t Go, Step t Go] r = Some r'
    \<and> srWritten r' = srWritten r @ [request_line (srNextID r + 1) m ps]
    \<and> srThreads r' = (srThreads r)(t \<mapsto> (CallReturn (decode_response v), Direct))
    \<and> map_of (srPending r') = (map_of (srPending r))(srNextID r + 1 := None)
    \<and> srReader r' = Reading \<and> srOut r' = [] \<and> srChans r' (srNextChan r) = None"
proof -
  have "scan_line stdioMaxLine False (l @ [CHR 0x0A]) = Token l []"
    using assms(10-12) by (rule scan_line_one)
  then show ?thesis
    using assms(1-9)
    by (simp add: method_step_def call_begin_def Let_def writeLine_def readLoop_def read_line_def
        call_leave_def request_line_def)
qed

end
