(* ===== verification/StdioStop.thy ===== *)
theory StdioStop
  imports StdioDemux
begin

text \<open>
  How the stdio runner stops, and when it does not; and the environment its process gets. The
  states a stop cannot leave are invariants of the steps: an open output (\<open>open_output\<close>), and a read
  loop that will make no step any more (\<open>halted\<close>).
\<close>

section \<open>Stop\<close>

text \<open>\<open>stopped\<close> is never taken back, and no identifier is given out any more.\<close>

lemma method_step_stopped:
  assumes "method_step r p oc = Some (p', r')"
  shows "srStopped r \<longrightarrow> srStopped r' \<and> srNextID r' = srNextID r"
proof -
  have "Call r p oc = Some (p', r') \<Longrightarrow> ?thesis"
    by (elim Call_cases) (auto simp: call_leave_def)
  moreover have "Notify r p oc = Some (p', r') \<Longrightarrow> ?thesis"
    by (induction r p oc rule: Notify.induct) (auto split: if_splits option.splits dest!: writeLine_frame)
  moreover have "Stop r p oc = Some (p', r') \<Longrightarrow> ?thesis"
    by (induction r p oc rule: Stop.induct) (auto split: if_splits outcome.splits)
  moreover have "Start r p oc = Some (p', r') \<Longrightarrow> ?thesis"
    by (induction r p oc rule: Start.induct) (auto simp: Let_def split: if_splits outcome.splits)
  ultimately show ?thesis using assms by (auto simp: method_step_def split: option.splits)
qed

lemma sr_step_stopped:
  assumes "srStopped r \<and> srNextID r = n" "sr_step derr a r = Some r'"
  shows "srStopped r' \<and> srNextID r' = n"
proof (cases a)
  case (Step t oc)
  with assms obtain p f p' s where "method_step r p oc = Some (p', s)"
    "r' = s\<lparr>srThreads := (srThreads s)(t \<mapsto> resume derr p' f)\<rparr>"
    by (auto split: option.splits)
  with method_step_stopped assms(1) show ?thesis by auto
next
  case ReadLoop
  with assms show ?thesis
    by (auto simp: readLoop_def read_line_def drain_def split: reader.splits token.splits option.splits if_splits)
qed (use assms in \<open>auto split: if_splits\<close>)

text \<open>Stopping is final: once a \<^verbatim>\<open>Stop\<close> has begun, whatever happens then, a call or
  notification that begins is refused at its first step without an identifier, a channel or a write,
  and another \<^verbatim>\<open>Stop\<close> returns at once without an error.\<close>

theorem stop_is_final:
  assumes "srStopped r" "sr_exec derr xs r = Some r'"
  shows "srStopped r' \<and> srNextID r' = srNextID r
    \<and> method_step r' (CallBegin m ps) Go = Some (CallReturn (internal_error ''runner stopped''), r')
    \<and> method_step r' (NotifyBegin m ps) Go = Some (NotifyReturn (Some ''runner stopped''), r')
    \<and> method_step r' StopBegin Go = Some (StopReturn None, r')"
proof -
  have "srStopped r' \<and> srNextID r' = srNextID r"
    by (rule sr_exec_invariant [where P = "\<lambda>s. srStopped s \<and> srNextID s = srNextID r", OF _ assms(2)])
      (use assms(1) sr_step_stopped in blast)+
  then show ?thesis by (simp add: method_step_def call_begin_def)
qed


text \<open>What no step of a method but \<^verbatim>\<open>Stop\<close>'s after the read loop's end changes.\<close>

definition past_drain :: "pc \<Rightarrow> bool" where
  "past_drain p \<longleftrightarrow> p = StopWait \<or> p = StopKilled"

definition starting :: "pc \<Rightarrow> bool" where
  "starting p \<longleftrightarrow> p = StartStdin \<or> p = StartStdout \<or> p = StartStderr \<or> p = StartSpawn"

lemma past_drain_simps [simp]:
  "past_drain (fst (resume derr p f)) = past_drain p" "past_drain (fst (entry m)) = False"
proof -
  show "past_drain (fst (resume derr p f)) = past_drain p"
    by (induction derr p f rule: resume.induct)
      (auto simp: past_drain_def split: option.splits prod.splits bool.splits)
  show "past_drain (fst (entry m)) = False" by (cases m) (simp_all add: past_drain_def)
qed

lemma starting_simps [simp]:
  "starting (fst (resume derr p f)) = starting p" "starting (fst (entry m)) = (m = DoStart)"
proof -
  show "starting (fst (resume derr p f)) = starting p"
    by (induction derr p f rule: resume.induct)
      (auto simp: starting_def split: option.splits prod.splits bool.splits)
  show "starting (fst (entry m)) = (m = DoStart)" by (cases m) (simp_all add: starting_def)
qed

lemma method_step_quiet:
  assumes "method_step r p oc = Some (p', r')" "\<not> srReadDone r" "\<not> past_drain p"
  shows "srEOF r' = srEOF r \<and> srOut r' = srOut r \<and> srReadDone r' = srReadDone r
    \<and> srKilled r' = srKilled r \<and> \<not> past_drain p' \<and> srThreads r' = srThreads r
    \<and> (srReader r' = srReader r \<or> starting p \<and> srReader r' = Reading) \<and> (starting p' \<longrightarrow> starting p)"
proof -
  have "Call r p oc = Some (p', r') \<Longrightarrow> ?thesis"
    by (elim Call_cases) (auto simp: call_leave_def past_drain_def starting_def)
  moreover have "Notify r p oc = Some (p', r') \<Longrightarrow> ?thesis"
    by (induction r p oc rule: Notify.induct)
      (auto simp: past_drain_def starting_def split: if_splits option.splits dest!: writeLine_frame)
  moreover have "Stop r p oc = Some (p', r') \<Longrightarrow> ?thesis"
    using assms(2,3) by (induction r p oc rule: Stop.induct)
      (auto simp: past_drain_def starting_def split: if_splits outcome.splits)
  moreover have "Start r p oc = Some (p', r') \<Longrightarrow> ?thesis"
    by (induction r p oc rule: Start.induct)
      (auto simp: Let_def past_drain_def starting_def split: if_splits outcome.splits)
  ultimately show ?thesis using assms(1) by (auto simp: method_step_def split: option.splits)
qed


definition all_pcs :: "(pc \<Rightarrow> bool) \<Rightarrow> (nat \<Rightarrow> (pc \<times> frame) option) \<Rightarrow> bool" where
  "all_pcs P ths \<longleftrightarrow> (\<forall>t pf. ths t = Some pf \<longrightarrow> P (fst pf))"

lemma all_pcs_upd [simp]: "all_pcs P ths \<Longrightarrow> P (fst pf) \<Longrightarrow> all_pcs P (ths(t \<mapsto> pf))"
  by (cases pf) (auto simp: all_pcs_def)

lemma all_pcs_empty [simp]: "all_pcs P (\<lambda>_. None)"
  by (simp add: all_pcs_def)

lemma all_pcsD: "all_pcs P ths \<Longrightarrow> ths t = Some (p, f) \<Longrightarrow> P p"
  by (force simp: all_pcs_def)

text \<open>A goroutine whose step is not enabled stays where it is.\<close>

lemma thread_stays:
  assumes "srThreads r t = Some (p, f)" "\<And>oc. method_step r p oc = None" "sr_step derr a r = Some r'"
    "\<And>t q oc q' s. method_step r q oc = Some (q', s) \<Longrightarrow> srThreads s = srThreads r"
  shows "srThreads r' t = Some (p, f)"
proof (cases a)
  case (Step t' oc)
  with assms show ?thesis by (cases "t' = t") (auto split: option.splits)
next
  case ReadLoop
  with assms readLoop_id show ?thesis by auto
qed (use assms in \<open>auto split: if_splits\<close>)

text \<open>While the output is open and holds no line too long, nothing gets past the read loop's end.\<close>

definition open_output :: "nat \<Rightarrow> StdioRunner \<Rightarrow> bool" where
  "open_output n r \<longleftrightarrow> \<not> srEOF r \<and> length (srOut r) \<le> n \<and> \<not> srReadDone r \<and> \<not> srKilled r
    \<and> srReader r \<noteq> Drained \<and> srReader r \<noteq> Finished
    \<and> all_pcs (\<lambda>p. \<not> past_drain p) (srThreads r)"

fun bytes_written :: "action \<Rightarrow> nat" where
  "bytes_written (Writes bs) = length bs"
| "bytes_written _ = 0"

lemma scan_line_open:
  assumes "length data < maxLine"
  shows "scan_line maxLine False data = More
    \<or> (\<exists>l rest. scan_line maxLine False data = Token l rest \<and> length rest \<le> length data)"
  using assms by (auto simp: scan_line_def Let_def)

lemma open_output_step:
  assumes inv: "open_output n r" and st: "sr_step derr a r = Some r'" and a: "a \<noteq> ClosesOut"
    and n: "n < stdioMaxLine"
  shows "open_output (n + bytes_written a) r'"
proof (cases a)
  case (Invoke t m)
  with inv st show ?thesis
    by (auto simp: open_output_def split: if_splits)
next
  case (Step t oc)
  with st obtain p f p' s where t: "srThreads r t = Some (p, f)" and m: "method_step r p oc = Some (p', s)"
    and r': "r' = s\<lparr>srThreads := (srThreads s)(t \<mapsto> resume derr p' f)\<rparr>"
    by (auto split: option.splits)
  have "\<not> srReadDone r" "\<not> past_drain p" using inv t by (auto simp: open_output_def dest: all_pcsD)
  from method_step_quiet [OF m this] inv show ?thesis
    by (auto simp: r' Step open_output_def)
next
  case ReadLoop
  with st have rl: "readLoop r = Some r'" by simp
  have len: "length (srOut r) < stdioMaxLine" and eof: "\<not> srEOF r" using inv n by (auto simp: open_output_def)
  show ?thesis
    using inv rl scan_line_open [OF len] eof
    by (auto simp: ReadLoop open_output_def readLoop_def read_line_def
        split: reader.splits option.splits if_splits)
qed (use inv st a in \<open>auto simp: open_output_def split: if_splits\<close>)

lemma open_output_exec:
  assumes "open_output n r" "sr_exec derr xs r = Some r'" "ClosesOut \<notin> set xs"
    "n + sum_list (map bytes_written xs) < stdioMaxLine"
  shows "open_output (n + sum_list (map bytes_written xs)) r'"
  using assms
proof (induction xs arbitrary: n r)
  case (Cons a xs)
  from Cons.prems(2) obtain s where s: "sr_step derr a r = Some s" "sr_exec derr xs s = Some r'"
    by (auto split: option.splits)
  have "open_output (n + bytes_written a) s"
    by (rule open_output_step [OF Cons.prems(1) s(1)]) (use Cons.prems(3,4) in auto)
  from Cons.IH [OF this s(2)] Cons.prems(3,4) show ?case by (simp add: add.assoc)
qed simp


text \<open>A read loop that makes no step any more, in its state \<open>rd\<close>, with no \<^verbatim>\<open>Start\<close> to come.\<close>

definition halted :: "reader \<Rightarrow> StdioRunner \<Rightarrow> bool" where
  "halted rd r \<longleftrightarrow> srReader r = rd \<and> \<not> srReadDone r
    \<and> all_pcs (\<lambda>p. \<not> starting p \<and> \<not> past_drain p) (srThreads r)"

lemma method_step_threads: "method_step r p oc = Some (p', s) \<Longrightarrow> srThreads s = srThreads r"
proof (elim method_step_cases)
  assume "Call r p oc = Some (p', s)"
  then show ?thesis by (elim Call_cases) (auto simp: call_leave_def)
qed (simp add: core_def)

lemma halted_step:
  assumes h: "halted rd r" and st: "sr_step derr a r = Some r'" and a: "\<forall>t. a \<noteq> Invoke t DoStart"
    and rl: "readLoop r = None"
  shows "halted rd r'"
proof (cases a)
  case (Step t oc)
  with st obtain p f p' s where t: "srThreads r t = Some (p, f)" and m: "method_step r p oc = Some (p', s)"
    and r': "r' = s\<lparr>srThreads := (srThreads s)(t \<mapsto> resume derr p' f)\<rparr>"
    by (auto split: option.splits)
  have "\<not> srReadDone r" "\<not> starting p" "\<not> past_drain p"
    using h t by (auto simp: halted_def dest: all_pcsD)
  from method_step_quiet [OF m this(1,3)] this(2) h show ?thesis by (auto simp: r' halted_def)
qed (use h st a rl in \<open>auto simp: halted_def split: if_splits\<close>)

lemma halted_stop_stays:
  assumes "halted rd r" "sr_step derr a r = Some r'" "srThreads r t = Some (StopDrain, f)"
  shows "srThreads r' t = Some (StopDrain, f)"
  by (rule thread_stays [OF assms(3) _ assms(2) method_step_threads])
    (use assms(1) in \<open>auto simp: halted_def method_step_def\<close>)

text \<open>C30. When the process cannot be started, \<^verbatim>\<open>Stop\<close> never returns:
  \<^verbatim>\<open>Start\<close> reports the error without having started the read loop, and a \<^verbatim>\<open>Stop\<close> after it, which is
  what the pool does with the error, waits for that loop in every continuation.\<close>

theorem failed_spawn_hangs_stop:
  assumes "sr_exec derr ([Invoke 0 DoStart, Step 0 Go, Step 0 Go, Step 0 Go, Step 0 (Fails e),
      Invoke 1 DoStop, Step 1 Go, Step 1 Go] @ xs) (NewStdioRunner cmd info) = Some r"
    "\<forall>t. Invoke t DoStart \<notin> set xs"
  shows "srThreads r 0 = Some (StartReturn (Inl (''start: '' @ e)), StartCall)
    \<and> srThreads r 1 = Some (StopDrain, Direct)
    \<and> (\<forall>oc. sr_step derr (Step 1 oc) r = None)"
proof -
  let ?P = "\<lambda>s. halted NoReader s \<and> srThreads s 1 = Some (StopDrain, Direct)
    \<and> srThreads s 0 = Some (StartReturn (Inl (''start: '' @ e)), StartCall)"
  from assms(1) obtain s where s: "sr_exec derr [Invoke 0 DoStart, Step 0 Go, Step 0 Go, Step 0 Go,
      Step 0 (Fails e), Invoke 1 DoStop, Step 1 Go, Step 1 Go] (NewStdioRunner cmd info) = Some s"
    and xs: "sr_exec derr xs s = Some r"
    unfolding sr_exec_append by (auto split: option.splits)
  from s have "?P s"
    by (auto simp: NewStdioRunner_def method_step_def Let_def halted_def starting_def past_drain_def)
  then have "?P r"
  proof (rule sr_exec_invariant [where P = ?P, OF _ xs], elim conjE)
    fix a u u'
    assume h: "halted NoReader u" and st: "sr_step derr a u = Some u'" and a: "a \<in> set xs"
      and one: "srThreads u 1 = Some (StopDrain, Direct)"
      and zero: "srThreads u 0 = Some (StartReturn (Inl (''start: '' @ e)), StartCall)"
    have "readLoop u = None" using h by (simp add: halted_def readLoop_def)
    then have "halted NoReader u'" using halted_step [OF h st] a assms(2) by blast
    moreover have "srThreads u' 0 = Some (StartReturn (Inl (''start: '' @ e)), StartCall)"
      by (rule thread_stays [OF zero _ st method_step_threads]) (simp_all add: method_step_def)
    ultimately show "?P u'" using halted_stop_stays [OF h st one] by blast
  qed
  then show ?thesis by (auto simp: halted_def method_step_def)
qed


text \<open>How far a \<^verbatim>\<open>Stop\<close> that waits for the read loop is from its return.\<close>

fun stop_left :: "pc \<Rightarrow> nat option" where
  "stop_left StopDrain = Some 3"
| "stop_left StopWait = Some 2"
| "stop_left StopKilled = Some 1"
| "stop_left (StopReturn _) = Some 0"
| "stop_left _ = None"

fun is_step :: "nat \<Rightarrow> action \<Rightarrow> bool" where
  "is_step t (Step t' _) = (t' = t)"
| "is_step t _ = False"

lemma stop_left_step:
  assumes "method_step r p oc = Some (p', r')" "stop_left p = Some n"
  shows "\<exists>m. stop_left p' = Some m \<and> m < n"
  using assms by (cases p) (auto simp: method_step_def split: if_splits outcome.splits)

lemma read_done_step:
  assumes "srReadDone r" "sr_step derr a r = Some r'"
  shows "srReadDone r'"
proof (cases a)
  case (Step t oc)
  with assms obtain p f p' s where m: "method_step r p oc = Some (p', s)"
    "r' = s\<lparr>srThreads := (srThreads s)(t \<mapsto> resume derr p' f)\<rparr>"
    by (auto split: option.splits)
  have "Call r p oc = Some (p', s) \<Longrightarrow> srReadDone s = srReadDone r"
    by (elim Call_cases) (auto simp: call_leave_def call_begin_def Let_def split: if_splits dest!: writeLine_frame)
  moreover have "Notify r p oc = Some (p', s) \<Longrightarrow> srReadDone s = srReadDone r"
    by (induction r p oc rule: Notify.induct) (auto split: if_splits option.splits dest!: writeLine_frame)
  moreover have "Stop r p oc = Some (p', s) \<Longrightarrow> srReadDone s = srReadDone r"
    by (induction r p oc rule: Stop.induct) (auto split: if_splits outcome.splits)
  moreover have "Start r p oc = Some (p', s) \<Longrightarrow> srReadDone s = srReadDone r"
    by (induction r p oc rule: Start.induct) (auto simp: Let_def split: outcome.splits)
  ultimately have "srReadDone s = srReadDone r"
    using m(1) by (auto simp: method_step_def split: option.splits)
  with m assms(1) show ?thesis by simp
next
  case ReadLoop
  with assms show ?thesis
    by (auto simp: readLoop_def read_line_def drain_def split: reader.splits token.splits option.splits if_splits)
qed (use assms in \<open>auto split: if_splits\<close>)

lemma stop_left_exec:
  assumes "sr_exec derr xs r = Some r'" "srReadDone r" "srThreads r t = Some (p, Direct)"
    "stop_left p = Some n"
  shows "srReadDone r' \<and> (\<exists>p' m. srThreads r' t = Some (p', Direct) \<and> stop_left p' = Some m
    \<and> m + length (filter (is_step t) xs) \<le> n)"
  using assms
proof (induction xs arbitrary: r p n)
  case (Cons a xs)
  from Cons.prems(1) obtain s where s: "sr_step derr a r = Some s" "sr_exec derr xs s = Some r'"
    by (auto split: option.splits)
  note rd = read_done_step [OF Cons.prems(2) s(1)]
  show ?case
  proof (cases "is_step t a")
    case True
    then obtain oc where a: "a = Step t oc" by (cases a) auto
    with s(1) Cons.prems(3) obtain q u where q: "method_step r p oc = Some (q, u)"
      "s = u\<lparr>srThreads := (srThreads u)(t \<mapsto> resume derr q Direct)\<rparr>"
      by (auto split: option.splits)
    from stop_left_step [OF q(1) Cons.prems(4)] obtain m where m: "stop_left q = Some m" "m < n" by blast
    have "srThreads s t = Some (q, Direct)" using m(1) q(2) by (cases q) auto
    from Cons.IH [OF s(2) rd this m(1)] True m(2) show ?thesis by fastforce
  next
    case False
    have "srThreads s t = Some (p, Direct)"
    proof (cases a)
      case (Step t' oc)
      with False s(1) Cons.prems(3) method_step_threads show ?thesis by (auto split: option.splits)
    next
      case ReadLoop
      with s(1) Cons.prems(3) readLoop_id show ?thesis by auto
    qed (use s(1) Cons.prems(3) in \<open>auto split: if_splits\<close>)
    from Cons.IH [OF s(2) rd this Cons.prems(4)] False show ?thesis by simp
  qed
qed simp



lemma method_step_reader:
  assumes "method_step r p oc = Some (p', r')" "\<not> starting p"
  shows "srReader r' = srReader r \<and> \<not> starting p'"
proof -
  have "Call r p oc = Some (p', r') \<Longrightarrow> ?thesis"
    by (elim Call_cases) (auto simp: call_leave_def starting_def)
  moreover have "Notify r p oc = Some (p', r') \<Longrightarrow> ?thesis"
    by (induction r p oc rule: Notify.induct)
      (auto simp: starting_def split: if_splits option.splits dest!: writeLine_frame)
  moreover have "Stop r p oc = Some (p', r') \<Longrightarrow> ?thesis"
    by (induction r p oc rule: Stop.induct) (auto simp: starting_def split: if_splits outcome.splits)
  moreover have "Start r p oc = Some (p', r') \<Longrightarrow> ?thesis"
    using assms(2) by (induction r p oc rule: Start.induct) (auto simp: starting_def)
  ultimately show ?thesis using assms(1) by (auto simp: method_step_def split: option.splits)
qed

text \<open>A call that begins after the output has ended is not told: once the read loop is done, a call
  that waits ends only when its own context does, although no response can come any more.\<close>

theorem call_after_close_waits:
  assumes "srReader r = Finished" "all_pcs (\<lambda>p. \<not> starting p) (srThreads r)"
    "srThreads r t = Some (CallWait i ch, f)" "srChans r ch = None" "ch < srNextChan r"
    "sr_exec derr xs r = Some r'" "\<forall>t. Invoke t DoStart \<notin> set xs" "\<forall>e. Step t (Cancelled e) \<notin> set xs"
  shows "srThreads r' t = Some (CallWait i ch, f) \<and> srChans r' ch = None"
proof -
  let ?P = "\<lambda>s. srReader s = Finished \<and> all_pcs (\<lambda>p. \<not> starting p) (srThreads s)
    \<and> srThreads s t = Some (CallWait i ch, f) \<and> srChans s ch = None \<and> ch < srNextChan s"
  have start: "?P r" using assms(1-5) by blast
  have "?P r'"
  proof (rule sr_exec_invariant [where P = ?P, OF start assms(6)], elim conjE)
    fix a u u'
    assume rd: "srReader u = Finished" and ns: "all_pcs (\<lambda>p. \<not> starting p) (srThreads u)"
      and t: "srThreads u t = Some (CallWait i ch, f)" and empty: "srChans u ch = None"
      and old: "ch < srNextChan u" and st: "sr_step derr a u = Some u'" and a: "a \<in> set xs"
    show "?P u'"
    proof (cases a)
      case (Step t' oc)
      with st obtain p g p' s where t': "srThreads u t' = Some (p, g)" and m: "method_step u p oc = Some (p', s)"
        and u': "u' = s\<lparr>srThreads := (srThreads s)(t' \<mapsto> resume derr p' g)\<rparr>"
        by (auto split: option.splits)
      have "t' \<noteq> t"
        using t t' m empty a assms(8) Step by (auto simp: method_step_def split: outcome.splits)
      have p: "\<not> starting p" using ns t' by (auto dest: all_pcsD)
      from m have "srChans s ch = None \<and> ch < srNextChan s"
      proof (cases rule: method_step_cases)
        case quiet
        then show ?thesis using empty old by (simp add: core_def)
      next
        case call
        then show ?thesis
          by (cases rule: Call_cases) (use empty old in \<open>auto simp: call_leave_def\<close>)
      qed
      with \<open>t' \<noteq> t\<close> method_step_reader [OF m p] method_step_threads [OF m] rd ns t show ?thesis
        by (simp add: u')
    next
      case (Invoke t' m)
      then have "m \<noteq> DoStart" using assms(7) a by blast
      with Invoke st rd ns t empty old show ?thesis by (auto split: if_splits)
    next
      case ReadLoop
      with st rd show ?thesis by (simp add: readLoop_def)
    qed (use st rd ns t empty old in \<open>auto split: if_splits\<close>)
  qed
  then show ?thesis by blast
qed


section \<open>The environment of the process\<close>

definition spawning :: "pc \<Rightarrow> bool" where
  "spawning p \<longleftrightarrow> p = StartStdout \<or> p = StartStderr \<or> p = StartSpawn"

lemma spawning_simps [simp]:
  "spawning (fst (resume derr p f)) = spawning p" "spawning (fst (entry m)) = False"
proof -
  show "spawning (fst (resume derr p f)) = spawning p"
    by (induction derr p f rule: resume.induct)
      (auto simp: spawning_def split: option.splits prod.splits bool.splits)
  show "spawning (fst (entry m)) = False" by (cases m) (simp_all add: spawning_def)
qed

definition env_set :: "Cmd \<Rightarrow> StdioRunner \<Rightarrow> bool" where
  "env_set cmd r \<longleftrightarrow> cmdEnv (srCmd r) = cmdEnv (default_env cmd)"

definition env_ok :: "Cmd \<Rightarrow> StdioRunner \<Rightarrow> bool" where
  "env_ok cmd r \<longleftrightarrow> env_set cmd r
    \<or> cmdEnv (srCmd r) = cmdEnv cmd \<and> srProc r = NotStarted \<and> all_pcs (\<lambda>p. \<not> spawning p) (srThreads r)"

lemma method_step_env:
  assumes "method_step r p oc = Some (p', r')"
  shows "(env_set cmd r \<longrightarrow> env_set cmd r')
    \<and> (cmdEnv (srCmd r) = cmdEnv cmd \<and> \<not> spawning p \<longrightarrow> env_set cmd r'
        \<or> cmdEnv (srCmd r') = cmdEnv cmd \<and> srProc r' = srProc r \<and> \<not> spawning p')"
proof -
  have "Call r p oc = Some (p', r') \<Longrightarrow> ?thesis"
    by (elim Call_cases) (auto simp: call_leave_def spawning_def env_set_def)
  moreover have "Notify r p oc = Some (p', r') \<Longrightarrow> ?thesis"
    by (induction r p oc rule: Notify.induct)
      (auto simp: spawning_def env_set_def split: if_splits option.splits dest!: writeLine_frame)
  moreover have "Stop r p oc = Some (p', r') \<Longrightarrow> ?thesis"
    by (induction r p oc rule: Stop.induct)
      (auto simp: spawning_def env_set_def split: if_splits outcome.splits)
  moreover have "Start r p oc = Some (p', r') \<Longrightarrow> ?thesis"
    by (induction r p oc rule: Start.induct)
      (auto simp: Let_def spawning_def env_set_def default_env_def split: if_splits outcome.splits option.splits)
  ultimately show ?thesis using assms by (auto simp: method_step_def split: option.splits)
qed

lemma env_ok_step:
  assumes inv: "env_ok cmd r" and st: "sr_step derr a r = Some r'"
  shows "env_ok cmd r'"
proof (cases a)
  case (Step t oc)
  with st obtain p f p' s where t: "srThreads r t = Some (p, f)" and m: "method_step r p oc = Some (p', s)"
    and r': "r' = s\<lparr>srThreads := (srThreads s)(t \<mapsto> resume derr p' f)\<rparr>"
    by (auto split: option.splits)
  have "env_set cmd s \<or> cmdEnv (srCmd s) = cmdEnv cmd \<and> srProc s = NotStarted
      \<and> all_pcs (\<lambda>p. \<not> spawning p) (srThreads r) \<and> \<not> spawning p'"
    using inv t method_step_env [OF m, of cmd] by (auto simp: env_ok_def dest: all_pcsD)
  then show ?thesis
    using method_step_threads [OF m] by (auto simp: r' env_ok_def env_set_def)
next
  case ReadLoop
  with st inv show ?thesis
    by (auto simp: env_ok_def env_set_def readLoop_def read_line_def drain_def
        split: reader.splits token.splits option.splits if_splits)
qed (use inv st in \<open>auto simp: env_ok_def env_set_def split: if_splits\<close>)

text \<open>The process never inherits the server's environment: whenever it runs, its command carries an
  explicit environment, the configured one or an empty one.\<close>

theorem spawned_environment_explicit:
  assumes "sr_exec derr xs (NewStdioRunner cmd info) = Some r" "srProc r \<noteq> NotStarted"
  shows "cmdEnv (srCmd r) = Some (case cmdEnv cmd of None \<Rightarrow> [] | Some e \<Rightarrow> e)"
proof -
  have "env_ok cmd (NewStdioRunner cmd info)" by (simp add: env_ok_def NewStdioRunner_def)
  then have "env_ok cmd r"
    by (rule sr_exec_invariant [where P = "env_ok cmd", OF _ assms(1)]) (rule env_ok_step)
  with assms(2) show ?thesis by (simp add: env_ok_def env_set_def default_env_def)
qed

end
