(* ===== verification/StdioStderr.thy ===== *)
theory StdioStderr
  imports StdioRunner
begin

text \<open>
  \<^verbatim>\<open>forwardStderr\<close> of \<^verbatim>\<open>stdio_runner.go\<close>: what is logged of all a process writes to its
  standard error, and what is left in the pipe when the goroutine ends. Its scanner keeps the default
  limit of \<^verbatim>\<open>bufio\<close>, unlike the one of \<^verbatim>\<open>readLoop\<close>.
\<close>

definition MaxScanTokenSize :: nat where
  "MaxScanTokenSize = 64 * 1024"

lemma scan_line_shorter: "scan_line n e out = Token l rest \<Longrightarrow> length rest < length out"
  by (auto simp: scan_line_def Let_def split: if_splits)

function forwardStderr :: "bytes \<Rightarrow> bytes list \<times> bytes" where
  "forwardStderr out =
    (case scan_line MaxScanTokenSize True out of
       Token l rest \<Rightarrow> (let (ls, left) = forwardStderr rest in (l # ls, left))
     | _ \<Rightarrow> ([], out))"
  by pat_completeness auto

termination
  by (relation "measure length") (auto dest: scan_line_shorter)

declare forwardStderr.simps [simp del]

lemma forwardStderr_line:
  assumes "CHR 0x0A \<notin> set l" "length l < MaxScanTokenSize"
  shows "forwardStderr (l @ CHR 0x0A # out)
    = (dropCR l # fst (forwardStderr out), snd (forwardStderr out))"
proof -
  have "takeWhile (\<lambda>c. c \<noteq> CHR 0x0A) (l @ CHR 0x0A # out) = l"
    using assms(1) by (auto intro: takeWhile_tail [THEN trans])
  with assms(2) have "scan_line MaxScanTokenSize True (l @ CHR 0x0A # out) = Token (dropCR l) out"
    by (simp add: scan_line_def Let_def)
  then show ?thesis
    by (simp add: forwardStderr.simps [of "l @ CHR 0x0A # out"] case_prod_beta)
qed

lemma forwardStderr_lines:
  assumes "\<forall>l \<in> set ls. CHR 0x0A \<notin> set l \<and> length l < MaxScanTokenSize"
  shows "forwardStderr (concat (map (\<lambda>l. l @ [CHR 0x0A]) ls) @ out)
    = (map dropCR ls @ fst (forwardStderr out), snd (forwardStderr out))"
  using assms by (induction ls) (simp_all add: forwardStderr_line)

text \<open>Every line is logged, in order, as long as the lines are short; the first long one ends the
  goroutine, and whatever the process writes from there on stays in the pipe, which no one reads.\<close>

lemma forwardStderr_ends:
  assumes "\<forall>l \<in> set ls. CHR 0x0A \<notin> set l \<and> length l < MaxScanTokenSize"
    "MaxScanTokenSize \<le> length l" "CHR 0x0A \<notin> set l"
  shows "forwardStderr (concat (map (\<lambda>l. l @ [CHR 0x0A]) ls) @ l @ out) = (map dropCR ls, l @ out)"
proof -
  have "length l \<le> length (takeWhile (\<lambda>c. c \<noteq> CHR 0x0A) (l @ out))"
    using assms(3) by (subst takeWhile_append2) auto
  then have "scan_line MaxScanTokenSize True (l @ out) = TooLong"
    using assms(2) by (simp add: scan_line_def Let_def)
  then have "forwardStderr (l @ out) = ([], l @ out)" by (simp add: forwardStderr.simps [of "l @ out"])
  with forwardStderr_lines [OF assms(1), of "l @ out"] show ?thesis by simp
qed

lemma forwardStderr_all:
  assumes "\<forall>l \<in> set ls. CHR 0x0A \<notin> set l \<and> length l < MaxScanTokenSize"
  shows "forwardStderr (concat (map (\<lambda>l. l @ [CHR 0x0A]) ls)) = (map dropCR ls, [])"
  using forwardStderr_lines [OF assms, of "[]"]
  by (simp add: forwardStderr.simps [of "[]"] scan_line_def MaxScanTokenSize_def)

end
