(* ===== verification/Sha256.thy ===== *)
theory Sha256
  imports D8aPrelude "HOL-Library.Word"
begin

text \<open>
  \<^verbatim>\<open>sha256.Sum256\<close> (FIPS 180-4) on bytes, and the hexadecimal coding of
  \<^verbatim>\<open>encoding/hex\<close>: the parts of the standard library API keys rest on.
\<close>

unbundle bit_operations_syntax

section \<open>The compression function\<close>

type_synonym u32 = "32 word"

text \<open>
  The constants are the first 32 bits of the fractional parts of the cube roots of the first 64
  primes and of the square roots of the first eight. \<open>floor_root k n b r\<close> finds the integral
  root bit by bit.
\<close>

fun floor_root :: "nat \<Rightarrow> nat \<Rightarrow> nat \<Rightarrow> nat \<Rightarrow> nat" where
  "floor_root k n 0 r = r"
| "floor_root k n (Suc b) r = floor_root k n b (if (r + 2 ^ b) ^ k \<le> n then r + 2 ^ b else r)"

definition sha_primes :: "nat list" where
  "sha_primes =
    [2, 3, 5, 7, 11, 13, 17, 19, 23, 29, 31, 37, 41, 43, 47, 53,
     59, 61, 67, 71, 73, 79, 83, 89, 97, 101, 103, 107, 109, 113, 127, 131,
     137, 139, 149, 151, 157, 163, 167, 173, 179, 181, 191, 193, 197, 199, 211, 223,
     227, 229, 233, 239, 241, 251, 257, 263, 269, 271, 277, 281, 283, 293, 307, 311]"

definition sha_K :: "u32 list" where
  "sha_K = map (\<lambda>p. word_of_nat (floor_root 3 (p * 2 ^ 96) 35 0)) sha_primes"

definition sha_H0 :: "u32 list" where
  "sha_H0 = map (\<lambda>p. word_of_nat (floor_root 2 (p * 2 ^ 64) 35 0)) (take 8 sha_primes)"

definition rotr :: "nat \<Rightarrow> u32 \<Rightarrow> u32" where
  "rotr n x = (drop_bit n x OR push_bit (32 - n) x)"

definition big_sigma0 :: "u32 \<Rightarrow> u32" where
  "big_sigma0 x = rotr 2 x XOR rotr 13 x XOR rotr 22 x"

definition big_sigma1 :: "u32 \<Rightarrow> u32" where
  "big_sigma1 x = rotr 6 x XOR rotr 11 x XOR rotr 25 x"

definition small_sigma0 :: "u32 \<Rightarrow> u32" where
  "small_sigma0 x = rotr 7 x XOR rotr 18 x XOR drop_bit 3 x"

definition small_sigma1 :: "u32 \<Rightarrow> u32" where
  "small_sigma1 x = rotr 17 x XOR rotr 19 x XOR drop_bit 10 x"

text \<open>
  The message schedule, newest word first, from the block's sixteen words in the same order.
\<close>

fun sha_schedule :: "nat \<Rightarrow> u32 list \<Rightarrow> u32 list" where
  "sha_schedule 0 ws = ws"
| "sha_schedule (Suc n) ws =
    sha_schedule n
      ((small_sigma1 (ws ! 1) + ws ! 6 + small_sigma0 (ws ! 14) + ws ! 15) # ws)"

fun sha_round :: "u32 \<times> u32 \<Rightarrow> u32 list \<Rightarrow> u32 list" where
  "sha_round (k, w) [a, b, c, d, e, f, g, h] =
    (let t1 = h + big_sigma1 e + ((e AND f) XOR (NOT e AND g)) + k + w;
         t2 = big_sigma0 a + ((a AND b) XOR (a AND c) XOR (b AND c))
     in [t1 + t2, a, b, c, d + t1, e, f, g])"
| "sha_round _ st = st"

definition sha_block :: "u32 list \<Rightarrow> u32 list \<Rightarrow> u32 list" where
  "sha_block block st =
    map2 (+) st (fold sha_round (zip sha_K (rev (sha_schedule 48 (rev block)))) st)"

section \<open>Padding and output\<close>

definition be32 :: "bytes \<Rightarrow> u32" where
  "be32 s = word_of_nat (foldl (\<lambda>a c. a * 256 + byte_of c) 0 s)"

definition be32_bytes :: "u32 \<Rightarrow> bytes" where
  "be32_bytes w = map (\<lambda>i. char_of (unat (drop_bit (8 * i) w) mod 256)) [3, 2, 1, 0]"

function chunks :: "nat \<Rightarrow> 'a list \<Rightarrow> 'a list list" where
  "chunks n s = (if s = [] \<or> n = 0 then [] else take n s # chunks n (drop n s))"
  by pat_completeness auto
termination by (relation "measure (\<lambda>(n, s). length s)") auto

declare chunks.simps [simp del]

definition sha_pad :: "bytes \<Rightarrow> bytes" where
  "sha_pad s =
    (let l = length s in
     s @ CHR 0x80 # replicate ((119 - l mod 64) mod 64) (CHR 0x00)
       @ map (\<lambda>i. char_of (8 * l div 256 ^ i mod 256)) [7, 6, 5, 4, 3, 2, 1, 0])"

definition Sum256 :: "bytes \<Rightarrow> bytes" where
  "Sum256 s =
    concat (map be32_bytes
      (fold (\<lambda>b. sha_block (map be32 (chunks 4 b))) (chunks 64 (sha_pad s)) sha_H0))"

lemma length_sha_round: "length st = 8 \<Longrightarrow> length (sha_round kw st) = 8"
  by (cases kw; cases "(kw, st)" rule: sha_round.cases) (auto simp: Let_def)

lemma length_sha_rounds: "length st = 8 \<Longrightarrow> length (fold sha_round kws st) = 8"
  by (induction kws arbitrary: st) (auto simp: length_sha_round)

lemma length_sha_block: "length st = 8 \<Longrightarrow> length (sha_block b st) = 8"
  by (simp add: sha_block_def length_sha_rounds)

lemma length_sha_blocks: "length st = 8 \<Longrightarrow> length (fold (\<lambda>b. sha_block (f b)) bs st) = 8"
  by (induction bs arbitrary: st) (auto simp: length_sha_block)

lemma length_concat_const: "\<forall>x \<in> set xs. length (f x) = n \<Longrightarrow> length (concat (map f xs)) = n * length xs"
  by (induction xs) auto

lemma length_Sum256 [simp]: "length (Sum256 s) = 32"
proof -
  have "length sha_H0 = 8" by (simp add: sha_H0_def sha_primes_def)
  then have "length (fold (\<lambda>b. sha_block (map be32 (chunks 4 b))) (chunks 64 (sha_pad s)) sha_H0) = 8"
    by (rule length_sha_blocks)
  moreover have "\<forall>w. length (be32_bytes w) = 4" by (simp add: be32_bytes_def)
  ultimately show ?thesis by (simp add: Sum256_def length_concat_const [where n = 4])
qed

section \<open>Hexadecimal\<close>

definition hex_digit :: "nat \<Rightarrow> char" where
  "hex_digit n = ''0123456789abcdef'' ! n"

definition hex_EncodeToString :: "bytes \<Rightarrow> bytes" where
  "hex_EncodeToString s =
    concat (map (\<lambda>c. [hex_digit (byte_of c div 16), hex_digit (byte_of c mod 16)]) s)"

text \<open>\<^verbatim>\<open>hex.DecodeString\<close>; \<open>None\<close> is its error (a bad digit or an odd length).\<close>

fun hex_DecodeString :: "bytes \<Rightarrow> bytes option" where
  "hex_DecodeString [] = Some []"
| "hex_DecodeString [_] = None"
| "hex_DecodeString (a # b # s) =
    (case (hex_val a, hex_val b, hex_DecodeString s) of
       (Some x, Some y, Some t) \<Rightarrow> Some (char_of (x * 16 + y) # t)
     | _ \<Rightarrow> None)"

lemma hex_val_digit:
  assumes "n < 16"
  shows "hex_val (hex_digit n) = Some n"
proof -
  from assms have "n \<in> {0, 1, 2, 3, 4, 5, 6, 7, 8, 9, 10, 11, 12, 13, 14, 15}" by (simp, arith)
  then show ?thesis by (elim insertE) (simp_all add: hex_digit_def hex_val_def)
qed

lemma hex_roundtrip [simp]: "hex_DecodeString (hex_EncodeToString s) = Some s"
proof (induction s)
  case (Cons c s)
  have "byte_of c < 256" by simp
  then have "byte_of c div 16 < 16" by linarith
  with Cons show ?case
    by (simp add: hex_EncodeToString_def hex_val_digit)
qed (simp add: hex_EncodeToString_def)

lemma length_hex [simp]: "length (hex_EncodeToString s) = 2 * length s"
  by (induction s) (auto simp: hex_EncodeToString_def)

end
