(* ===== verification/Auth.thy ===== *)
theory Auth
  imports Sha256
begin

text \<open>
  \<^verbatim>\<open>auth.go\<close>: identities, API keys and the validator over a static key list. The
  \<^verbatim>\<open>Validator\<close> interface is the locale \<open>token_validator\<close>: a credential store
  whose tokens are bound to audiences. \<^verbatim>\<open>subtle.ConstantTimeCompare\<close> returns 1
  exactly on equal byte strings, so it is equality here; its timing is not modelled.
\<close>

section \<open>Keys and identities\<close>

record Identity =
  idSubject :: bytes
  idScopes :: "bytes list"

record APIKey =
  keyTokenHashHex :: bytes
  keyAudience :: bytes
  keySubject :: bytes
  keyScopes :: "bytes list"

record APIKeyValidator =
  vKeys :: "APIKey list"
  vDecoded :: "bytes list"

text \<open>The loop of the constructor: the decoded hashes, or the index of the first bad key.\<close>

fun decode_keys :: "nat \<Rightarrow> APIKey list \<Rightarrow> nat + bytes list" where
  "decode_keys i [] = Inr []"
| "decode_keys i (k # ks) =
    (case hex_DecodeString (keyTokenHashHex k) of
       None \<Rightarrow> Inl i
     | Some raw \<Rightarrow>
         if length raw \<noteq> 32 then Inl i
         else case decode_keys (Suc i) ks of Inl e \<Rightarrow> Inl e | Inr ds \<Rightarrow> Inr (raw # ds))"

definition apikey_error :: "nat \<Rightarrow> bytes" where
  "apikey_error i = ''apikey['' @ FormatInt (int i)
     @ '']: invalid tokenHashHex (must be 64 hex chars of SHA-256)''"

definition NewAPIKeyValidator :: "APIKey list \<Rightarrow> bytes + APIKeyValidator" where
  "NewAPIKeyValidator keys =
    (case decode_keys 0 keys of
       Inl i \<Rightarrow> Inl (apikey_error i)
     | Inr decoded \<Rightarrow> Inr \<lparr>vKeys = keys, vDecoded = decoded\<rparr>)"

definition HashToken :: "bytes \<Rightarrow> bytes" where
  "HashToken token = hex_EncodeToString (Sum256 token)"

text \<open>The loop of \<^verbatim>\<open>Validate\<close> over every key: the first match is kept.\<close>

fun validate_loop ::
    "bytes \<Rightarrow> bytes \<Rightarrow> (APIKey \<times> bytes) list \<Rightarrow> APIKey option \<Rightarrow> APIKey option" where
  "validate_loop presented audience [] match = match"
| "validate_loop presented audience ((k, d) # ks) match =
    (let hashEq = (presented = d); audEq = (audience = keyAudience k) in
     validate_loop presented audience ks
       (if hashEq \<and> audEq \<and> match = None then Some k else match))"

text \<open>\<open>None\<close> is the one error, \<^verbatim>\<open>ErrInvalidToken\<close>.\<close>

definition Validate :: "APIKeyValidator \<Rightarrow> bytes \<Rightarrow> bytes \<Rightarrow> Identity option" where
  "Validate v token audience =
    (if token = [] \<or> audience = [] then None
     else map_option (\<lambda>k. \<lparr>idSubject = keySubject k, idScopes = keyScopes k\<rparr>)
       (validate_loop (Sum256 token) audience (zip (vKeys v) (vDecoded v)) None))"

section \<open>The contract of a validator\<close>

text \<open>
  A validator holds credentials; each is bound to one audience and speaks for one identity.
\<close>

locale token_validator =
  fixes validate :: "'v \<Rightarrow> bytes \<Rightarrow> bytes \<Rightarrow> Identity option"
    and holds :: "'v \<Rightarrow> bytes \<Rightarrow> bytes \<Rightarrow> Identity \<Rightarrow> bool"
  assumes rejects_empty: "validate v [] aud = None" "validate v tok [] = None"
    and accepts_held: "validate v tok aud = Some i \<Longrightarrow> holds v tok aud i"
    and held_accepted: "tok \<noteq> [] \<Longrightarrow> aud \<noteq> [] \<Longrightarrow> holds v tok aud i \<Longrightarrow> validate v tok aud \<noteq> None"
begin

text \<open>A credential store that holds nothing for an audience accepts nothing there.\<close>

lemma no_replay: "(\<And>t i. \<not> holds v t aud i) \<Longrightarrow> validate v tok aud = None"
  by (cases "validate v tok aud") (auto dest: accepts_held)

lemma accepted_nonempty: "validate v tok aud = Some i \<Longrightarrow> tok \<noteq> [] \<and> aud \<noteq> []"
  using rejects_empty by (cases "tok = []"; cases "aud = []") auto

lemma accepts_iff:
  "validate v tok aud \<noteq> None \<longleftrightarrow> tok \<noteq> [] \<and> aud \<noteq> [] \<and> (\<exists>i. holds v tok aud i)"
  using accepted_nonempty accepts_held held_accepted by blast

end

section \<open>The API-key validator meets it\<close>

definition holds_key :: "APIKeyValidator \<Rightarrow> bytes \<Rightarrow> bytes \<Rightarrow> Identity \<Rightarrow> bool" where
  "holds_key v tok aud i \<longleftrightarrow>
    (\<exists>(k, d) \<in> set (zip (vKeys v) (vDecoded v)).
       d = Sum256 tok \<and> keyAudience k = aud \<and> i = \<lparr>idSubject = keySubject k, idScopes = keyScopes k\<rparr>)"

lemma validate_loop_Some: "validate_loop h aud ks (Some k) = Some k"
  by (induction ks) auto

lemma validate_loop_find:
  "validate_loop h aud ks None
    = map_option fst (find (\<lambda>(k, d). h = d \<and> aud = keyAudience k) ks)"
  by (induction ks) (simp_all add: validate_loop_Some split: prod.split)

lemma find_SomeD: "find P xs = Some x \<Longrightarrow> x \<in> set xs \<and> P x"
  by (auto simp: find_Some_iff)

interpretation keys: token_validator Validate holds_key
proof unfold_locales
  fix v tok aud i
  assume "Validate v tok aud = Some i"
  then show "holds_key v tok aud i"
    by (fastforce simp: Validate_def validate_loop_find holds_key_def split: if_splits
        dest: find_SomeD)
next
  fix v tok aud i
  assume "tok \<noteq> []" "aud \<noteq> []" and "holds_key v tok aud i"
  then obtain k where "(k, Sum256 tok) \<in> set (zip (vKeys v) (vDecoded v))" "keyAudience k = aud"
    by (auto simp: holds_key_def)
  then have "find (\<lambda>(k, d). Sum256 tok = d \<and> aud = keyAudience k) (zip (vKeys v) (vDecoded v)) \<noteq> None"
    by (auto simp: find_None_iff)
  with \<open>tok \<noteq> []\<close> \<open>aud \<noteq> []\<close> show "Validate v tok aud \<noteq> None"
    by (simp add: Validate_def validate_loop_find)
qed (simp_all add: Validate_def)

subsection \<open>Construction\<close>

definition good_key :: "APIKey \<Rightarrow> bytes \<Rightarrow> bool" where
  "good_key k d \<longleftrightarrow> hex_DecodeString (keyTokenHashHex k) = Some d \<and> length d = 32"

lemma decode_keys_Inr: "decode_keys i ks = Inr ds \<longleftrightarrow> list_all2 good_key ks ds"
proof (induction ks arbitrary: i ds)
  case (Cons k ks)
  show ?case
  proof (cases ds)
    case ds: (Cons d ds')
    show ?thesis
      using Cons.IH [of "Suc i" ds'] unfolding ds
      by (cases "hex_DecodeString (keyTokenHashHex k)"; cases "decode_keys (Suc i) ks")
        (auto simp: good_key_def)
  qed (auto split: option.splits sum.splits)
qed auto

lemma decode_keys_Inl:
  "decode_keys i ks = Inl j \<Longrightarrow> i \<le> j \<and> j < i + length ks \<and> (\<nexists>d. good_key (ks ! (j - i)) d)"
proof (induction ks arbitrary: i)
  case (Cons k ks)
  show ?case
  proof (cases "\<exists>d. good_key k d")
    case True
    with Cons.prems have "decode_keys (Suc i) ks = Inl j"
      by (auto simp: good_key_def split: sum.splits)
    with Cons.IH [OF this] show ?thesis by (auto simp: nth_Cons')
  next
    case False
    with Cons.prems have "j = i"
      by (auto simp: good_key_def split: option.splits if_splits sum.splits)
    with False show ?thesis by simp
  qed
qed simp

lemma NewAPIKeyValidator_Inr:
  assumes "NewAPIKeyValidator ks = Inr v"
  shows "vKeys v = ks" "length (vDecoded v) = length ks"
    "\<And>i. i < length ks \<Longrightarrow> hex_DecodeString (keyTokenHashHex (ks ! i)) = Some (vDecoded v ! i)"
  using assms
  by (auto simp: NewAPIKeyValidator_def decode_keys_Inr good_key_def list_all2_conv_all_nth
      split: sum.splits)

lemma holds_key_of_keys:
  assumes "NewAPIKeyValidator ks = Inr v"
  shows "holds_key v tok aud i \<longleftrightarrow>
    (\<exists>k \<in> set ks. hex_DecodeString (keyTokenHashHex k) = Some (Sum256 tok) \<and> keyAudience k = aud
       \<and> i = \<lparr>idSubject = keySubject k, idScopes = keyScopes k\<rparr>)"
  using NewAPIKeyValidator_Inr [OF assms]
  by (fastforce simp: holds_key_def in_set_conv_nth)

section \<open>Properties\<close>


text \<open>The constructor accepts exactly the lists whose every hash decodes to 32 bytes.\<close>

theorem new_validator_accepts_iff:
  "(\<exists>v. NewAPIKeyValidator ks = Inr v) \<longleftrightarrow>
     (\<forall>i < length ks. \<exists>raw. hex_DecodeString (keyTokenHashHex (ks ! i)) = Some raw \<and> length raw = 32)"
proof
  assume "\<exists>v. NewAPIKeyValidator ks = Inr v"
  then obtain ds where "list_all2 good_key ks ds"
    by (auto simp: NewAPIKeyValidator_def decode_keys_Inr split: sum.splits)
  then show "\<forall>i < length ks. \<exists>raw. hex_DecodeString (keyTokenHashHex (ks ! i)) = Some raw
      \<and> length raw = 32"
    by (auto simp: good_key_def list_all2_conv_all_nth)
next
  assume "\<forall>i < length ks. \<exists>raw. hex_DecodeString (keyTokenHashHex (ks ! i)) = Some raw
      \<and> length raw = 32"
  then have "\<exists>ds. decode_keys 0 ks = Inr ds"
    using decode_keys_Inl [of 0 ks] by (cases "decode_keys 0 ks") (auto simp: good_key_def)
  then show "\<exists>v. NewAPIKeyValidator ks = Inr v" by (auto simp: NewAPIKeyValidator_def)
qed

text \<open>The tool and the server agree: a key whose hash is what \<^verbatim>\<open>HashToken\<close> printed
  for a token authenticates that token at the key's audience.\<close>

theorem hash_token_authenticates:
  assumes "NewAPIKeyValidator ks = Inr v" "k \<in> set ks" "keyTokenHashHex k = HashToken tok"
    and "tok \<noteq> []" "keyAudience k \<noteq> []"
  shows "Validate v tok (keyAudience k) \<noteq> None"
proof -
  have "holds_key v tok (keyAudience k) \<lparr>idSubject = keySubject k, idScopes = keyScopes k\<rparr>"
    unfolding holds_key_of_keys [OF assms(1)]
    using assms(2,3) by (intro bexI [of _ k]) (simp_all add: HashToken_def)
  then show ?thesis using assms(4,5) keys.held_accepted by blast
qed

end
