(* ===== verification/RunnerPool.thy ===== *)
theory RunnerPool
  imports World Auth
begin

text \<open>
  \<^verbatim>\<open>runner_pool.go\<close>: one backing MCP for everyone, or one per authenticated subject.
  Each method is a step on the pool and the world; the parts of a method run under the pool's lock
  and the start of an instance under its \<^verbatim>\<open>sync.Once\<close> are taken as one step here. The nil
  pool of the methods that accept one is \<open>None\<close>. Go ranges over a map in no fixed order; the
  order here is that of insertion.
\<close>

section \<open>The pool\<close>

definition zero_time :: time where
  "zero_time = - 62135596800 * Second"

record pooledInstance =
  piRunner :: runner_id
  piFired :: bool
  piStartErr :: "bytes option"
  piStarted :: bool
  piLastUsed :: time

record RunnerPool =
  poBackend :: Backend
  poShareSafe :: bool
  poInstances :: "pooledInstance gomap"
  poCachedCaps :: "ServerCapabilities option"
  poClosed :: bool

definition NewRunnerPool :: "Backend \<Rightarrow> bool \<Rightarrow> RunnerPool" where
  "NewRunnerPool backend shareSafe =
    \<lparr>poBackend = backend, poShareSafe = shareSafe, poInstances = [], poCachedCaps = None,
     poClosed = False\<rparr>"

definition sharedKey :: bytes where
  "sharedKey = ''__shared''"

definition PartitionKey :: "RunnerPool \<Rightarrow> Identity \<Rightarrow> bytes" where
  "PartitionKey p identity =
    (if poShareSafe p then sharedKey else ''subj:'' @ idSubject identity)"

definition new_instance :: "runner_id \<Rightarrow> pooledInstance" where
  "new_instance r = \<lparr>piRunner = r, piFired = False, piStartErr = None, piStarted = False,
     piLastUsed = zero_time\<rparr>"

definition pool_Start :: "Env \<Rightarrow> World \<Rightarrow> RunnerPool \<Rightarrow> bytes option \<times> RunnerPool \<times> World" where
  "pool_Start E w p =
    (case Build E w (poBackend p) of
       (Inl e, w) \<Rightarrow> (Some (''backend build: '' @ e), p, w)
     | (Inr r, w) \<Rightarrow>
       (case runner_Start E w r of
          (Inl e, w) \<Rightarrow> (Some (''warmup start: '' @ e), p, snd (runner_Stop E w r))
        | (Inr caps, w) \<Rightarrow>
          let p = p\<lparr>poCachedCaps := Some caps\<rparr> in
          if poShareSafe p
          then (None,
            p\<lparr>poInstances := map_set sharedKey
                ((new_instance r)\<lparr>piFired := True, piStarted := True\<rparr>) (poInstances p)\<rparr>, w)
          else (None, p, snd (runner_Stop E w r))))"

text \<open>
  \<^verbatim>\<open>RunnerFor\<close>: the part under the lock finds or builds the instance and notes its
  use; then the instance is started, once.
\<close>

definition find_or_build ::
    "Env \<Rightarrow> World \<Rightarrow> RunnerPool \<Rightarrow> bytes \<Rightarrow> (bytes + pooledInstance) \<times> World" where
  "find_or_build E w p key =
    (case map_of (poInstances p) key of
       Some inst \<Rightarrow> (Inr inst, w)
     | None \<Rightarrow>
       (case Build E w (poBackend p) of
          (Inl e, w) \<Rightarrow> (Inl (''backend build: '' @ e), w)
        | (Inr r, w) \<Rightarrow> (Inr (new_instance r), w)))"

definition start_once :: "Env \<Rightarrow> World \<Rightarrow> pooledInstance \<Rightarrow> pooledInstance \<times> World" where
  "start_once E w inst =
    (if piFired inst then (inst, w)
     else case runner_Start E w (piRunner inst) of
       (Inl e, w) \<Rightarrow> (inst\<lparr>piFired := True, piStartErr := Some e\<rparr>, w)
     | (Inr _, w) \<Rightarrow> (inst\<lparr>piFired := True, piStarted := True\<rparr>, w))"

definition RunnerFor ::
    "Env \<Rightarrow> World \<Rightarrow> RunnerPool option \<Rightarrow> Identity
      \<Rightarrow> (bytes + runner_id) \<times> RunnerPool option \<times> World" where
  "RunnerFor E w pool identity =
    (case pool of
       None \<Rightarrow> (Inl ''nil runner pool'', None, w)
     | Some p \<Rightarrow>
       let key = PartitionKey p identity in
       if poClosed p then (Inl ''runner pool closed'', Some p, w)
       else case find_or_build E w p key of
         (Inl e, w) \<Rightarrow> (Inl e, Some p, w)
       | (Inr inst, w) \<Rightarrow>
         let (now, w) = Now E w;
             (inst, w) = start_once E w (inst\<lparr>piLastUsed := now\<rparr>);
             p = p\<lparr>poInstances := map_set key inst (poInstances p)\<rparr> in
         (case piStartErr inst of
            Some e \<Rightarrow> (Inl e, Some p, w)
          | None \<Rightarrow> (Inr (piRunner inst), Some p, w)))"

definition Caps :: "RunnerPool option \<Rightarrow> ServerCapabilities option" where
  "Caps pool = (case pool of None \<Rightarrow> None | Some p \<Rightarrow> poCachedCaps p)"

definition pool_Size :: "RunnerPool option \<Rightarrow> nat" where
  "pool_Size pool = (case pool of None \<Rightarrow> 0 | Some p \<Rightarrow> length (poInstances p))"

fun stop_started :: "Env \<Rightarrow> World \<Rightarrow> pooledInstance list \<Rightarrow> World" where
  "stop_started E w [] = w"
| "stop_started E w (i # is) =
    stop_started E (if piStarted i then snd (runner_Stop E w (piRunner i)) else w) is"

definition EvictIdle ::
    "Env \<Rightarrow> World \<Rightarrow> RunnerPool option \<Rightarrow> time \<Rightarrow> nat \<times> RunnerPool option \<times> World" where
  "EvictIdle E w pool cutoff =
    (case pool of
       None \<Rightarrow> (0, None, w)
     | Some p \<Rightarrow>
       if poClosed p then (0, Some p, w)
       else
         let cold = (\<lambda>(key, inst). key \<noteq> sharedKey \<and> piLastUsed inst < cutoff);
             victims = filter cold (poInstances p);
             p = p\<lparr>poInstances := filter (\<lambda>e. \<not> cold e) (poInstances p)\<rparr> in
         (length victims, Some p, stop_started E w (map snd victims)))"

fun close_loop ::
    "Env \<Rightarrow> World \<Rightarrow> (bytes \<times> pooledInstance) list \<Rightarrow> bytes option \<Rightarrow> bytes option \<times> World" where
  "close_loop E w [] firstErr = (firstErr, w)"
| "close_loop E w ((key, inst) # is) firstErr =
    (if \<not> piStarted inst then close_loop E w is firstErr
     else let (err, w) = runner_Stop E w (piRunner inst) in
       close_loop E w is
         (case (err, firstErr) of
            (Some e, None) \<Rightarrow> Some (''stop '' @ key @ '': '' @ e)
          | _ \<Rightarrow> firstErr))"

definition pool_Close ::
    "Env \<Rightarrow> World \<Rightarrow> RunnerPool option \<Rightarrow> bytes option \<times> RunnerPool option \<times> World" where
  "pool_Close E w pool =
    (case pool of
       None \<Rightarrow> (None, None, w)
     | Some p \<Rightarrow>
       if poClosed p then (None, Some p, w)
       else
         let insts = poInstances p;
             p = p\<lparr>poClosed := True, poInstances := []\<rparr>;
             (err, w) = close_loop E w insts None in
         (err, Some p, w))"

section \<open>Histories of a pool\<close>

datatype pool_op = ForOp Identity | EvictOp time | CloseOp

text \<open>The history keeps who was handed which runner.\<close>

fun pool_step ::
    "Env \<Rightarrow> RunnerPool \<times> World \<times> (Identity \<times> runner_id) list \<Rightarrow> pool_op
      \<Rightarrow> RunnerPool \<times> World \<times> (Identity \<times> runner_id) list" where
  "pool_step E (p, w, h) (ForOp i) =
    (let (res, p', w') = RunnerFor E w (Some p) i in
     (the p', w', (case res of Inl _ \<Rightarrow> h | Inr r \<Rightarrow> (i, r) # h)))"
| "pool_step E (p, w, h) (EvictOp t) = (let (_, p', w') = EvictIdle E w (Some p) t in (the p', w', h))"
| "pool_step E (p, w, h) CloseOp = (let (_, p', w') = pool_Close E w (Some p) in (the p', w', h))"

definition pool_run ::
    "Env \<Rightarrow> RunnerPool \<Rightarrow> World \<Rightarrow> pool_op list \<Rightarrow> RunnerPool \<times> World \<times> (Identity \<times> runner_id) list" where
  "pool_run E p w ops = foldl (pool_step E) (p, w, []) ops"

section \<open>The invariant\<close>

text \<open>An instance kept in the pool has been started, once; it holds the error or runs.\<close>

definition starts :: "runner_id \<Rightarrow> trace \<Rightarrow> nat" where
  "starts r tr = length (filter (\<lambda>e. e = EvStart r) tr)"

lemma starts_simps [simp]:
  "starts r [] = 0"
  "starts r (e # tr) = (if e = EvStart r then Suc (starts r tr) else starts r tr)"
  by (simp_all add: starts_def)

lemma starts_0_iff: "starts r tr = 0 \<longleftrightarrow> EvStart r \<notin> set tr"
  by (induction tr) auto

definition inst_ok :: "World \<Rightarrow> pooledInstance \<Rightarrow> bool" where
  "inst_ok w i \<longleftrightarrow> piRunner i < wNext w \<and> piFired i \<and> (piStarted i \<longleftrightarrow> piStartErr i = None)
    \<and> EvStart (piRunner i) \<in> set (wTrace w) \<and> EvStop (piRunner i) \<notin> set (wTrace w)"

definition insts_ok :: "World \<Rightarrow> pooledInstance gomap \<Rightarrow> bool" where
  "insts_ok w m \<longleftrightarrow> wf_map m
    \<and> (\<forall>k i. map_of m k = Some i \<longrightarrow> inst_ok w i)
    \<and> (\<forall>k i k' i'. map_of m k = Some i \<longrightarrow> map_of m k' = Some i' \<longrightarrow> piRunner i = piRunner i'
         \<longrightarrow> k = k')"

text \<open>Everyone who was handed a runner: it is theirs, and it runs in the pool or was stopped.\<close>

definition handed_one ::
    "World \<Rightarrow> (Identity \<Rightarrow> bytes) \<Rightarrow> pooledInstance gomap \<Rightarrow> Identity \<Rightarrow> runner_id \<Rightarrow> bool" where
  "handed_one w key m i r \<longleftrightarrow> r < wNext w
    \<and> (\<forall>k inst. map_of m k = Some inst \<longrightarrow> piRunner inst = r \<longrightarrow> k = key i)
    \<and> (EvStop r \<in> set (wTrace w)
        \<or> (\<exists>inst. map_of m (key i) = Some inst \<and> piRunner inst = r \<and> piStarted inst))"

definition handed_ok ::
    "World \<Rightarrow> (Identity \<Rightarrow> bytes) \<Rightarrow> pooledInstance gomap \<Rightarrow> (Identity \<times> runner_id) list \<Rightarrow> bool" where
  "handed_ok w key m h \<longleftrightarrow>
    (\<forall>i r. (i, r) \<in> set h \<longrightarrow> handed_one w key m i r)
    \<and> (\<forall>i i' r. (i, r) \<in> set h \<longrightarrow> (i', r) \<in> set h \<longrightarrow> key i = key i')"

definition pool_inv :: "RunnerPool \<times> World \<times> (Identity \<times> runner_id) list \<Rightarrow> bool" where
  "pool_inv s \<longleftrightarrow>
    (let (p, w, h) = s in
     world_ok w \<and> (\<forall>r. starts r (wTrace w) \<le> 1) \<and> insts_ok w (poInstances p)
     \<and> (poClosed p \<longrightarrow> poInstances p = []) \<and> handed_ok w (PartitionKey p) (poInstances p) h)"

lemma PartitionKey_frame [simp]:
  "PartitionKey (p\<lparr>poInstances := m\<rparr>) = PartitionKey p"
  "PartitionKey (p\<lparr>poClosed := c\<rparr>) = PartitionKey p"
  by (simp_all add: fun_eq_iff PartitionKey_def)

lemma start_once_fired: "piFired i \<Longrightarrow> start_once E w i = (i, w)"
  by (simp add: start_once_def)

lemma start_once_unfired:
  "\<not> piFired i \<Longrightarrow> start_once E w i =
    (case envStart E (wTrace w) (piRunner i) of
       Inl e \<Rightarrow> i\<lparr>piFired := True, piStartErr := Some e\<rparr>
     | Inr _ \<Rightarrow> i\<lparr>piFired := True, piStarted := True\<rparr>, emit (EvStart (piRunner i)) w)"
  by (simp add: start_once_def runner_Start_def split: sum.splits)

lemma new_instance_sel [simp]:
  "piRunner (new_instance r) = r" "\<not> piFired (new_instance r)"
  "piStartErr (new_instance r) = None" "\<not> piStarted (new_instance r)"
  by (simp_all add: new_instance_def)

text \<open>A lookup in a sound pool: refused, or it finds its instance, or it builds one.\<close>

lemma RunnerFor_cases:
  assumes "insts_ok w (poInstances p)"
  obtains
    (refused) e where "RunnerFor E w (Some p) identity = (Inl e, Some p, w)"
  | (known) inst where "\<not> poClosed p" "map_of (poInstances p) (PartitionKey p identity) = Some inst"
      "RunnerFor E w (Some p) identity =
        ((case piStartErr inst of Some e \<Rightarrow> Inl e | None \<Rightarrow> Inr (piRunner inst)),
         Some (p\<lparr>poInstances := map_set (PartitionKey p identity) (inst\<lparr>piLastUsed := envClock E (wClock w)\<rparr>)
           (poInstances p)\<rparr>),
         w\<lparr>wClock := wClock w + 1\<rparr>)"
  | (fresh) c inst where "\<not> poClosed p" "map_of (poInstances p) (PartitionKey p identity) = None"
      "piRunner inst = wNext w" "piFired inst" "piStarted inst \<longleftrightarrow> piStartErr inst = None"
      "RunnerFor E w (Some p) identity =
        ((case piStartErr inst of Some e \<Rightarrow> Inl e | None \<Rightarrow> Inr (piRunner inst)),
         Some (p\<lparr>poInstances := map_set (PartitionKey p identity) inst (poInstances p)\<rparr>),
         w\<lparr>wClock := wClock w + 1, wNext := wNext w + 1,
           wTrace := EvStart (wNext w) # EvBuild (wNext w) c # wTrace w\<rparr>)"
proof (cases "poClosed p")
  case True
  then show thesis by (intro refused) (simp add: RunnerFor_def Let_def)
next
  case open_pool: False
  show thesis
  proof (cases "map_of (poInstances p) (PartitionKey p identity)")
    case (Some inst)
    with assms have "piFired inst" by (simp add: insts_ok_def inst_ok_def)
    with Some open_pool show thesis
      by (intro known [of inst]; cases "piStartErr inst")
        (simp_all add: RunnerFor_def find_or_build_def start_once_fired Now_def Let_def)
  next
    case None
    show thesis
    proof (cases rule: Build_cases [of E w "poBackend p"])
      case (err msg)
      with None open_pool show thesis
        by (intro refused) (simp add: RunnerFor_def find_or_build_def Let_def)
    next
      case (ok c)
      let ?w = "(emit (EvBuild (wNext w) c) (w\<lparr>wNext := wNext w + 1\<rparr>))\<lparr>wClock := wClock w + 1\<rparr>"
      let ?new = "(new_instance (wNext w))\<lparr>piLastUsed := envClock E (wClock w)\<rparr>"
      define inst where "inst = fst (start_once E ?w ?new)"
      have w': "snd (start_once E ?w ?new) = emit (EvStart (wNext w)) ?w"
        by (simp add: start_once_unfired)
      have so: "start_once E ?w ?new = (inst, emit (EvStart (wNext w)) ?w)"
        using w' by (simp only: inst_def prod_eq_iff fst_conv snd_conv)
      have i: "piRunner inst = wNext w" "piFired inst" "piStarted inst \<longleftrightarrow> piStartErr inst = None"
        by (simp_all add: inst_def start_once_unfired split: sum.splits)
      have "RunnerFor E w (Some p) identity =
        ((case piStartErr inst of Some e \<Rightarrow> Inl e | None \<Rightarrow> Inr (piRunner inst)),
         Some (p\<lparr>poInstances := map_set (PartitionKey p identity) inst (poInstances p)\<rparr>), emit (EvStart (wNext w)) ?w)"
        using None open_pool ok so
        by (cases "piStartErr inst")
          (simp_all add: RunnerFor_def find_or_build_def Now_def Let_def)
      also have "emit (EvStart (wNext w)) ?w = w\<lparr>wClock := wClock w + 1, wNext := wNext w + 1,
           wTrace := EvStart (wNext w) # EvBuild (wNext w) c # wTrace w\<rparr>"
        by (simp add: emit_def)
      finally show thesis by (rule fresh [OF open_pool None i])
    qed
  qed
qed

section \<open>Every operation keeps the invariant\<close>

lemma future_event: "world_ok w \<Longrightarrow> wNext w \<le> ev_runner e \<Longrightarrow> e \<notin> set (wTrace w)"
  unfolding world_ok_def by (meson leD)

lemma handed_ok_put:
  assumes ho: "handed_ok w key m h"
    and nx: "wNext w \<le> wNext w'"
    and tr: "\<And>r. EvStop r \<in> set (wTrace w) \<Longrightarrow> EvStop r \<in> set (wTrace w')"
    and old: "(\<exists>j. map_of m k = Some j \<and> piRunner j = piRunner inst \<and> piStarted j = piStarted inst)
      \<or> (map_of m k = None \<and> wNext w \<le> piRunner inst)"
  shows "handed_ok w' key (map_set k inst m) h"
proof -
  have "handed_one w' key (map_set k inst m) i r" if one: "handed_one w key m i r" for i r
    unfolding handed_one_def
  proof (intro conjI allI impI)
    show "r < wNext w'" using one nx by (simp add: handed_one_def)
    show "k' = key i" if "map_of (map_set k inst m) k' = Some j" "piRunner j = r" for k' j
    proof (cases "k' = k")
      case True
      with that have "piRunner inst = r" by simp
      with old one have "\<exists>j. map_of m k = Some j \<and> piRunner j = r"
        unfolding handed_one_def by force
      with one True show ?thesis unfolding handed_one_def by blast
    next
      case False
      with that one show ?thesis by (simp add: handed_one_def)
    qed
    show "EvStop r \<in> set (wTrace w')
        \<or> (\<exists>j. map_of (map_set k inst m) (key i) = Some j \<and> piRunner j = r \<and> piStarted j)"
    proof (cases "EvStop r \<in> set (wTrace w)")
      case False
      with one obtain j where j: "map_of m (key i) = Some j" "piRunner j = r" "piStarted j"
        unfolding handed_one_def by blast
      with old have "map_of (map_set k inst m) (key i) = Some (if key i = k then inst else j)"
        "piRunner (if key i = k then inst else j) = r" "piStarted (if key i = k then inst else j)"
        by auto
      then show ?thesis by blast
    qed (simp add: tr)
  qed
  then show ?thesis using ho unfolding handed_ok_def by blast
qed

lemma handed_ok_Cons:
  assumes ho: "handed_ok w key m h"
    and inst: "map_of m (key i) = Some inst" "piStarted inst" "inst_ok w inst"
    and io: "insts_ok w m"
  shows "handed_ok w key m ((i, piRunner inst) # h)"
proof -
  have "handed_one w key m i (piRunner inst)"
    using io inst unfolding handed_one_def insts_ok_def inst_ok_def by blast
  moreover have "key i = key i'" if "(i', piRunner inst) \<in> set h" for i'
    using ho that inst(1) unfolding handed_ok_def handed_one_def by blast
  ultimately show ?thesis
    using ho unfolding handed_ok_def set_simps insert_iff prod.inject by metis
qed

text \<open>What a lookup does, in one form: the instance under its key, known or new.\<close>

lemma put_inv:
  assumes inv: "pool_inv (p, w, h)"
    and w': "world_ok w'" "\<And>r. starts r (wTrace w') \<le> 1" "wNext w \<le> wNext w'"
      "\<And>r. EvStop r \<in> set (wTrace w) \<Longrightarrow> EvStop r \<in> set (wTrace w')"
    and open_pool: "\<not> poClosed p"
    and io: "insts_ok w' (map_set (PartitionKey p i) inst (poInstances p))"
    and old: "(\<exists>j. map_of (poInstances p) (PartitionKey p i) = Some j \<and> piRunner j = piRunner inst
          \<and> piStarted j = piStarted inst)
      \<or> (map_of (poInstances p) (PartitionKey p i) = None \<and> wNext w \<le> piRunner inst)"
  shows "pool_inv (p\<lparr>poInstances := map_set (PartitionKey p i) inst (poInstances p)\<rparr>, w',
    (case piStartErr inst of Some e \<Rightarrow> h | None \<Rightarrow> (i, piRunner inst) # h))"
proof -
  let ?m = "map_set (PartitionKey p i) inst (poInstances p)"
  have ho: "handed_ok w' (PartitionKey p) ?m h"
    using inv w'(3,4) old by (intro handed_ok_put [of w]) (auto simp: pool_inv_def)
  have ok: "map_of ?m (PartitionKey p i) = Some inst" by simp
  then have inst: "inst_ok w' inst" using io unfolding insts_ok_def by blast
  have "handed_ok w' (PartitionKey p) ?m ((i, piRunner inst) # h)" if "piStartErr inst = None"
    using that inst by (intro handed_ok_Cons [OF ho ok] io) (simp_all add: inst_ok_def)
  with ho w'(1,2) io open_pool show ?thesis by (auto simp: pool_inv_def split: option.splits)
qed

lemma insts_ok_put:
  assumes "insts_ok w m" "inst_ok w inst"
    and "\<And>k' j. map_of m k' = Some j \<Longrightarrow> k' \<noteq> k \<Longrightarrow> piRunner j \<noteq> piRunner inst"
  shows "insts_ok w (map_set k inst m)"
  unfolding insts_ok_def
proof (intro conjI allI impI)
  show "wf_map (map_set k inst m)" using assms(1) by (simp add: insts_ok_def)
  show "inst_ok w j" if "map_of (map_set k inst m) k' = Some j" for k' j
    using that assms(1,2) by (auto simp: insts_ok_def split: if_splits)
  show "k1 = k2" if "map_of (map_set k inst m) k1 = Some j1" "map_of (map_set k inst m) k2 = Some j2"
    "piRunner j1 = piRunner j2" for k1 j1 k2 j2
  proof (cases "k1 = k \<or> k2 = k")
    case True
    with that assms(3) show ?thesis by (metis fun_upd_apply map_of_map_set option.inject)
  next
    case False
    with that have "map_of m k1 = Some j1" "map_of m k2 = Some j2" by simp_all
    with that(3) assms(1) show ?thesis unfolding insts_ok_def by blast
  qed
qed

lemma RunnerFor_inv:
  assumes inv: "pool_inv (p, w, h)"
  shows "pool_inv (pool_step E (p, w, h) (ForOp i))"
proof -
  have wo: "world_ok w" and st: "\<And>r. starts r (wTrace w) \<le> 1" and io: "insts_ok w (poInstances p)"
    and cl: "poClosed p \<longrightarrow> poInstances p = []"
    and ho: "handed_ok w (PartitionKey p) (poInstances p) h"
    using inv by (auto simp: pool_inv_def)
  from io show ?thesis
  proof (cases rule: RunnerFor_cases [where E = E and identity = i])
    case (refused e)
    with inv show ?thesis by simp
  next
    case (known inst)
    let ?m = "map_set (PartitionKey p i) (inst\<lparr>piLastUsed := envClock E (wClock w)\<rparr>) (poInstances p)"
    let ?h = "case piStartErr inst of Some e \<Rightarrow> h | None \<Rightarrow> (i, piRunner inst) # h"
    have inst: "inst_ok w inst" using io known by (auto simp: insts_ok_def)
    have io': "insts_ok (w\<lparr>wClock := wClock w + 1\<rparr>) (poInstances p)"
      using io by (simp add: insts_ok_def inst_ok_def)
    have "insts_ok (w\<lparr>wClock := wClock w + 1\<rparr>) ?m"
    proof (rule insts_ok_put [OF io'])
      show "inst_ok (w\<lparr>wClock := wClock w + 1\<rparr>) (inst\<lparr>piLastUsed := envClock E (wClock w)\<rparr>)"
        using inst by (simp add: inst_ok_def)
      show "piRunner j \<noteq> piRunner (inst\<lparr>piLastUsed := envClock E (wClock w)\<rparr>)"
        if "map_of (poInstances p) k' = Some j" "k' \<noteq> PartitionKey p i" for k' j
        using that known(2) io unfolding insts_ok_def by simp metis
    qed
    then have "pool_inv (p\<lparr>poInstances := ?m\<rparr>, w\<lparr>wClock := wClock w + 1\<rparr>,
        (case piStartErr (inst\<lparr>piLastUsed := envClock E (wClock w)\<rparr>) of Some e \<Rightarrow> h
         | None \<Rightarrow> (i, piRunner (inst\<lparr>piLastUsed := envClock E (wClock w)\<rparr>)) # h))"
      using wo st known(1,2) by (intro put_inv [OF inv]) (auto simp: world_ok_def)
    then show ?thesis using known(3) by (cases "piStartErr inst") simp_all
  next
    case (fresh c inst)
    let ?w = "w\<lparr>wClock := wClock w + 1, wNext := wNext w + 1,
           wTrace := EvStart (wNext w) # EvBuild (wNext w) c # wTrace w\<rparr>"
    let ?m = "map_set (PartitionKey p i) inst (poInstances p)"
    let ?h = "case piStartErr inst of Some e \<Rightarrow> h | None \<Rightarrow> (i, piRunner inst) # h"
    have new: "EvStart (wNext w) \<notin> set (wTrace w)" "EvStop (wNext w) \<notin> set (wTrace w)"
      by (rule future_event [OF wo], simp)+
    have io': "insts_ok ?w (poInstances p)"
      using io by (simp add: insts_ok_def inst_ok_def less_Suc_eq)
    have "insts_ok ?w ?m"
    proof (rule insts_ok_put [OF io'])
      show "inst_ok ?w inst" using fresh(3-5) new by (simp add: inst_ok_def)
      show "piRunner j \<noteq> piRunner inst" if "map_of (poInstances p) k' = Some j" for k' j
      proof -
        have "inst_ok w j" using that io unfolding insts_ok_def by blast
        with fresh(3) show ?thesis by (simp add: inst_ok_def)
      qed
    qed
    moreover have "starts r (wTrace ?w) \<le> 1" for r
      using st [of r] new by (auto simp: starts_0_iff)
    moreover have "world_ok ?w" using wo by (auto simp: world_ok_def)
    ultimately have "pool_inv (p\<lparr>poInstances := ?m\<rparr>, ?w, ?h)"
      using fresh(1-3) by (intro put_inv [OF inv]) auto
    then show ?thesis using fresh(6) by (cases "piStartErr inst") simp_all
  qed
qed

text \<open>Stopping a list of instances only adds their stop events.\<close>

lemma stop_started_world:
  "wTrace (stop_started E w is) = rev (map (\<lambda>i. EvStop (piRunner i)) (filter piStarted is)) @ wTrace w"
  "wNext (stop_started E w is) = wNext w" "wClock (stop_started E w is) = wClock w"
  "wRand (stop_started E w is) = wRand w"
  by (induction "is" arbitrary: w) auto

lemma close_loop_world:
  "snd (close_loop E w is err) = stop_started E w (map snd is)"
proof (induction "is" arbitrary: w err)
  case (Cons x xs)
  then show ?case by (cases x) (simp add: case_prod_beta Let_def)
qed simp

lemma starts_append: "starts r (xs @ ys) = starts r xs + starts r ys"
  by (simp add: starts_def)

lemma starts_stops: "starts r (rev (map (\<lambda>i. EvStop (f i)) is)) = 0"
  by (simp add: starts_0_iff) auto

text \<open>Removing some instances from the pool and stopping the started ones among them.\<close>

lemma remove_inv:
  assumes inv: "pool_inv (p, w, h)"
    and m': "m' = filter (\<lambda>e. \<not> P e) (poInstances p)"
    and c': "c' \<longrightarrow> m' = []"
  shows "pool_inv (p\<lparr>poInstances := m', poClosed := c'\<rparr>,
    stop_started E w (map snd (filter P (poInstances p))), h)"
proof -
  let ?vs = "map snd (filter P (poInstances p))"
  let ?w = "stop_started E w ?vs"
  have wo: "world_ok w" and st: "\<And>r. starts r (wTrace w) \<le> 1" and io: "insts_ok w (poInstances p)"
    and ho: "handed_ok w (PartitionKey p) (poInstances p) h"
    using inv by (auto simp: pool_inv_def)
  have wf: "wf_map (poInstances p)" using io by (simp add: insts_ok_def)
  have tr: "set (wTrace ?w) = EvStop ` piRunner ` {i \<in> set ?vs. piStarted i} \<union> set (wTrace w)"
    by (auto simp: stop_started_world)
  have lk: "map_of m' k = Some i \<longleftrightarrow> map_of (poInstances p) k = Some i \<and> \<not> P (k, i)" for k i
    using wf wf_map_filter [OF wf, of "\<lambda>e. \<not> P e"] by (auto simp: m' wf_map_def)
  have vs: "i \<in> set ?vs \<longleftrightarrow> (\<exists>k. map_of (poInstances p) k = Some i \<and> P (k, i))" for i
    using wf by (force simp: wf_map_def image_iff)
  have victim: "inst_ok w i" if "i \<in> set ?vs" for i
    using that io unfolding vs insts_ok_def by blast
  have other: "piRunner i \<noteq> piRunner j" if "i \<in> set ?vs" "map_of m' k = Some j" for i j k
    using that io unfolding vs lk insts_ok_def by (metis option.inject)
  have "world_ok ?w"
    using wo victim unfolding world_ok_def tr stop_started_world(2)
    by (auto simp: inst_ok_def simp del: set_map)
  moreover have "starts r (wTrace ?w) \<le> 1" for r
    using st by (simp add: stop_started_world starts_append starts_stops)
  moreover have "insts_ok ?w m'"
    unfolding insts_ok_def
  proof (intro conjI allI impI)
    show "wf_map m'" unfolding m' by (rule wf_map_filter [OF wf])
    show "inst_ok ?w j" if "map_of m' k = Some j" for k j
    proof -
      have "inst_ok w j" using that io unfolding lk insts_ok_def by blast
      moreover have "EvStop (piRunner j) \<notin> EvStop ` piRunner ` {i \<in> set ?vs. piStarted i}"
        using other [OF _ that] by (metis (mono_tags, lifting) event.inject(5) imageE mem_Collect_eq)
      ultimately show ?thesis unfolding inst_ok_def tr stop_started_world(2) by blast
    qed
    show "k1 = k2" if "map_of m' k1 = Some j1" "map_of m' k2 = Some j2" "piRunner j1 = piRunner j2"
      for k1 j1 k2 j2
      using that io unfolding lk insts_ok_def by metis
  qed
  moreover have "handed_ok ?w (PartitionKey p) m' h"
  proof -
    have "handed_one ?w (PartitionKey p) m' i r" if "handed_one w (PartitionKey p) (poInstances p) i r"
      for i r
      using that vs unfolding handed_one_def tr lk stop_started_world(2) by blast
    then show ?thesis using ho unfolding handed_ok_def by blast
  qed
  ultimately show ?thesis using c' by (simp add: pool_inv_def)
qed

lemma EvictIdle_Some:
  "EvictIdle E w (Some p) cutoff =
    (if poClosed p then (0, Some p, w)
     else let P = \<lambda>(key, inst). key \<noteq> sharedKey \<and> piLastUsed inst < cutoff in
       (length (filter P (poInstances p)),
        Some (p\<lparr>poInstances := filter (\<lambda>e. \<not> P e) (poInstances p)\<rparr>),
        stop_started E w (map snd (filter P (poInstances p)))))"
  by (simp add: EvictIdle_def Let_def)

lemma pool_Close_Some:
  "pool_Close E w (Some p) =
    (if poClosed p then (None, Some p, w)
     else (fst (close_loop E w (poInstances p) None),
       Some (p\<lparr>poInstances := [], poClosed := True\<rparr>),
       stop_started E w (map snd (poInstances p))))"
  by (simp add: pool_Close_def Let_def case_prod_beta close_loop_world)

lemma pool_step_inv:
  assumes inv: "pool_inv s"
  shows "pool_inv (pool_step E s x)"
proof -
  obtain p w h where s: "s = (p, w, h)" by (cases s)
  show ?thesis
  proof (cases x)
    case (ForOp i)
    then show ?thesis using RunnerFor_inv inv unfolding s by blast
  next
    case (EvictOp t)
    let ?P = "\<lambda>(key, inst). key \<noteq> sharedKey \<and> piLastUsed inst < t"
    show ?thesis
    proof (cases "poClosed p")
      case False
      have "pool_inv (p\<lparr>poInstances := filter (\<lambda>e. \<not> ?P e) (poInstances p), poClosed := False\<rparr>,
          stop_started E w (map snd (filter ?P (poInstances p))), h)"
        using inv unfolding s by (intro remove_inv) auto
      moreover have "p\<lparr>poInstances := m, poClosed := False\<rparr> = p\<lparr>poInstances := m\<rparr>" for m
        using False by simp
      ultimately show ?thesis using False by (simp add: s EvictOp EvictIdle_Some Let_def)
    qed (use inv in \<open>simp add: s EvictOp EvictIdle_Some\<close>)
  next
    case CloseOp
    show ?thesis
    proof (cases "poClosed p")
      case False
      have "pool_inv (p\<lparr>poInstances := [], poClosed := True\<rparr>,
          stop_started E w (map snd (filter (\<lambda>_. True) (poInstances p))), h)"
        using inv unfolding s by (intro remove_inv) auto
      with False show ?thesis by (simp add: s CloseOp pool_Close_Some)
    qed (use inv in \<open>simp add: s CloseOp pool_Close_Some\<close>)
  qed
qed

lemma pool_run_inv: "pool_inv (p, w, []) \<Longrightarrow> pool_inv (pool_run E p w ops)"
  unfolding pool_run_def by (rule foldl_invariant [where P = pool_inv], assumption, rule pool_step_inv)

text \<open>A pool after its warm-up.\<close>

definition warmed :: "Env \<Rightarrow> Backend \<Rightarrow> bool \<Rightarrow> World \<Rightarrow> RunnerPool \<Rightarrow> World \<Rightarrow> bool" where
  "warmed E b share w0 p w \<longleftrightarrow>
    wTrace w0 = [] \<and> pool_Start E w0 (NewRunnerPool b share) = (None, p, w)"

lemma warmed_cases:
  assumes "warmed E b share w0 p w"
  obtains c caps where "poBackend p = b" "poShareSafe p = share" "\<not> poClosed p"
    "poCachedCaps p = Some caps" "wNext w = wNext w0 + 1"
    "poInstances p = (if share
      then [(sharedKey, (new_instance (wNext w0))\<lparr>piFired := True, piStarted := True\<rparr>)] else [])"
    "wTrace w = (if share then [] else [EvStop (wNext w0)])
      @ [EvStart (wNext w0), EvBuild (wNext w0) c]"
proof (cases rule: Build_cases [of E w0 b])
  case (err msg)
  with assms show thesis by (simp add: warmed_def pool_Start_def NewRunnerPool_def)
next
  case (ok c)
  with assms obtain caps where "envStart E (EvBuild (wNext w0) c # wTrace w0) (wNext w0) = Inr caps"
    by (cases "envStart E (EvBuild (wNext w0) c # wTrace w0) (wNext w0)")
      (simp_all add: warmed_def pool_Start_def NewRunnerPool_def runner_Start_def)
  with ok assms show thesis
    by (intro that [of caps c])
      (auto simp: warmed_def pool_Start_def NewRunnerPool_def runner_Start_def Let_def
        split: if_splits)
qed

lemma warmed_inv:
  assumes "warmed E b share w0 p w"
  shows "pool_inv (p, w, [])"
  using assms
  by (elim warmed_cases)
    (auto simp: pool_inv_def world_ok_def insts_ok_def inst_ok_def wf_map_def handed_ok_def
      split: if_splits)

section \<open>Who shares a runner\<close>

text \<open>
  The contract of a partition key: it tells apart exactly the identities that must not share.
\<close>

locale partition =
  fixes key :: "Identity \<Rightarrow> bytes"
    and same :: "Identity \<Rightarrow> Identity \<Rightarrow> bool"
  assumes key_iff: "key i = key j \<longleftrightarrow> same i j"
begin

lemma handed_same: "handed_ok w key m h \<Longrightarrow> (i, r) \<in> set h \<Longrightarrow> (j, r) \<in> set h \<Longrightarrow> same i j"
  unfolding handed_ok_def by (metis key_iff)

end

interpretation isolate: partition "PartitionKey (NewRunnerPool b False)"
    "\<lambda>i j. idSubject i = idSubject j" for b
  by unfold_locales (simp add: PartitionKey_def NewRunnerPool_def)

interpretation shared: partition "PartitionKey (NewRunnerPool b True)" "\<lambda>i j. True" for b
  by unfold_locales (simp add: PartitionKey_def NewRunnerPool_def)

lemma PartitionKey_mode:
  "poShareSafe p = share \<Longrightarrow> PartitionKey p = PartitionKey (NewRunnerPool b share)"
  by (simp add: fun_eq_iff PartitionKey_def NewRunnerPool_def)

lemma pool_step_mode:
  "poShareSafe (fst (pool_step E s x)) = poShareSafe (fst s)"
  by (cases s; cases x)
    (auto simp: RunnerFor_def EvictIdle_Some pool_Close_Some Let_def case_prod_beta
      split: sum.splits option.splits)

lemma pool_run_mode: "poShareSafe (fst (pool_run E p w ops)) = poShareSafe p"
proof -
  have "poShareSafe (fst (foldl (pool_step E) (p, w, []) ops)) = poShareSafe p"
    by (rule foldl_invariant [where P = "\<lambda>s. poShareSafe (fst s) = poShareSafe p"])
      (simp_all add: pool_step_mode)
  then show ?thesis by (simp add: pool_run_def)
qed

text \<open>Isolation: in isolate mode no backing process is ever handed to two subjects, over any
  sequence of lookups, evictions and closings, whatever starts fail; what one user's backing MCP
  holds never reaches another user.\<close>

theorem runners_isolated:
  assumes "warmed E b False w0 p w" "pool_run E p w ops = (p', w', h)"
    "(i, r) \<in> set h" "(j, r) \<in> set h"
  shows "idSubject i = idSubject j"
proof -
  have "pool_inv (p', w', h)"
    using pool_run_inv [OF warmed_inv [OF assms(1)], of E ops] assms(2) by simp
  moreover have "poShareSafe p' = False"
    using assms(1) pool_run_mode [of E p w ops] assms(2) by (auto elim: warmed_cases)
  ultimately have "handed_ok w' (PartitionKey (NewRunnerPool b False)) (poInstances p') h"
    by (simp add: pool_inv_def PartitionKey_mode [of p' False b])
  from isolate.handed_same [OF this assms(3,4)] show ?thesis .
qed

text \<open>A runner that is handed out has been started exactly once and never stopped: whatever
  was evicted or failed before, a lookup never returns a dead process or one not yet initialised.\<close>

theorem handed_runner_alive:
  assumes "warmed E b share w0 p w" "pool_run E p w ops = (p', w', h)"
    "RunnerFor E w' (Some p') i = (Inr r, pool, w'')"
  shows "starts r (wTrace w'') = 1 \<and> EvStop r \<notin> set (wTrace w'')"
proof -
  have inv: "pool_inv (p', w', h)"
    using pool_run_inv [OF warmed_inv [OF assms(1)], of E ops] assms(2) by simp
  from RunnerFor_inv [OF inv, of E i] assms(3)
  have inv': "pool_inv (the pool, w'', (i, r) # h)" by simp
  from inv have "insts_ok w' (poInstances p')" by (simp add: pool_inv_def)
  then have "\<exists>inst. map_of (poInstances (the pool)) (PartitionKey p' i) = Some inst \<and> piRunner inst = r"
    using assms(3) by (cases rule: RunnerFor_cases [where E = E and identity = i])
      (auto split: option.splits)
  then obtain inst where "map_of (poInstances (the pool)) (PartitionKey p' i) = Some inst"
    and "piRunner inst = r" by blast
  with inv' have "inst_ok w'' inst" "starts r (wTrace w'') \<le> 1"
    by (auto simp: pool_inv_def insts_ok_def)
  with \<open>piRunner inst = r\<close> show ?thesis
    using starts_0_iff [of r "wTrace w''"] by (auto simp: inst_ok_def)
qed

section \<open>The shared runner, closing and eviction\<close>

definition shared_inv :: "runner_id \<Rightarrow> RunnerPool \<times> World \<times> (Identity \<times> runner_id) list \<Rightarrow> bool" where
  "shared_inv r0 s \<longleftrightarrow>
    (let (p, w, h) = s in
     poShareSafe p \<and> (\<forall>(i, r) \<in> set h. r = r0)
     \<and> (\<not> poClosed p \<longrightarrow>
        (\<exists>inst. map_of (poInstances p) sharedKey = Some inst \<and> piRunner inst = r0 \<and> piFired inst
          \<and> piStartErr inst = None)))"

lemma shared_lookup:
  assumes "shared_inv r0 (p, w, h)" "\<not> poClosed p"
  shows "\<exists>inst. RunnerFor E w (Some p) i =
      (Inr r0, Some (p\<lparr>poInstances := map_set sharedKey inst (poInstances p)\<rparr>),
       w\<lparr>wClock := wClock w + 1\<rparr>)
    \<and> piRunner inst = r0 \<and> piFired inst \<and> piStartErr inst = None"
proof -
  from assms obtain inst where inst: "map_of (poInstances p) sharedKey = Some inst"
    "piRunner inst = r0" "piFired inst" "piStartErr inst = None" and s: "poShareSafe p"
    by (auto simp: shared_inv_def)
  show ?thesis
    by (rule exI [of _ "inst\<lparr>piLastUsed := envClock E (wClock w)\<rparr>"])
      (simp add: RunnerFor_def PartitionKey_def s assms(2) find_or_build_def inst start_once_fired
        Now_def Let_def)
qed

lemma map_of_filter_keep: "(\<And>v. P (k, v)) \<Longrightarrow> map_of (filter P m) k = map_of m k"
  by (induction m) auto

lemma shared_step:
  assumes "shared_inv r0 s"
  shows "shared_inv r0 (pool_step E s x)"
proof -
  obtain p w h where s: "s = (p, w, h)" by (cases s)
  show ?thesis
  proof (cases "poClosed p")
    case True
    with assms show ?thesis
      by (cases x) (auto simp: s RunnerFor_def EvictIdle_Some pool_Close_Some Let_def)
  next
    case False
    show ?thesis
    proof (cases x)
      case (ForOp i)
      from shared_lookup [OF assms [unfolded s] False, of E i] assms show ?thesis
        by (auto simp: s ForOp shared_inv_def)
    next
      case (EvictOp t)
      with assms False show ?thesis
        by (auto simp: s shared_inv_def EvictIdle_Some Let_def map_of_filter_keep)
    next
      case CloseOp
      with assms False show ?thesis by (auto simp: s shared_inv_def pool_Close_Some)
    qed
  qed
qed

text \<open>In share-safe mode one process serves everyone: over any sequence of lookups and
  evictions every identity is handed the runner of the warm-up, which no eviction ever stops, until
  the pool is closed.\<close>

theorem shared_runner_unique:
  assumes "warmed E b True w0 p w" "pool_run E p w ops = (p', w', h)"
  shows "(\<forall>(i, r) \<in> set h. r = wNext w0)
    \<and> (\<not> poClosed p' \<longrightarrow> EvStop (wNext w0) \<notin> set (wTrace w')
         \<and> (\<forall>i. fst (RunnerFor E w' (Some p') i) = Inr (wNext w0)))"
proof -
  have "shared_inv (wNext w0) (p, w, [])"
    using assms(1) by (auto simp: shared_inv_def elim!: warmed_cases)
  then have "shared_inv (wNext w0) (pool_run E p w ops)"
    unfolding pool_run_def
    by (rule foldl_invariant [where P = "shared_inv (wNext w0)"]) (rule shared_step)
  then have sh: "shared_inv (wNext w0) (p', w', h)" by (simp only: assms(2))
  have "pool_inv (p', w', h)"
    using pool_run_inv [OF warmed_inv [OF assms(1)], of E ops] assms(2) by simp
  then have io: "\<And>k inst. map_of (poInstances p') k = Some inst \<Longrightarrow> inst_ok w' inst"
    by (auto simp: pool_inv_def insts_ok_def)
  have "EvStop (wNext w0) \<notin> set (wTrace w')" if "\<not> poClosed p'"
  proof -
    from sh that obtain inst where "map_of (poInstances p') sharedKey = Some inst"
      "piRunner inst = wNext w0" by (auto simp: shared_inv_def)
    with io [of sharedKey inst] show ?thesis by (simp add: inst_ok_def)
  qed
  moreover have "fst (RunnerFor E w' (Some p') i) = Inr (wNext w0)" if "\<not> poClosed p'" for i
    using shared_lookup [OF sh that, of E i] by auto
  ultimately show ?thesis using sh by (auto simp: shared_inv_def)
qed

text \<open>Closing leaves nothing behind: after \<^verbatim>\<open>Close\<close> every runner that was ever
  handed out has been stopped, no lookup succeeds or touches the world any more, and closing again
  does nothing.\<close>

theorem close_stops_all:
  assumes "warmed E b share w0 p w" "pool_run E p w ops = (p', w', h)"
    "pool_Close E w' (Some p') = (err, pool, w'')" "(i, r) \<in> set h"
  shows "EvStop r \<in> set (wTrace w'')
    \<and> RunnerFor E w3 pool j = (Inl ''runner pool closed'', pool, w3)
    \<and> pool_Close E w3 pool = (None, pool, w3) \<and> EvictIdle E w3 pool t = (0, pool, w3)"
proof -
  have "pool_inv (p', w', h)"
    using pool_run_inv [OF warmed_inv [OF assms(1)], of E ops] assms(2) by simp
  from pool_step_inv [OF this, of E CloseOp] assms(3)
  have inv: "pool_inv (the pool, w'', h)" by simp
  from assms(3) obtain q where q: "pool = Some q" "poClosed q"
    by (auto simp: pool_Close_Some split: if_splits)
  with inv have "poInstances q = []" by (simp add: pool_inv_def)
  with inv assms(4) q have "EvStop r \<in> set (wTrace w'')"
    by (auto simp: pool_inv_def handed_ok_def handed_one_def)
  with q show ?thesis by (simp add: RunnerFor_def pool_Close_Some EvictIdle_Some Let_def)
qed

text \<open>An idle sweep of an open pool removes exactly the instances last used before the cutoff,
  the shared one excepted, stops exactly those among them that run, and reports their number.\<close>

theorem evict_idle_exact:
  assumes "wf_map (poInstances p)" "\<not> poClosed p" "EvictIdle E w (Some p) cutoff = (n, Some p', w')"
  shows "(map_of (poInstances p') k = Some i \<longleftrightarrow>
      map_of (poInstances p) k = Some i \<and> (k = sharedKey \<or> cutoff \<le> piLastUsed i))
    \<and> n + length (poInstances p') = length (poInstances p)
    \<and> (EvStop r \<in> set (wTrace w') \<longleftrightarrow> EvStop r \<in> set (wTrace w)
        \<or> (\<exists>k i. map_of (poInstances p) k = Some i \<and> piRunner i = r \<and> piStarted i
             \<and> k \<noteq> sharedKey \<and> piLastUsed i < cutoff))"
proof -
  let ?P = "\<lambda>(key, inst). key \<noteq> sharedKey \<and> piLastUsed inst < cutoff"
  have e: "n = length (filter ?P (poInstances p))"
    "p' = p\<lparr>poInstances := filter (\<lambda>e. \<not> ?P e) (poInstances p)\<rparr>"
    "w' = stop_started E w (map snd (filter ?P (poInstances p)))"
    using assms by (simp_all add: EvictIdle_Some Let_def)
  have "map_of (poInstances p') k = Some i \<longleftrightarrow>
      map_of (poInstances p) k = Some i \<and> (k = sharedKey \<or> cutoff \<le> piLastUsed i)"
    using assms(1) wf_map_filter [OF assms(1), of "\<lambda>e. \<not> ?P e"] by (auto simp: e(2) wf_map_def)
  moreover have "n + length (poInstances p') = length (poInstances p)"
    unfolding e(1,2) by (simp add: sum_length_filter_compl)
  moreover have "EvStop r \<in> set (wTrace w') \<longleftrightarrow> EvStop r \<in> set (wTrace w)
      \<or> (\<exists>k i. (k, i) \<in> set (poInstances p) \<and> piRunner i = r \<and> piStarted i
           \<and> k \<noteq> sharedKey \<and> piLastUsed i < cutoff)"
    by (force simp: e(3) stop_started_world)
  ultimately show ?thesis using assms(1) by (simp add: wf_map_def)
qed


end
