(* ===== verification/SessionStore.thy ===== *)
theory SessionStore
  imports Sessions
begin

text \<open>
  \<^verbatim>\<open>session_store.go\<close>: the store of MCP sessions. Every method of
  \<^verbatim>\<open>InMemorySessionStore\<close> takes the store's lock for its whole body, so a method is
  one step; the methods hand out copies of a session, so a session is a value. The interface is
  the locale \<open>session_store\<close>: what a client may rely on is stated over the map from
  identifiers to sessions a store stands for.
\<close>

section \<open>Sessions and the in-memory store\<close>

record Session =
  sessID :: bytes
  sessSubject :: bytes
  sessProtocolVersion :: bytes
  sessClientInfo :: Implementation
  sessInitialized :: bool
  sessCreatedAt :: time
  sessLastSeen :: time

record InMemorySessionStore =
  stSessions :: "Session gomap"

definition NewInMemorySessionStore :: InMemorySessionStore where
  "NewInMemorySessionStore = \<lparr>stSessions = []\<rparr>"

definition new_session ::
    "bytes \<Rightarrow> bytes \<Rightarrow> bytes \<Rightarrow> Implementation \<Rightarrow> time \<Rightarrow> Session" where
  "new_session i subject version info now =
    \<lparr>sessID = i, sessSubject = subject, sessProtocolVersion = version, sessClientInfo = info,
     sessInitialized = False, sessCreatedAt = now, sessLastSeen = now\<rparr>"

definition Create ::
    "InMemorySessionStore \<Rightarrow> bytes \<Rightarrow> bytes \<Rightarrow> bytes \<Rightarrow> Implementation \<Rightarrow> time
     \<Rightarrow> InMemorySessionStore \<times> Session" where
  "Create s i subject version info now =
    (let sess = new_session i subject version info now in
     (s\<lparr>stSessions := map_set i sess (stSessions s)\<rparr>, sess))"

definition Get :: "InMemorySessionStore \<Rightarrow> bytes \<Rightarrow> Session option" where
  "Get s i = map_of (stSessions s) i"

definition MarkInitialized ::
    "InMemorySessionStore \<Rightarrow> bytes \<Rightarrow> time \<Rightarrow> InMemorySessionStore \<times> bool" where
  "MarkInitialized s i now =
    (case map_of (stSessions s) i of
       None \<Rightarrow> (s, False)
     | Some sess \<Rightarrow>
         (s\<lparr>stSessions := map_set i (sess\<lparr>sessInitialized := True, sessLastSeen := now\<rparr>)
              (stSessions s)\<rparr>, True))"

definition Touch ::
    "InMemorySessionStore \<Rightarrow> bytes \<Rightarrow> time \<Rightarrow> InMemorySessionStore \<times> bool" where
  "Touch s i now =
    (case map_of (stSessions s) i of
       None \<Rightarrow> (s, False)
     | Some sess \<Rightarrow>
         (s\<lparr>stSessions := map_set i (sess\<lparr>sessLastSeen := now\<rparr>) (stSessions s)\<rparr>, True))"

definition Delete :: "InMemorySessionStore \<Rightarrow> bytes \<Rightarrow> InMemorySessionStore \<times> bool" where
  "Delete s i =
    (case map_of (stSessions s) i of
       None \<Rightarrow> (s, False)
     | Some _ \<Rightarrow> (s\<lparr>stSessions := map_del i (stSessions s)\<rparr>, True))"

definition ExpireBefore ::
    "InMemorySessionStore \<Rightarrow> time \<Rightarrow> InMemorySessionStore \<times> nat" where
  "ExpireBefore s t =
    (s\<lparr>stSessions := map_purge (\<lambda>sess. sessLastSeen sess < t) (stSessions s)\<rparr>,
     map_count (\<lambda>sess. sessLastSeen sess < t) (stSessions s))"

lemmas store_op_defs =
  Create_def Get_def MarkInitialized_def Touch_def Delete_def ExpireBefore_def

section \<open>The contract\<close>

text \<open>What the map of sessions becomes, operation by operation.\<close>

datatype store_op =
    OpCreate bytes bytes bytes Implementation time
  | OpMarkInitialized bytes time
  | OpTouch bytes time
  | OpDelete bytes
  | OpExpireBefore time

fun spec_apply :: "(bytes \<rightharpoonup> Session) \<Rightarrow> store_op \<Rightarrow> (bytes \<rightharpoonup> Session)" where
  "spec_apply m (OpCreate i u v c now) = m(i \<mapsto> new_session i u v c now)"
| "spec_apply m (OpMarkInitialized i now) =
    m(i := map_option (\<lambda>x. x\<lparr>sessInitialized := True, sessLastSeen := now\<rparr>) (m i))"
| "spec_apply m (OpTouch i now) = m(i := map_option (\<lambda>x. x\<lparr>sessLastSeen := now\<rparr>) (m i))"
| "spec_apply m (OpDelete i) = m(i := None)"
| "spec_apply m (OpExpireBefore t) = drop_where (\<lambda>x. sessLastSeen x < t) m"

text \<open>The identifier an operation makes a new session for.\<close>

fun creates :: "store_op \<Rightarrow> bytes option" where
  "creates (OpCreate i u v c now) = Some i"
| "creates _ = None"

locale session_store =
  fixes view :: "'s \<Rightarrow> bytes \<rightharpoonup> Session"
    and ok :: "'s \<Rightarrow> bool"
    and empty :: 's
    and create :: "'s \<Rightarrow> bytes \<Rightarrow> bytes \<Rightarrow> bytes \<Rightarrow> Implementation \<Rightarrow> time \<Rightarrow> 's \<times> Session"
    and get :: "'s \<Rightarrow> bytes \<Rightarrow> Session option"
    and mark :: "'s \<Rightarrow> bytes \<Rightarrow> time \<Rightarrow> 's \<times> bool"
    and touch :: "'s \<Rightarrow> bytes \<Rightarrow> time \<Rightarrow> 's \<times> bool"
    and remove :: "'s \<Rightarrow> bytes \<Rightarrow> 's \<times> bool"
    and expire :: "'s \<Rightarrow> time \<Rightarrow> 's \<times> nat"
  assumes view_empty: "view empty = Map.empty"
    and ok_empty: "ok empty"
    and ok_ops: "ok s \<Longrightarrow> ok (fst (create s i u v c now)) \<and> ok (fst (mark s i now))
      \<and> ok (fst (touch s i now)) \<and> ok (fst (remove s i)) \<and> ok (fst (expire s now))"
    and view_get: "ok s \<Longrightarrow> get s i = view s i"
    and view_create: "ok s \<Longrightarrow> view (fst (create s i u v c now)) = spec_apply (view s) (OpCreate i u v c now)"
    and snd_create: "ok s \<Longrightarrow> snd (create s i u v c now) = new_session i u v c now"
    and view_mark: "ok s \<Longrightarrow> view (fst (mark s i now)) = spec_apply (view s) (OpMarkInitialized i now)"
    and snd_mark: "ok s \<Longrightarrow> snd (mark s i now) \<longleftrightarrow> view s i \<noteq> None"
    and view_touch: "ok s \<Longrightarrow> view (fst (touch s i now)) = spec_apply (view s) (OpTouch i now)"
    and snd_touch: "ok s \<Longrightarrow> snd (touch s i now) \<longleftrightarrow> view s i \<noteq> None"
    and view_remove: "ok s \<Longrightarrow> view (fst (remove s i)) = spec_apply (view s) (OpDelete i)"
    and snd_remove: "ok s \<Longrightarrow> snd (remove s i) \<longleftrightarrow> view s i \<noteq> None"
    and view_expire: "ok s \<Longrightarrow> view (fst (expire s t)) = spec_apply (view s) (OpExpireBefore t)"
    and snd_expire: "ok s \<Longrightarrow> snd (expire s t) = card (hits (\<lambda>x. sessLastSeen x < t) (view s))"
begin

lemmas views = view_create view_mark view_touch view_remove view_expire

lemma get_after_create:
  "ok s \<Longrightarrow> get (fst (create s i u v c now)) j
    = (if j = i then Some (new_session i u v c now) else get s j)"
  by (simp add: view_get view_create ok_ops)

lemma get_after_remove: "ok s \<Longrightarrow> get (fst (remove s i)) j = (if j = i then None else get s j)"
  by (simp add: view_get view_remove ok_ops)

lemma touched_survives:
  "ok s \<Longrightarrow> get s i = Some x \<Longrightarrow> t \<le> now
    \<Longrightarrow> get (fst (expire (fst (touch s i now)) t)) i = Some (x\<lparr>sessLastSeen := now\<rparr>)"
  by (simp add: view_get view_expire view_touch ok_ops)

lemma remove_twice: "ok s \<Longrightarrow> \<not> snd (remove (fst (remove s i)) i)"
  by (simp add: snd_remove view_remove ok_ops)

lemma expire_removes:
  "ok s \<Longrightarrow> get s i = Some x
    \<Longrightarrow> get (fst (expire s t)) i = (if sessLastSeen x < t then None else Some x)"
  by (auto simp: view_get view_expire ok_ops drop_where_None drop_where_def)

end

section \<open>The in-memory store meets it\<close>

definition store_view :: "InMemorySessionStore \<Rightarrow> bytes \<rightharpoonup> Session" where
  "store_view s = map_of (stSessions s)"

definition store_ok :: "InMemorySessionStore \<Rightarrow> bool" where
  "store_ok s \<longleftrightarrow> wf_map (stSessions s)"

interpretation mem: session_store store_view store_ok NewInMemorySessionStore Create Get
    MarkInitialized Touch Delete ExpireBefore
  by unfold_locales
    (auto simp: store_op_defs store_view_def store_ok_def NewInMemorySessionStore_def Let_def
      map_of_map_purge map_count_card split: option.splits)

lemma Get_is_view: "Get s = store_view s"
  by (rule ext) (simp add: Get_def store_view_def)

fun store_apply :: "InMemorySessionStore \<Rightarrow> store_op \<Rightarrow> InMemorySessionStore" where
  "store_apply s (OpCreate i u v c now) = fst (Create s i u v c now)"
| "store_apply s (OpMarkInitialized i now) = fst (MarkInitialized s i now)"
| "store_apply s (OpTouch i now) = fst (Touch s i now)"
| "store_apply s (OpDelete i) = fst (Delete s i)"
| "store_apply s (OpExpireBefore t) = fst (ExpireBefore s t)"

definition store_run :: "InMemorySessionStore \<Rightarrow> store_op list \<Rightarrow> InMemorySessionStore" where
  "store_run s ops = foldl store_apply s ops"

lemma store_apply_ok: "store_ok s \<Longrightarrow> store_ok (store_apply s a)"
  by (cases a) (simp_all add: mem.ok_ops)

lemma store_apply_view: "store_ok s \<Longrightarrow> store_view (store_apply s a) = spec_apply (store_view s) a"
  by (cases a) (simp_all add: mem.views del: spec_apply.simps)

lemma store_run_ok: "store_ok s \<Longrightarrow> store_ok (store_run s ops)"
  unfolding store_run_def by (induction ops arbitrary: s) (auto simp: store_apply_ok)

lemma store_run_view:
  "store_ok s \<Longrightarrow> store_view (store_run s ops) = foldl spec_apply (store_view s) ops"
  unfolding store_run_def
  by (induction ops arbitrary: s) (auto simp: store_apply_view store_apply_ok)

text \<open>C34. Any sequence of operations on a new store leaves exactly the sessions the contract's map
  holds after the same operations, and \<^verbatim>\<open>Get\<close> reads them: the in-memory store refines
  the map of sessions.\<close>

theorem store_refines_map:
  "Get (store_run NewInMemorySessionStore ops) i = foldl spec_apply Map.empty ops i"
  by (simp add: mem.view_get store_run_ok store_run_view mem.ok_empty mem.view_empty)

text \<open>One operation, seen from one identifier.\<close>

lemma spec_apply_keeps_owner:
  "creates a \<noteq> Some i \<Longrightarrow> m i = Some x \<Longrightarrow> spec_apply m a i = Some y \<Longrightarrow>
    sessSubject y = sessSubject x \<and> sessCreatedAt y = sessCreatedAt x
    \<and> (sessInitialized x \<longrightarrow> sessInitialized y)"
  by (cases a) (auto split: if_splits)

lemma spec_apply_absent: "creates a \<noteq> Some i \<Longrightarrow> m i = None \<Longrightarrow> spec_apply m a i = None"
  by (cases a) (auto simp: drop_where_None)

lemma spec_run_absent:
  "\<forall>a \<in> set ops. creates a \<noteq> Some i \<Longrightarrow> m i = None \<Longrightarrow> foldl spec_apply m ops i = None"
  by (induction ops arbitrary: m) (auto simp: spec_apply_absent)

lemma spec_run_keeps_owner:
  "\<forall>a \<in> set ops. creates a \<noteq> Some i \<Longrightarrow> m i = Some x \<Longrightarrow> foldl spec_apply m ops i = Some y \<Longrightarrow>
    sessSubject y = sessSubject x \<and> sessCreatedAt y = sessCreatedAt x
    \<and> (sessInitialized x \<longrightarrow> sessInitialized y)"
proof (induction ops arbitrary: m x)
  case (Cons a ops)
  show ?case
  proof (cases "spec_apply m a i")
    case None
    with Cons.prems spec_run_absent [of ops i "spec_apply m a"] show ?thesis by auto
  next
    case (Some z)
    with Cons.prems have "sessSubject z = sessSubject x \<and> sessCreatedAt z = sessCreatedAt x
        \<and> (sessInitialized x \<longrightarrow> sessInitialized z)"
      by (intro spec_apply_keeps_owner) auto
    with Cons.IH [of "spec_apply m a" z] Some Cons.prems show ?thesis by auto
  qed
qed simp

text \<open>A session's owner never changes: whatever operations run, as long as none creates a
  session under the same identifier, a session still there has the subject and the creation time
  it was made with, and once initialized it stays so.\<close>

theorem session_owner_fixed:
  assumes "store_ok s" "Get s i = Some x" "Get (store_run s ops) i = Some y"
    and "\<forall>a \<in> set ops. creates a \<noteq> Some i"
  shows "sessSubject y = sessSubject x \<and> sessCreatedAt y = sessCreatedAt x
    \<and> (sessInitialized x \<longrightarrow> sessInitialized y)"
  using assms spec_run_keeps_owner [of ops i "store_view s" x y]
  by (simp add: mem.view_get store_run_ok store_run_view)

text \<open>The expiry sweep deletes exactly the sessions last seen strictly before the cutoff,
  leaves the others untouched, and returns how many it deleted.\<close>

theorem expire_before_exact:
  assumes "store_ok s"
  shows "Get (fst (ExpireBefore s t)) i
      = (case Get s i of None \<Rightarrow> None | Some x \<Rightarrow> if sessLastSeen x < t then None else Some x)
    \<and> snd (ExpireBefore s t) + card (dom (Get (fst (ExpireBefore s t)))) = card (dom (Get s))"
proof
  show "Get (fst (ExpireBefore s t)) i
      = (case Get s i of None \<Rightarrow> None | Some x \<Rightarrow> if sessLastSeen x < t then None else Some x)"
    using assms by (simp add: mem.view_get mem.views mem.ok_ops drop_where_def)
  have "finite (dom (store_view s))" by (simp add: store_view_def finite_dom_map_of)
  then show "snd (ExpireBefore s t) + card (dom (Get (fst (ExpireBefore s t)))) = card (dom (Get s))"
    using assms card_drop_where [of "store_view s" "\<lambda>x. sessLastSeen x < t"]
    by (simp add: Get_is_view mem.snd_expire mem.views mem.ok_ops)
qed

end
