(* ===== verification/PathMatch.thy ===== *)
theory PathMatch
  imports D8aPrelude
begin

text \<open>
  \<^verbatim>\<open>path.Match\<close> of Go's standard library, which the catalog's glob patterns go
  through: the greedy matcher over chunks as the library has it, and a declarative language of
  patterns it is proved sound for.
\<close>

section \<open>The matcher\<close>

fun scan_len :: "bool \<Rightarrow> bytes \<Rightarrow> nat" where
  "scan_len inrange [] = 0"
| "scan_len inrange [c] = (if c = CHR ''*'' \<and> \<not> inrange then 0 else 1)"
| "scan_len inrange (c # d # s) =
    (if c = CHR 0x5C then 2 + scan_len inrange s
     else if c = CHR ''['' then 1 + scan_len True (d # s)
     else if c = CHR '']'' then 1 + scan_len False (d # s)
     else if c = CHR ''*'' \<and> \<not> inrange then 0
     else 1 + scan_len inrange (d # s))"

text \<open>Leading stars, the chunk up to the next star, the rest of the pattern.\<close>

definition scanChunk :: "bytes \<Rightarrow> bool \<times> bytes \<times> bytes" where
  "scanChunk pattern =
    (let p = dropWhile (\<lambda>c. c = CHR ''*'') pattern; i = scan_len False p in
     (p \<noteq> pattern, take i p, drop i p))"

text \<open>\<open>None\<close> is \<^verbatim>\<open>ErrBadPattern\<close>.\<close>

definition getEsc :: "bytes \<Rightarrow> (nat \<times> bytes) option" where
  "getEsc chunk =
    (case chunk of
       [] \<Rightarrow> None
     | c # r \<Rightarrow>
       if c = CHR ''-'' \<or> c = CHR '']'' then None
       else let ch = (if c = CHR 0x5C then r else chunk) in
         if ch = [] then None
         else let (x, n) = DecodeRuneInString ch in
           if (x = RuneError \<and> n = 1) \<or> drop n ch = [] then None else Some (x, drop n ch))"

lemma DecodeRune_size_pos: "s \<noteq> [] \<Longrightarrow> 0 < snd (DecodeRuneInString s)"
  by (cases s) (auto simp: DecodeRuneInString_def Let_def)

lemma drop_rune_shrinks: "s \<noteq> [] \<Longrightarrow> length (drop (snd (DecodeRuneInString s)) s) < length s"
  using DecodeRune_size_pos [of s] by simp

lemma getEsc_shrinks:
  assumes "getEsc c = Some (x, c')"
  shows "length c' < length c"
proof -
  from assms obtain a r where c: "c = a # r" by (auto simp: getEsc_def split: list.splits)
  let ?ch = "if a = CHR 0x5C then r else c"
  from assms c have "?ch \<noteq> []" "c' = drop (snd (DecodeRuneInString ?ch)) ?ch"
    by (auto simp: getEsc_def Let_def split: if_splits prod.splits)
  with drop_rune_shrinks [of ?ch] have "length c' < length ?ch" by simp
  also have "length ?ch \<le> length c" using c by simp
  finally show ?thesis .
qed

text \<open>The ranges of a class after \<^verbatim>\<open>[\<close> or \<^verbatim>\<open>[^\<close>, at least one.\<close>

function class_ranges :: "bool \<Rightarrow> bytes \<Rightarrow> ((nat \<times> nat) list \<times> bytes) option" where
  "class_ranges first c =
    (if c \<noteq> [] \<and> hd c = CHR '']'' \<and> \<not> first then Some ([], tl c)
     else case getEsc c of
       None \<Rightarrow> None
     | Some (lo, c1) \<Rightarrow>
         if c1 \<noteq> [] \<and> hd c1 = CHR ''-'' then
           (case getEsc (tl c1) of
              None \<Rightarrow> None
            | Some (hi, c2) \<Rightarrow>
                map_option (\<lambda>(rs, t). ((lo, hi) # rs, t)) (class_ranges False c2))
         else map_option (\<lambda>(rs, t). ((lo, lo) # rs, t)) (class_ranges False c1))"
  by pat_completeness auto
termination
  by (relation "measure (\<lambda>(f, c). length c)") (auto dest!: getEsc_shrinks)

declare class_ranges.simps [simp del]

definition in_ranges :: "nat \<Rightarrow> (nat \<times> nat) list \<Rightarrow> bool" where
  "in_ranges r rs \<longleftrightarrow> list_ex (\<lambda>(lo, hi). lo \<le> r \<and> r \<le> hi) rs"

definition strip_caret :: "bytes \<Rightarrow> bool \<times> bytes" where
  "strip_caret c = (if c \<noteq> [] \<and> hd c = CHR ''^'' then (True, tl c) else (False, c))"

lemma strip_caret_len: "length (snd (strip_caret c)) \<le> length c"
  by (simp add: strip_caret_def)

lemma class_ranges_shrinks: "class_ranges f c = Some (rs, t) \<Longrightarrow> length t < length c"
proof (induction f c arbitrary: rs t rule: class_ranges.induct)
  case (1 f c)
  show ?case
  proof (cases "c \<noteq> [] \<and> hd c = CHR '']'' \<and> \<not> f")
    case True
    with "1.prems" have "Some ([], tl c) = Some (rs, t)"
      by (subst (asm) class_ranges.simps) simp
    with True show ?thesis by (cases c) auto
  next
    case False
    with "1.prems" obtain lo c1 where lo: "getEsc c = Some (lo, c1)"
      by (auto simp: class_ranges.simps [of f c] split: option.splits)
    show ?thesis
    proof (cases "c1 \<noteq> [] \<and> hd c1 = CHR ''-''")
      case True
      with False lo "1.prems" obtain hi c2 rs' where hi: "getEsc (tl c1) = Some (hi, c2)"
        and "class_ranges False c2 = Some (rs', t)"
        by (auto simp: class_ranges.simps [of f c] split: option.splits)
      with "1.IH"(1) [OF False lo refl True hi refl] getEsc_shrinks [OF lo] getEsc_shrinks [OF hi]
      show ?thesis by auto
    next
      case F: False
      with False lo "1.prems" obtain rs' where "class_ranges False c1 = Some (rs', t)"
        by (auto simp: class_ranges.simps [of f c] split: option.splits)
      with "1.IH"(2) [OF False lo refl F] getEsc_shrinks [OF lo] show ?thesis by auto
    qed
  qed
qed

text \<open>
  \<open>matchChunk\<close>: the outer option is \<^verbatim>\<open>ErrBadPattern\<close>, the inner one a failed match.
  After the match has failed the rest of the chunk is still checked.
\<close>

function match_chunk :: "bool \<Rightarrow> bytes \<Rightarrow> bytes \<Rightarrow> bytes option option" where
  "match_chunk failed [] s = Some (if failed then None else Some s)"
| "match_chunk failed (c # ch) s =
    (let f = failed \<or> s = []; (r, n) = DecodeRuneInString s; s' = (if f then s else drop n s) in
     if c = CHR ''['' then
       (case class_ranges True (snd (strip_caret ch)) of
          None \<Rightarrow> None
        | Some (rs, ch') \<Rightarrow>
            match_chunk (f \<or> in_ranges r rs = fst (strip_caret ch)) ch' s')
     else if c = CHR ''?'' then match_chunk (f \<or> hd s = CHR ''/'') ch s'
     else if c = CHR 0x5C then
       (case ch of
          [] \<Rightarrow> None
        | d # ch' \<Rightarrow> match_chunk (f \<or> hd s \<noteq> d) ch' (if f then s else tl s))
     else match_chunk (f \<or> hd s \<noteq> c) ch (if f then s else tl s))"
  by pat_completeness auto
termination
proof (relation "measure (\<lambda>(f, c, s). length c)", goal_cases)
  case (2 failed c ch s f x r n s' x2 rs ch')
  then have "class_ranges True (snd (strip_caret ch)) = Some (rs, ch')" by simp
  from class_ranges_shrinks [OF this] strip_caret_len [of ch] show ?case by simp
qed auto

declare match_chunk.simps(2) [simp del]

definition matchChunk :: "bytes \<Rightarrow> bytes \<Rightarrow> bytes option option" where
  "matchChunk chunk s = match_chunk False chunk s"

text \<open>The loop that skips bytes under a star, never past a slash.\<close>

fun star_search :: "bytes \<Rightarrow> bool \<Rightarrow> bytes \<Rightarrow> bytes option option" where
  "star_search chunk final [] = Some None"
| "star_search chunk final (c # s) =
    (if c = CHR ''/'' then Some None
     else case matchChunk chunk s of
       None \<Rightarrow> None
     | Some None \<Rightarrow> star_search chunk final s
     | Some (Some t) \<Rightarrow> if final \<and> t \<noteq> [] then star_search chunk final s else Some (Some t))"

lemma scan_len_pos: "p \<noteq> [] \<Longrightarrow> hd p \<noteq> CHR ''*'' \<Longrightarrow> 0 < scan_len False p"
  by (cases "(False, p)" rule: scan_len.cases) auto

lemma scanChunk_shrinks:
  assumes "p \<noteq> []" "scanChunk p = (star, chunk, rest)"
  shows "length rest < length p"
proof -
  let ?q = "dropWhile (\<lambda>c. c = CHR ''*'') p"
  have rest: "rest = drop (scan_len False ?q) ?q" and q: "length ?q \<le> length p"
    using assms(2) by (auto simp: scanChunk_def Let_def length_dropWhile_le)
  show ?thesis
  proof (cases "?q = []")
    case False
    then have "0 < scan_len False ?q" using hd_dropWhile [OF False] by (intro scan_len_pos) auto
    with rest q False show ?thesis by (cases ?q) auto
  next
    case True
    with rest have "rest = []" by simp
    with assms(1) show ?thesis by simp
  qed
qed

text \<open>What is left of the pattern after a failed match is checked for syntax.\<close>

function check_rest :: "bytes \<Rightarrow> bool option" where
  "check_rest p =
    (if p = [] then Some False
     else case scanChunk p of (star, chunk, rest) \<Rightarrow>
       (case matchChunk chunk [] of None \<Rightarrow> None | Some _ \<Rightarrow> check_rest rest))"
  by pat_completeness auto
termination by (relation "measure length") (auto intro: scanChunk_shrinks dest: sym)

declare check_rest.simps [simp del]

text \<open>
  Where the chunk matches: at the start of the name, or under a star further on. The last chunk
  must use the name up.
\<close>

definition advance :: "bool \<Rightarrow> bytes \<Rightarrow> bool \<Rightarrow> bytes \<Rightarrow> bytes option option" where
  "advance star chunk final name =
    (case matchChunk chunk name of
       None \<Rightarrow> None
     | Some m \<Rightarrow>
         if m \<noteq> None \<and> (m = Some [] \<or> \<not> final) then Some m
         else if star then star_search chunk final name
         else Some None)"

function Match :: "bytes \<Rightarrow> bytes \<Rightarrow> bool option" where
  "Match p name =
    (if p = [] then Some (name = [])
     else case scanChunk p of (star, chunk, rest) \<Rightarrow>
       if star \<and> chunk = [] then Some (CHR ''/'' \<notin> set name)
       else case advance star chunk (rest = []) name of
         None \<Rightarrow> None
       | Some None \<Rightarrow> check_rest rest
       | Some (Some t) \<Rightarrow> Match rest t)"
  by pat_completeness auto
termination
  by (relation "measure (\<lambda>(p, n). length p)")
    (simp, unfold in_measure, auto intro!: scanChunk_shrinks dest: sym)

declare Match.simps [simp del]

section \<open>The language of a pattern\<close>

text \<open>
  A chunk is a sequence of single-character tokens; \<open>eat\<close> matches them at the start of a name.
  A pattern is a sequence of segments, each an optional star and a chunk. The language says what
  a pattern means: a star stands for any bytes but slashes.
\<close>

datatype tok = Lit char | AnyRune | Class bool "(nat \<times> nat) list"

fun eat :: "tok list \<Rightarrow> bytes \<Rightarrow> bytes option" where
  "eat [] s = Some s"
| "eat (_ # _) [] = None"
| "eat (Lit c # ts) (d # s) = (if d = c then eat ts s else None)"
| "eat (AnyRune # ts) (d # s) =
    (if d = CHR ''/'' then None else eat ts (drop (snd (DecodeRuneInString (d # s))) (d # s)))"
| "eat (Class neg rs # ts) (d # s) =
    (if in_ranges (fst (DecodeRuneInString (d # s))) rs = neg then None
     else eat ts (drop (snd (DecodeRuneInString (d # s))) (d # s)))"

function lex_chunk :: "bytes \<Rightarrow> tok list option" where
  "lex_chunk [] = Some []"
| "lex_chunk (c # ch) =
    (if c = CHR ''['' then
       (case class_ranges True (snd (strip_caret ch)) of
          None \<Rightarrow> None
        | Some (rs, ch') \<Rightarrow> map_option ((#) (Class (fst (strip_caret ch)) rs)) (lex_chunk ch'))
     else if c = CHR ''?'' then map_option ((#) AnyRune) (lex_chunk ch)
     else if c = CHR 0x5C then
       (case ch of [] \<Rightarrow> None | d # ch' \<Rightarrow> map_option ((#) (Lit d)) (lex_chunk ch'))
     else map_option ((#) (Lit c)) (lex_chunk ch))"
  by pat_completeness auto
termination
proof (relation "measure length", goal_cases)
  case (2 c ch x2 rs ch')
  then have "class_ranges True (snd (strip_caret ch)) = Some (rs, ch')" by simp
  from class_ranges_shrinks [OF this] strip_caret_len [of ch] show ?case by simp
qed auto

declare lex_chunk.simps(2) [simp del]

function segments :: "bytes \<Rightarrow> (bool \<times> tok list) list option" where
  "segments p =
    (if p = [] then Some []
     else case scanChunk p of (star, chunk, rest) \<Rightarrow>
       (case lex_chunk chunk of
          None \<Rightarrow> None
        | Some ts \<Rightarrow> map_option ((#) (star, ts)) (segments rest)))"
  by pat_completeness auto
termination by (relation "measure length") (auto intro: scanChunk_shrinks dest: sym)

declare segments.simps [simp del]

inductive in_language :: "(bool \<times> tok list) list \<Rightarrow> bytes \<Rightarrow> bool" where
  stop: "in_language [] []"
| now: "eat ts s = Some t \<Longrightarrow> in_language segs t \<Longrightarrow> in_language ((star, ts) # segs) s"
| star: "c \<noteq> CHR ''/'' \<Longrightarrow> in_language ((True, ts) # segs) s
    \<Longrightarrow> in_language ((True, ts) # segs) (c # s)"

inductive_simps in_language_Nil [simp]: "in_language [] s"
inductive_cases in_language_ConsE: "in_language ((star, ts) # segs) s"

section \<open>Soundness\<close>

text \<open>The chunk matcher is lexing followed by matching the tokens.\<close>

lemma match_chunk_lex:
  "match_chunk f ch s = map_option (\<lambda>ts. if f then None else eat ts s) (lex_chunk ch)"
proof (induction f ch s rule: match_chunk.induct)
  case (2 failed c ch s)
  obtain r n where rn: "DecodeRuneInString s = (r, n)" by fastforce
  note IH = "2.IH" [OF refl rn [symmetric] refl refl]
  show ?case
  proof (cases "c = CHR ''[''")
    case True
    show ?thesis
    proof (cases "class_ranges True (snd (strip_caret ch))")
      case (Some p)
      obtain rs ch' where p: "p = (rs, ch')" by fastforce
      from IH(1) [OF True Some p [symmetric]] show ?thesis
        using True Some p rn
        by (cases s) (auto simp: match_chunk.simps(2) lex_chunk.simps(2) Let_def option.map_comp comp_def
            intro!: map_option_cong)
    qed (simp add: match_chunk.simps(2) lex_chunk.simps(2) True Let_def rn)
  next
    case F: False
    note unfold = match_chunk.simps(2) lex_chunk.simps(2) Let_def option.map_comp comp_def
    consider "c = CHR ''?''" | "c \<noteq> CHR ''?''" "c = CHR 0x5C" | "c \<noteq> CHR ''?''" "c \<noteq> CHR 0x5C"
      by blast
    then show ?thesis
    proof cases
      case 1
      from IH(2) [OF F 1] show ?thesis
        using 1 rn by (cases s) (auto simp: unfold intro!: map_option_cong)
    next
      case 2
      show ?thesis
      proof (cases ch)
        case (Cons d ch')
        from IH(3) [OF F 2 Cons] show ?thesis
          using 2 rn Cons by (cases s) (auto simp: unfold intro!: map_option_cong)
      qed (use 2 rn in \<open>simp add: unfold\<close>)
    next
      case 3
      from IH(4) [OF F 3] show ?thesis
        using F 3 rn by (cases s) (auto simp: unfold intro!: map_option_cong)
    qed
  qed
qed simp

lemma matchChunk_lex: "matchChunk ch s = map_option (\<lambda>ts. eat ts s) (lex_chunk ch)"
  by (simp add: matchChunk_def match_chunk_lex)

lemma star_search_sound:
  "star_search ch fin s = Some (Some t) \<Longrightarrow>
    \<exists>ts. lex_chunk ch = Some ts \<and>
      (in_language segs t \<longrightarrow> in_language ((True, ts) # segs) s) \<and> (fin \<longrightarrow> t = [])"
  by (induction ch fin s rule: star_search.induct)
    (auto simp: matchChunk_lex split: if_splits option.splits
      intro: in_language.intros)

lemma scanChunk_star_only: "scanChunk p = (True, [], rest) \<Longrightarrow> rest = []"
proof -
  let ?q = "dropWhile (\<lambda>c. c = CHR ''*'') p"
  assume "scanChunk p = (True, [], rest)"
  then have tk: "take (scan_len False ?q) ?q = []" and rest: "rest = drop (scan_len False ?q) ?q"
    by (simp_all add: scanChunk_def Let_def)
  show "rest = []"
  proof (cases "?q = []")
    case False
    have "scan_len False ?q \<noteq> 0"
      using scan_len_pos [OF False hd_dropWhile [OF False]] by blast
    with tk False show ?thesis by (simp only: take_eq_Nil) simp
  qed (simp only: rest drop_Nil)
qed

lemma in_language_star_only: "CHR ''/'' \<notin> set s \<Longrightarrow> in_language [(True, [])] s"
proof (induction s)
  case Nil
  show ?case by (rule in_language.now) simp_all
next
  case (Cons c s)
  then show ?case by (intro in_language.star) auto
qed

lemma check_rest_never_True: "check_rest p \<noteq> Some True"
  by (induction p rule: check_rest.induct)
    (subst check_rest.simps, auto split: prod.splits option.splits)

lemma advance_sound:
  assumes "advance star ch fin s = Some (Some t)"
  shows "\<exists>ts. lex_chunk ch = Some ts \<and> (in_language segs t \<longrightarrow> in_language ((star, ts) # segs) s)"
  using assms star_search_sound [of ch fin s t segs]
  by (auto simp: advance_def matchChunk_lex intro: in_language.now split: option.splits if_splits)

lemma Match_sound:
  "Match p s = Some True \<Longrightarrow> \<exists>segs. segments p = Some segs \<and> in_language segs s"
proof (induction p s rule: Match.induct)
  case (1 p s)
  obtain star chunk rest where sc: "scanChunk p = (star, chunk, rest)" by (metis prod_cases3)
  note unfold = Match.simps [of p s] segments.simps [of p]
  consider "p = []" | "p \<noteq> []" "star" "chunk = []" | "p \<noteq> []" "\<not> (star \<and> chunk = [])" by blast
  then show ?case
  proof cases
    case 1
    with "1.prems" have "s = []" by (simp add: Match.simps [of "[]"])
    with 1 show ?thesis by (simp add: segments.simps [of "[]"])
  next
    case 2
    with sc scanChunk_star_only [of p rest] have "rest = []" by simp
    with 2 sc "1.prems" show ?thesis
      by (auto simp: unfold segments.simps [of "[]"] in_language_star_only)
  next
    case 3
    with "1.prems" sc check_rest_never_True [of rest] obtain t
      where adv: "advance star chunk (rest = []) s = Some (Some t)" and "Match rest t = Some True"
      by (auto simp: unfold split: option.splits)
    with "1.IH" [OF 3(1) sc [symmetric] refl 3(2) adv refl] obtain segs
      where "segments rest = Some segs" "in_language segs t" by blast
    with advance_sound [OF adv, of segs] 3 sc show ?thesis by (auto simp: unfold)
  qed
qed

end
