(* ===== verification/Catalog.thy ===== *)
theory Catalog
  imports PathMatch
begin

text \<open>
  \<^verbatim>\<open>catalog.go\<close>: the policy decision point. A catalog maps scope names to bundles of
  patterns; an identity's scopes resolve to an \<open>EffectiveAccess\<close>, which decides names by
  exact match and by glob. \<open>None\<close> for a catalog is Go's nil pointer: no catalog, everything
  allowed.
\<close>

section \<open>Catalogs and access\<close>

record CapabilityBundle =
  bTools :: "bytes list"
  bResources :: "bytes list"
  bPrompts :: "bytes list"

record Catalog =
  cBundles :: "CapabilityBundle gomap"

definition NewCatalog :: "CapabilityBundle gomap \<Rightarrow> Catalog option" where
  "NewCatalog bundles = (if length bundles = 0 then None else Some \<lparr>cBundles = bundles\<rparr>)"

record EffectiveAccess =
  eaPermissive :: bool
  eaTools :: "bool gomap"
  eaResources :: "bool gomap"
  eaPrompts :: "bool gomap"

definition no_access :: EffectiveAccess where
  "no_access = \<lparr>eaPermissive = False, eaTools = [], eaResources = [], eaPrompts = []\<rparr>"

text \<open>The inner loops of \<^verbatim>\<open>Resolve\<close>: each name is set to true.\<close>

definition grant :: "bytes list \<Rightarrow> bool gomap \<Rightarrow> bool gomap" where
  "grant names m = fold (\<lambda>n. map_set n True) names m"

definition grant_bundle :: "CapabilityBundle \<Rightarrow> EffectiveAccess \<Rightarrow> EffectiveAccess" where
  "grant_bundle b ea =
    ea\<lparr>eaTools := grant (bTools b) (eaTools ea),
       eaResources := grant (bResources b) (eaResources ea),
       eaPrompts := grant (bPrompts b) (eaPrompts ea)\<rparr>"

definition Resolve :: "Catalog option \<Rightarrow> bytes list \<Rightarrow> EffectiveAccess" where
  "Resolve c scopes =
    (case c of
       None \<Rightarrow> no_access\<lparr>eaPermissive := True\<rparr>
     | Some cat \<Rightarrow>
         fold (\<lambda>s ea. case map_of (cBundles cat) s of None \<Rightarrow> ea | Some b \<Rightarrow> grant_bundle b ea)
           scopes no_access)"

section \<open>Deciding a name\<close>

definition ContainsAny :: "bytes \<Rightarrow> bytes \<Rightarrow> bool" where
  "ContainsAny s chars = list_ex (\<lambda>c. c \<in> set chars) s"

definition globPatternMatches :: "bytes \<Rightarrow> bytes \<Rightarrow> bool" where
  "globPatternMatches pattern name =
    (if pattern = ''*'' then True
     else if \<not> ContainsAny pattern ''*?['' then pattern = name
     else Match pattern name = Some True)"

definition anyPatternMatches :: "bool gomap \<Rightarrow> bytes \<Rightarrow> bool" where
  "anyPatternMatches patterns name =
    (if map_of patterns name = Some True then True
     else list_ex (\<lambda>(p, _). p \<noteq> name \<and> globPatternMatches p name) patterns)"

definition AllowsTool :: "EffectiveAccess \<Rightarrow> bytes \<Rightarrow> bool" where
  "AllowsTool e name = (if eaPermissive e then True else anyPatternMatches (eaTools e) name)"

definition AllowsResource :: "EffectiveAccess \<Rightarrow> bytes \<Rightarrow> bool" where
  "AllowsResource e uri = (if eaPermissive e then True else anyPatternMatches (eaResources e) uri)"

definition AllowsPrompt :: "EffectiveAccess \<Rightarrow> bytes \<Rightarrow> bool" where
  "AllowsPrompt e name = (if eaPermissive e then True else anyPatternMatches (eaPrompts e) name)"

definition HasAnyTool :: "EffectiveAccess \<Rightarrow> bool" where
  "HasAnyTool e \<longleftrightarrow> eaPermissive e \<or> 0 < length (eaTools e)"

definition HasAnyResource :: "EffectiveAccess \<Rightarrow> bool" where
  "HasAnyResource e \<longleftrightarrow> eaPermissive e \<or> 0 < length (eaResources e)"

definition HasAnyPrompt :: "EffectiveAccess \<Rightarrow> bool" where
  "HasAnyPrompt e \<longleftrightarrow> eaPermissive e \<or> 0 < length (eaPrompts e)"

section \<open>What resolving grants\<close>

lemma map_of_grant: "map_of (grant ns m) k = (if k \<in> set ns then Some True else map_of m k)"
  by (induction ns arbitrary: m) (auto simp: grant_def)

lemma keys_grant: "fst ` set (grant ns m) = set ns \<union> fst ` set m"
  by (induction ns arbitrary: m) (auto simp: grant_def keys_map_set)

lemma keys_grant_Nil: "fst ` set (grant ns []) = set ns"
  by (simp add: keys_grant)

definition all_true :: "bool gomap \<Rightarrow> bool" where
  "all_true m \<longleftrightarrow> (\<forall>k b. map_of m k = Some b \<longrightarrow> b)"

lemma all_true_Nil [simp]: "all_true []"
  by (simp add: all_true_def)

lemma all_true_grant [simp]: "all_true m \<Longrightarrow> all_true (grant ns m)"
  by (auto simp: all_true_def map_of_grant)

text \<open>The bundles a list of scopes selects.\<close>

definition bundles_of :: "Catalog \<Rightarrow> bytes list \<Rightarrow> CapabilityBundle set" where
  "bundles_of c scopes = {b. \<exists>s \<in> set scopes. map_of (cBundles c) s = Some b}"

lemma bundles_of_Nil [simp]: "bundles_of c [] = {}"
  by (simp add: bundles_of_def)

lemma bundles_of_Cons:
  "bundles_of c (s # ss) = set_option (map_of (cBundles c) s) \<union> bundles_of c ss"
  by (auto simp: bundles_of_def)

lemma resolve_fold:
  fixes c :: Catalog
  defines "step \<equiv> \<lambda>s ea. case map_of (cBundles c) s of None \<Rightarrow> ea | Some b \<Rightarrow> grant_bundle b ea"
  shows "fst ` set (eaTools (fold step ss ea))
      = fst ` set (eaTools ea) \<union> (\<Union>b \<in> bundles_of c ss. set (bTools b))"
    and "fst ` set (eaResources (fold step ss ea))
      = fst ` set (eaResources ea) \<union> (\<Union>b \<in> bundles_of c ss. set (bResources b))"
    and "fst ` set (eaPrompts (fold step ss ea))
      = fst ` set (eaPrompts ea) \<union> (\<Union>b \<in> bundles_of c ss. set (bPrompts b))"
    and "eaPermissive (fold step ss ea) = eaPermissive ea"
    and "all_true (eaTools ea) \<Longrightarrow> all_true (eaTools (fold step ss ea))"
    and "all_true (eaResources ea) \<Longrightarrow> all_true (eaResources (fold step ss ea))"
    and "all_true (eaPrompts ea) \<Longrightarrow> all_true (eaPrompts (fold step ss ea))"
  unfolding step_def
  by (induction ss arbitrary: ea)
    (auto simp: grant_bundle_def keys_grant bundles_of_Cons split: option.splits)

lemma resolve_granted:
  "fst ` set (eaTools (Resolve (Some c) ss)) = (\<Union>b \<in> bundles_of c ss. set (bTools b))"
  "fst ` set (eaResources (Resolve (Some c) ss)) = (\<Union>b \<in> bundles_of c ss. set (bResources b))"
  "fst ` set (eaPrompts (Resolve (Some c) ss)) = (\<Union>b \<in> bundles_of c ss. set (bPrompts b))"
  "\<not> eaPermissive (Resolve (Some c) ss)"
  "all_true (eaTools (Resolve (Some c) ss))"
  "all_true (eaResources (Resolve (Some c) ss))"
  "all_true (eaPrompts (Resolve (Some c) ss))"
  by (simp_all add: Resolve_def resolve_fold no_access_def)

lemma resolve_nil: "eaPermissive (Resolve None ss)"
  by (simp add: Resolve_def)

text \<open>One pattern, whichever path decides it.\<close>

definition pattern_allows :: "bytes \<Rightarrow> bytes \<Rightarrow> bool" where
  "pattern_allows p name \<longleftrightarrow> p = name \<or> globPatternMatches p name"

lemma anyPatternMatches_iff:
  assumes "all_true m"
  shows "anyPatternMatches m name \<longleftrightarrow> (\<exists>p \<in> fst ` set m. pattern_allows p name)"
proof -
  have "map_of m name = Some True \<longleftrightarrow> name \<in> fst ` set m"
  proof
    assume "name \<in> fst ` set m"
    then obtain b where "map_of m name = Some b"
      by (metis domD dom_map_of_conv_image_fst)
    with assms show "map_of m name = Some True" by (auto simp: all_true_def)
  qed (force dest: map_of_SomeD)
  then show ?thesis
    by (force simp: anyPatternMatches_def pattern_allows_def list_ex_iff)
qed

lemma grants_iff_nonempty: "0 < length m \<longleftrightarrow> fst ` set m \<noteq> {}"
  by auto

lemma resolve_allows_tool:
  "AllowsTool (Resolve c scopes) name \<longleftrightarrow>
     (case c of None \<Rightarrow> True
      | Some cat \<Rightarrow> \<exists>s \<in> set scopes. \<exists>b. map_of (cBundles cat) s = Some b
          \<and> (\<exists>p \<in> set (bTools b). pattern_allows p name))"
  by (cases c)
    (auto simp: AllowsTool_def resolve_nil resolve_granted anyPatternMatches_iff bundles_of_def)

lemma resolve_allows_resource_iff:
  "AllowsResource (Resolve c scopes) name \<longleftrightarrow>
     (case c of None \<Rightarrow> True
      | Some cat \<Rightarrow> \<exists>s \<in> set scopes. \<exists>b. map_of (cBundles cat) s = Some b
          \<and> (\<exists>p \<in> set (bResources b). pattern_allows p name))"
  by (cases c)
    (auto simp: AllowsResource_def resolve_nil resolve_granted anyPatternMatches_iff bundles_of_def)

lemma resolve_allows_prompt_iff:
  "AllowsPrompt (Resolve c scopes) name \<longleftrightarrow>
     (case c of None \<Rightarrow> True
      | Some cat \<Rightarrow> \<exists>s \<in> set scopes. \<exists>b. map_of (cBundles cat) s = Some b
          \<and> (\<exists>p \<in> set (bPrompts b). pattern_allows p name))"
  by (cases c)
    (auto simp: AllowsPrompt_def resolve_nil resolve_granted anyPatternMatches_iff bundles_of_def)

section \<open>The access contract\<close>

text \<open>
  What the protocol layer relies on, for each of the three categories: a decision on names that
  depends on the granted scopes monotonically, and a test for an empty grant that is consistent
  with the decision.
\<close>

locale access_category =
  fixes allows :: "EffectiveAccess \<Rightarrow> bytes \<Rightarrow> bool"
    and has_any :: "EffectiveAccess \<Rightarrow> bool"
    and patterns :: "CapabilityBundle \<Rightarrow> bytes list"
  assumes allows_iff: "allows (Resolve c scopes) name \<longleftrightarrow>
     (case c of None \<Rightarrow> True
      | Some cat \<Rightarrow> \<exists>s \<in> set scopes. \<exists>b. map_of (cBundles cat) s = Some b
          \<and> (\<exists>p \<in> set (patterns b). pattern_allows p name))"
    and has_any_iff: "has_any (Resolve c scopes) \<longleftrightarrow>
     (case c of None \<Rightarrow> True
      | Some cat \<Rightarrow> \<exists>s \<in> set scopes. \<exists>b. map_of (cBundles cat) s = Some b \<and> patterns b \<noteq> [])"
begin

lemma monotone: "set ss \<subseteq> set ss' \<Longrightarrow> allows (Resolve c ss) n \<Longrightarrow> allows (Resolve c ss') n"
  unfolding allows_iff by (cases c) auto

lemma no_scopes_no_access: "\<not> allows (Resolve (Some c) []) n"
  by (simp add: allows_iff)

lemma allowed_has_any: "allows (Resolve c ss) n \<Longrightarrow> has_any (Resolve c ss)"
  unfolding allows_iff has_any_iff by (cases c) force+

lemma union_of_scopes:
  "allows (Resolve (Some c) (ss @ ss')) n \<longleftrightarrow>
     allows (Resolve (Some c) ss) n \<or> allows (Resolve (Some c) ss') n"
  by (auto simp: allows_iff)

end

lemma has_any_nonempty_iff:
  "(\<Union>b \<in> bundles_of c ss. set (f b)) \<noteq> {} \<longleftrightarrow>
     (\<exists>s \<in> set ss. \<exists>b. map_of (cBundles c) s = Some b \<and> f b \<noteq> [])"
  by (force simp: bundles_of_def)

lemma resolve_has_any:
  "HasAnyTool (Resolve (Some c) ss) \<longleftrightarrow>
     (\<exists>s \<in> set ss. \<exists>b. map_of (cBundles c) s = Some b \<and> bTools b \<noteq> [])"
  "HasAnyResource (Resolve (Some c) ss) \<longleftrightarrow>
     (\<exists>s \<in> set ss. \<exists>b. map_of (cBundles c) s = Some b \<and> bResources b \<noteq> [])"
  "HasAnyPrompt (Resolve (Some c) ss) \<longleftrightarrow>
     (\<exists>s \<in> set ss. \<exists>b. map_of (cBundles c) s = Some b \<and> bPrompts b \<noteq> [])"
  unfolding HasAnyTool_def HasAnyResource_def HasAnyPrompt_def grants_iff_nonempty
    resolve_granted(1-3) has_any_nonempty_iff
  by (simp_all add: resolve_granted)

lemma resolve_nil_has_any:
  "HasAnyTool (Resolve None ss)" "HasAnyResource (Resolve None ss)" "HasAnyPrompt (Resolve None ss)"
  by (simp_all add: HasAnyTool_def HasAnyResource_def HasAnyPrompt_def resolve_nil)

interpretation tools: access_category AllowsTool HasAnyTool bTools
  by unfold_locales
    (simp_all add: resolve_allows_tool resolve_has_any resolve_nil_has_any split: option.split)

interpretation resources: access_category AllowsResource HasAnyResource bResources
  by unfold_locales
    (simp_all add: resolve_allows_resource_iff resolve_has_any resolve_nil_has_any
      split: option.split)

interpretation prompts: access_category AllowsPrompt HasAnyPrompt bPrompts
  by unfold_locales
    (simp_all add: resolve_allows_prompt_iff resolve_has_any resolve_nil_has_any
      split: option.split)

text \<open>C36. A resolved access allows a tool exactly when there is no catalog, or one of the
  identity's scopes names a bundle one of whose tool patterns allows it: unknown scopes grant
  nothing, and the exact-match fast path agrees with scanning every pattern.\<close>

theorem resolve_allows_tool_iff:
  "AllowsTool (Resolve c scopes) name \<longleftrightarrow>
     (case c of None \<Rightarrow> True
      | Some cat \<Rightarrow> \<exists>s \<in> set scopes. \<exists>b. map_of (cBundles cat) s = Some b
          \<and> (\<exists>p \<in> set (bTools b). pattern_allows p name))"
  by (rule tools.allows_iff)

text \<open>More scopes never take access away, and an identity without scopes is refused every
  tool, resource and prompt by every catalog.\<close>

theorem access_monotone_and_default_deny:
  "(set ss \<subseteq> set ss' \<longrightarrow>
      (AllowsTool (Resolve c ss) n \<longrightarrow> AllowsTool (Resolve c ss') n)
      \<and> (AllowsResource (Resolve c ss) n \<longrightarrow> AllowsResource (Resolve c ss') n)
      \<and> (AllowsPrompt (Resolve c ss) n \<longrightarrow> AllowsPrompt (Resolve c ss') n))
    \<and> \<not> AllowsTool (Resolve (Some cat) []) n \<and> \<not> AllowsResource (Resolve (Some cat) []) n
    \<and> \<not> AllowsPrompt (Resolve (Some cat) []) n"
  by (auto simp: tools.no_scopes_no_access resources.no_scopes_no_access
      prompts.no_scopes_no_access intro: tools.monotone resources.monotone prompts.monotone)

section \<open>Glob patterns\<close>

text \<open>A pattern that is not the bare star only ever matches names of its declarative language:
  the greedy matcher never grants a name the pattern does not describe. A pattern without
  wildcards matches itself alone.\<close>

theorem glob_sound:
  assumes "globPatternMatches p name" "p \<noteq> ''*''"
  shows "if ContainsAny p ''*?['' then \<exists>segs. segments p = Some segs \<and> in_language segs name
    else name = p"
  using assms Match_sound [of p name] by (auto simp: globPatternMatches_def split: if_splits)

text \<open>A pattern of ordinary characters and one trailing star.\<close>

definition ordinary :: "char \<Rightarrow> bool" where
  "ordinary c \<longleftrightarrow> c \<notin> set ''*?['' \<and> c \<noteq> CHR '']'' \<and> c \<noteq> CHR 0x5C"

lemma scan_len_ordinary:
  "\<forall>c \<in> set p. ordinary c \<Longrightarrow> scan_len False (p @ ''*'') = length p"
proof (induction p)
  case (Cons c p)
  then show ?case
    by (cases p) (auto simp: ordinary_def)
qed simp

lemma lex_ordinary: "\<forall>c \<in> set p. ordinary c \<Longrightarrow> lex_chunk p = Some (map Lit p)"
  by (induction p) (auto simp: lex_chunk.simps(2) ordinary_def)

lemma eat_literals: "eat (map Lit p) s = (if HasPrefix s p then Some (drop (length p) s) else None)"
  by (induction s p rule: HasPrefix.induct) auto

lemma Match_prefix_star:
  assumes p: "\<forall>c \<in> set p. ordinary c" "p \<noteq> []"
  shows "Match (p @ ''*'') s = Some (HasPrefix s p \<and> CHR ''/'' \<notin> set (drop (length p) s))"
proof -
  from p obtain c p' where c: "p = c # p'" "c \<noteq> CHR ''*''"
    by (cases p) (auto simp: ordinary_def)
  then have q: "dropWhile (\<lambda>c. c = CHR ''*'') (p @ ''*'') = p @ ''*''" by simp
  have sc: "scanChunk (p @ ''*'') = (False, p, ''*'')"
    using scan_len_ordinary [OF p(1)] by (simp add: scanChunk_def Let_def q)
  have star: "Match ''*'' t = Some (CHR ''/'' \<notin> set t)" for t
    by (simp add: Match.simps [of "''*''"] scanChunk_def)
  have mc: "matchChunk p t = Some (if HasPrefix t p then Some (drop (length p) t) else None)" for t
    by (simp add: matchChunk_lex lex_ordinary [OF p(1)] eat_literals)
  have rest: "check_rest ''*'' = Some False"
    by (simp add: check_rest.simps scanChunk_def matchChunk_def)
  show ?thesis
    using sc p(2) by (simp add: Match.simps [of "p @ ''*''"] advance_def mc star rest)
qed

text \<open>A prefix pattern means what its documentation says: \<^verbatim>\<open>prefix*\<close> matches
  exactly the names that continue the prefix without a slash.\<close>

theorem prefix_glob_exact:
  assumes "\<forall>c \<in> set p. ordinary c" "p \<noteq> []"
  shows "globPatternMatches (p @ ''*'') name \<longleftrightarrow> (\<exists>r. name = p @ r \<and> CHR ''/'' \<notin> set r)"
proof -
  have "p @ ''*'' \<noteq> ''*''" "ContainsAny (p @ ''*'') ''*?[''"
    using assms(2) by (auto simp: ContainsAny_def)
  then have "globPatternMatches (p @ ''*'') name
      \<longleftrightarrow> HasPrefix name p \<and> CHR ''/'' \<notin> set (drop (length p) name)"
    by (simp add: globPatternMatches_def Match_prefix_star [OF assms])
  then show ?thesis by (auto simp: HasPrefix_iff)
qed

end
