(* ===== verification/Float64.thy ===== *)
theory Float64
  imports D8aPrelude "HOL-Library.Log_Nat"
begin

text \<open>
  Go's \<^verbatim>\<open>float64\<close> arithmetic on finite values: a value is the rational it denotes,
  and every operation of the source is the exact operation followed by \<open>f64\<close>, the IEEE 754
  rounding to nearest, ties to even, with 53 bits of precision and gradual underflow. Overflow to
  infinity is not represented: a value past the largest float64 stays the rational, which every
  comparison of the sources decides as it does for infinity.
\<close>

section \<open>Rounding\<close>

definition round_even :: "rat \<Rightarrow> int" where
  "round_even x =
    (let f = \<lfloor>x\<rfloor>; d = x - of_int f in
     if d < 1 / 2 then f else if 1 / 2 < d then f + 1 else if even f then f else f + 1)"

text \<open>The exponent of the power of two at or below a positive rational.\<close>

definition exponent :: "rat \<Rightarrow> int" where
  "exponent x =
    (let (p, q) = quotient_of x; k = int (floorlog 2 (nat p)) - int (floorlog 2 (nat q)) in
     if 2 powi k \<le> x then k else k - 1)"

definition f64_ulp_exp :: "rat \<Rightarrow> int" where
  "f64_ulp_exp x = max (-1074) (exponent \<bar>x\<bar> - 52)"

definition f64 :: "rat \<Rightarrow> rat" where
  "f64 x =
    (if x = 0 then 0
     else let u = 2 powi f64_ulp_exp x in sgn x * of_int (round_even (\<bar>x\<bar> / u)) * u)"

lemma round_even_near: "\<bar>of_int (round_even x) - x\<bar> \<le> 1 / 2"
proof -
  let ?d = "x - of_int \<lfloor>x\<rfloor>"
  have "0 \<le> ?d" "?d < 1" by linarith+
  then show ?thesis by (auto simp: round_even_def Let_def)
qed

lemma round_even_floor: "\<lfloor>x\<rfloor> \<le> round_even x" "round_even x \<le> \<lfloor>x\<rfloor> + 1"
  by (auto simp: round_even_def Let_def)

lemma round_even_mono: "x \<le> y \<Longrightarrow> round_even x \<le> round_even y"
proof (cases "\<lfloor>x\<rfloor> = \<lfloor>y\<rfloor>")
  case True
  assume "x \<le> y"
  then have "x - of_int \<lfloor>y\<rfloor> \<le> y - of_int \<lfloor>y\<rfloor>" by simp
  then show ?thesis unfolding round_even_def Let_def True by (auto simp only: split: if_splits)
next
  case False
  assume "x \<le> y"
  then have "\<lfloor>x\<rfloor> \<le> \<lfloor>y\<rfloor>" by (rule floor_mono)
  with False have "\<lfloor>x\<rfloor> + 1 \<le> \<lfloor>y\<rfloor>" by linarith
  then show ?thesis using round_even_floor [of x] round_even_floor [of y] by linarith
qed

lemma round_even_int [simp]: "round_even (of_int n) = n"
  by (simp add: round_even_def)

lemma floorlog_bounds:
  assumes "0 < n"
  shows "2 powi (int (floorlog 2 n) - 1) \<le> (of_nat n :: rat)" "(of_nat n :: rat) < 2 powi int (floorlog 2 n)"
proof -
  from floorlog_bounds [of n 2] assms
  have l: "2 ^ (floorlog 2 n - 1) \<le> n" "n < 2 ^ floorlog 2 n" by auto
  have "0 < floorlog 2 n" using assms by (simp add: floorlog_def)
  then have "int (floorlog 2 n) - 1 = int (floorlog 2 n - 1)" by simp
  with l(1) show "2 powi (int (floorlog 2 n) - 1) \<le> (of_nat n :: rat)"
    by (metis of_nat_le_iff of_nat_numeral of_nat_power power_int_of_nat)
  from l(2) show "(of_nat n :: rat) < 2 powi int (floorlog 2 n)"
    by (metis of_nat_less_iff of_nat_numeral of_nat_power power_int_of_nat)
qed

lemma exponent_bounds:
  assumes "0 < x"
  shows "2 powi exponent x \<le> x" "x < 2 powi (exponent x + 1)"
proof -
  obtain p q where pq: "quotient_of x = (p, q)" by (cases "quotient_of x")
  have q: "0 < q" by (rule quotient_of_denom_pos [OF pq])
  have x: "x = of_int p / of_int q" by (rule quotient_of_div [OF pq])
  with assms q have p: "0 < p" by (simp add: zero_less_divide_iff)
  define a b where "a = int (floorlog 2 (nat p))" and "b = int (floorlog 2 (nat q))"
  have P: "2 powi (a - 1) \<le> (of_int p :: rat)" "(of_int p :: rat) < 2 powi a"
    using floorlog_bounds [of "nat p"] p by (auto simp: a_def)
  have Q: "2 powi (b - 1) \<le> (of_int q :: rat)" "(of_int q :: rat) < 2 powi b"
    using floorlog_bounds [of "nat q"] q by (auto simp: b_def)
  have qr: "(0 :: rat) < of_int q" using q by simp
  have "2 powi (a - b - 1) * (of_int q :: rat) \<le> 2 powi (a - b - 1) * 2 powi b"
    using Q by (intro mult_left_mono) auto
  also have "\<dots> = 2 powi (a - 1)" by (simp flip: power_int_add)
  finally have lo: "2 powi (a - b - 1) \<le> x"
    using P(1) qr unfolding x by (simp add: le_divide_eq)
  have "2 powi a = 2 powi (a - b + 1) * (2 powi (b - 1) :: rat)" by (simp flip: power_int_add)
  also have "\<dots> \<le> 2 powi (a - b + 1) * of_int q"
    using Q by (intro mult_left_mono) auto
  finally have hi: "x < 2 powi (a - b + 1)"
    using P(2) qr unfolding x by (simp add: divide_less_eq)
  have e: "exponent x = (if 2 powi (a - b) \<le> x then a - b else a - b - 1)"
    by (simp add: exponent_def pq a_def b_def)
  show "2 powi exponent x \<le> x" using lo by (simp add: e)
  show "x < 2 powi (exponent x + 1)" using hi by (auto simp: e)
qed

lemma powi_two_mono: "a \<le> b \<Longrightarrow> (2 :: rat) powi a \<le> 2 powi b"
  by (simp add: power_int_increasing)

lemma exponent_mono:
  assumes "0 < x" "x \<le> y"
  shows "exponent x \<le> exponent y"
proof (rule ccontr)
  assume "\<not> ?thesis"
  then have "(2 :: rat) powi (exponent y + 1) \<le> 2 powi exponent x" by (intro powi_two_mono) simp
  moreover have "y < 2 powi (exponent y + 1)" "2 powi exponent x \<le> x"
    using exponent_bounds [of x] exponent_bounds [of y] assms by auto
  ultimately show False using assms by linarith
qed

lemma f64_0 [simp]: "f64 0 = 0"
  by (simp add: f64_def)

lemma f64_neg: "f64 (- x) = - f64 x"
  by (simp add: f64_def f64_ulp_exp_def Let_def)

lemma f64_pos_eq:
  "0 < x \<Longrightarrow> f64 x = of_int (round_even (x / 2 powi f64_ulp_exp x)) * 2 powi f64_ulp_exp x"
  by (simp add: f64_def Let_def)

lemma f64_nonneg: "0 \<le> x \<Longrightarrow> 0 \<le> f64 x"
proof (cases "x = 0")
  case False
  assume "0 \<le> x"
  with False have x: "0 < x" by simp
  then have "0 \<le> round_even (x / 2 powi f64_ulp_exp x)"
    using round_even_mono [of 0 "x / 2 powi f64_ulp_exp x"] round_even_int [of 0] by simp
  then show ?thesis by (simp add: f64_pos_eq x)
qed simp

text \<open>The rounding error is half a unit in the last place.\<close>

lemma f64_error:
  "\<bar>f64 x - x\<bar> \<le> \<bar>x\<bar> / 2 ^ 53 + 1 / 2 ^ 1075"
proof -
  have pos: "\<bar>f64 y - y\<bar> \<le> y / 2 ^ 53 + 1 / 2 ^ 1075" if y: "0 < y" for y
  proof -
    let ?u = "2 powi f64_ulp_exp y :: rat"
    have u: "0 < ?u" by simp
    have "f64 y - y = (of_int (round_even (y / ?u)) - y / ?u) * ?u"
      using u by (simp add: f64_pos_eq y algebra_simps)
    then have "\<bar>f64 y - y\<bar> = \<bar>of_int (round_even (y / ?u)) - y / ?u\<bar> * ?u"
      by (simp add: abs_mult)
    also have "\<dots> \<le> 1 / 2 * ?u"
      using u by (intro mult_right_mono round_even_near) simp
    also have "\<dots> \<le> y / 2 ^ 53 + 1 / 2 ^ 1075"
    proof (cases "exponent y - 52 \<le> -1074")
      case True
      then have "f64_ulp_exp y = -1074" using y by (simp add: f64_ulp_exp_def)
      then have "?u = 2 powi (-1074)" by simp
      also have "\<dots> = 1 / 2 ^ 1074" by (simp add: power_int_def power_one_over)
      also have "\<dots> = 2 * (1 / 2 ^ 1075)" by simp
      finally show ?thesis using y by simp
    next
      case False
      then have "f64_ulp_exp y = exponent y - 52" using y by (simp add: f64_ulp_exp_def)
      then have "?u = 2 powi (exponent y - 52)" by simp
      also have "\<dots> = 2 powi exponent y / 2 ^ 52" by (simp add: power_int_diff)
      finally have "1 / 2 * ?u \<le> y / 2 ^ 53" using exponent_bounds(1) [OF y] by (simp add: field_simps)
      then show ?thesis by (simp add: add_increasing2)
    qed
    finally show ?thesis .
  qed
  consider "x = 0" | "0 < x" | "0 < - x" by linarith
  then show ?thesis
  proof cases
    case 3
    then show ?thesis using pos [OF 3] by (simp add: f64_neg abs_minus_commute)
  qed (use pos in auto)
qed

lemma f64_powi:
  assumes "0 < x" "f64_ulp_exp x \<le> e"
  shows "2 powi e \<le> x \<Longrightarrow> 2 powi e \<le> f64 x" "x \<le> 2 powi e \<Longrightarrow> f64 x \<le> 2 powi e"
proof -
  let ?k = "f64_ulp_exp x" and ?n = "nat (e - f64_ulp_exp x)"
  have "(2 powi e :: rat) = 2 powi (int ?n + ?k)" using assms(2) by simp
  also have "\<dots> = 2 powi int ?n * 2 powi ?k" by (rule power_int_add) simp
  also have "(2 :: rat) powi int ?n = of_int (2 ^ ?n)" by (simp only: power_int_of_nat) simp
  finally have e: "(2 powi e :: rat) = of_int (2 ^ ?n) * 2 powi ?k" .
  show "2 powi e \<le> f64 x" if "2 powi e \<le> x"
  proof -
    have "of_int (2 ^ ?n) \<le> x / 2 powi ?k" using that by (simp add: e le_divide_eq)
    from round_even_mono [OF this]
    have "(of_int (2 ^ ?n) :: rat) \<le> of_int (round_even (x / 2 powi ?k))"
      by (simp only: round_even_int of_int_le_iff)
    then show ?thesis unfolding f64_pos_eq [OF assms(1)] e by (rule mult_right_mono) simp
  qed
  show "f64 x \<le> 2 powi e" if "x \<le> 2 powi e"
  proof -
    have "x / 2 powi ?k \<le> of_int (2 ^ ?n)" using that by (simp add: e divide_le_eq)
    from round_even_mono [OF this]
    have "of_int (round_even (x / 2 powi ?k)) \<le> (of_int (2 ^ ?n) :: rat)"
      by (simp only: round_even_int of_int_le_iff)
    then show ?thesis unfolding f64_pos_eq [OF assms(1)] e by (rule mult_right_mono) simp
  qed
qed

lemma f64_mono_pos:
  assumes "0 < x" "x \<le> y"
  shows "f64 x \<le> f64 y"
proof (cases "f64_ulp_exp x = f64_ulp_exp y")
  case True
  have "x / 2 powi f64_ulp_exp y \<le> y / 2 powi f64_ulp_exp y"
    using assms by (intro divide_right_mono) auto
  from round_even_mono [OF this] show ?thesis
    using assms by (simp add: f64_pos_eq True)
next
  case False
  with exponent_mono [OF assms] have ex: "exponent x < exponent y" "-1074 < exponent y - 52"
    using assms by (auto simp: f64_ulp_exp_def)
  have y: "0 < y" using assms by linarith
  have "x \<le> 2 powi (exponent x + 1)" using exponent_bounds(2) [OF assms(1)] by simp
  also have "\<dots> \<le> 2 powi exponent y" using ex by (intro powi_two_mono) simp
  finally have "x \<le> 2 powi exponent y" .
  then have "f64 x \<le> 2 powi exponent y"
    using ex assms by (intro f64_powi(2)) (auto simp: f64_ulp_exp_def)
  also have "\<dots> \<le> f64 y"
    using ex y exponent_bounds(1) [OF y] by (intro f64_powi(1)) (auto simp: f64_ulp_exp_def)
  finally show ?thesis .
qed

lemma f64_mono:
  assumes "x \<le> y"
  shows "f64 x \<le> f64 y"
proof -
  consider "0 < x" | "x \<le> 0" "0 \<le> y" | "y < 0" using assms by linarith
  then show ?thesis
  proof cases
    case 2
    then have "f64 x \<le> 0" using f64_nonneg [of "- x"] by (simp add: f64_neg)
    also have "0 \<le> f64 y" by (rule f64_nonneg) (rule 2)
    finally show ?thesis .
  next
    case 3
    then show ?thesis using f64_mono_pos [of "- y" "- x"] assms by (simp add: f64_neg)
  qed (use assms f64_mono_pos in simp)
qed

text \<open>Integers below 53 bits are exact.\<close>

lemma f64_int:
  assumes "\<bar>n\<bar> < 2 ^ 53"
  shows "f64 (of_int n) = of_int n"
proof -
  have pos: "f64 (of_int m) = of_int m" if m: "0 < m" "m < 2 ^ 53" for m :: int
  proof -
    let ?x = "of_int m :: rat"
    have x: "0 < ?x" using m by simp
    have "?x < 2 ^ 53" using m(2) by (metis of_int_less_iff of_int_numeral of_int_power)
    have "exponent ?x \<le> 52"
    proof (rule ccontr)
      assume "\<not> ?thesis"
      then have "(2 :: rat) powi 53 \<le> 2 powi exponent ?x" by (intro powi_two_mono) simp
      with exponent_bounds(1) [OF x] \<open>?x < 2 ^ 53\<close> show False by simp
    qed
    then have k: "f64_ulp_exp ?x \<le> 0" using m by (simp add: f64_ulp_exp_def)
    have "?x / 2 powi f64_ulp_exp ?x = of_int (m * 2 ^ nat (- f64_ulp_exp ?x))"
      using k by (simp add: power_int_def field_simps power_inverse)
    then show ?thesis
      by (simp only: f64_pos_eq [OF x] round_even_int) (simp add: field_simps)
  qed
  consider "n = 0" | "0 < n" | "0 < - n" by linarith
  then show ?thesis
  proof cases
    case 3
    then show ?thesis using pos [of "- n"] assms by (simp add: f64_neg)
  qed (use pos assms in auto)
qed

text \<open>The values float64 has: 53-bit multiples of a power of two.\<close>

definition is_float :: "rat \<Rightarrow> bool" where
  "is_float x \<longleftrightarrow> f64 x = x"

lemma f64_multiple:
  assumes "0 < x" "f64_ulp_exp x \<le> k" "x = of_int m * 2 powi k"
  shows "f64 x = x"
proof -
  let ?u = "f64_ulp_exp x"
  have "(2 :: rat) powi k = 2 powi (int (nat (k - ?u)) + ?u)" using assms(2) by simp
  also have "\<dots> = 2 powi int (nat (k - ?u)) * 2 powi ?u" by (rule power_int_add) simp
  also have "(2 :: rat) powi int (nat (k - ?u)) = of_int (2 ^ nat (k - ?u))"
    by (simp only: power_int_of_nat) simp
  finally have k: "(2 :: rat) powi k = of_int (2 ^ nat (k - ?u)) * 2 powi ?u" .
  have "x / 2 powi ?u = of_int m * (2 powi k / 2 powi ?u)"
    by (subst assms(3)) simp
  also have "\<dots> = of_int (m * 2 ^ nat (k - ?u))" by (simp add: k)
  finally have e: "x / 2 powi ?u = of_int (m * 2 ^ nat (k - ?u))" .
  then have "round_even (x / 2 powi ?u) = m * 2 ^ nat (k - ?u)" by (simp only: round_even_int)
  then have "f64 x = of_int (m * 2 ^ nat (k - ?u)) * 2 powi ?u"
    by (simp only: f64_pos_eq [OF assms(1)])
  also have "\<dots> = x" by (simp only: e [symmetric]) simp
  finally show ?thesis .
qed

lemma f64_representable:
  assumes "0 < m" "m \<le> 2 ^ 53" "-1074 \<le> k"
  shows "is_float (of_int m * 2 powi k)"
proof -
  define x where "x = (of_int m * 2 powi k :: rat)"
  have x: "0 < x" using assms by (simp add: x_def)
  show ?thesis
  proof (cases "f64_ulp_exp x \<le> k")
    case True
    then show ?thesis using f64_multiple [OF x True x_def] by (simp add: is_float_def x_def)
  next
    case False
    with assms have u: "f64_ulp_exp x = exponent x - 52" "k + 53 \<le> exponent x"
      using x by (auto simp: f64_ulp_exp_def)
    have "(2 :: rat) powi (k + 53) = 2 ^ 53 * 2 powi k"
      by (simp add: power_int_add)
    moreover have "(2 :: rat) powi (k + 53) \<le> x"
      using powi_two_mono [OF u(2)] exponent_bounds(1) [OF x] by linarith
    ultimately have "(2 :: rat) ^ 53 \<le> of_int m" by (simp add: x_def)
    then have "(2 :: int) ^ 53 \<le> m" by (metis of_int_le_iff of_int_numeral of_int_power)
    with assms have m: "m = 2 ^ 53" by simp
    then have xx: "x = 2 powi (k + 53)" by (simp add: x_def power_int_add)
    have "exponent x \<le> k + 53"
    proof (rule ccontr)
      assume "\<not> ?thesis"
      then have "(2 :: rat) powi (k + 54) \<le> x"
        using powi_two_mono [of "k + 54" "exponent x"] exponent_bounds(1) [OF x] by simp
      then show False by (simp add: xx power_int_add)
    qed
    with u have "f64_ulp_exp x \<le> k + 1" by simp
    moreover have "x = of_int (2 ^ 52) * 2 powi (k + 1)" by (simp add: xx power_int_add)
    ultimately show ?thesis using f64_multiple [OF x, of "k + 1"]
      by (simp add: is_float_def x_def)
  qed
qed

lemma f64_is_float [simp]: "is_float (f64 x)"
proof -
  have pos: "is_float (f64 y)" if y: "0 < y" for y
  proof -
    let ?u = "f64_ulp_exp y" and ?m = "round_even (y / 2 powi f64_ulp_exp y)"
    have "y < 2 powi (exponent y + 1)" by (rule exponent_bounds(2) [OF y])
    also have "\<dots> \<le> 2 powi (53 + ?u)" using y by (intro powi_two_mono) (simp add: f64_ulp_exp_def)
    also have "\<dots> = of_int (2 ^ 53) * 2 powi ?u" by (simp add: power_int_add)
    finally have "y / 2 powi ?u \<le> of_int (2 ^ 53)" by (simp add: divide_le_eq)
    from round_even_mono [OF this] have le: "?m \<le> 2 ^ 53" by (simp only: round_even_int)
    have "0 \<le> y / 2 powi ?u" using y by simp
    from round_even_mono [OF this] round_even_int [of 0] have ge: "0 \<le> ?m" by simp
    show ?thesis
    proof (cases "?m = 0")
      case True
      then show ?thesis by (simp add: f64_pos_eq y is_float_def)
    next
      case False
      with le ge show ?thesis using f64_representable [of ?m ?u] y
        by (simp add: f64_pos_eq f64_ulp_exp_def)
    qed
  qed
  consider "x = 0" | "0 < x" | "0 < - x" by linarith
  then show ?thesis
  proof cases
    case 3
    then show ?thesis using pos [OF 3] by (simp add: f64_neg is_float_def)
  qed (use pos in \<open>auto simp: is_float_def\<close>)
qed

text \<open>\<^verbatim>\<open>math.Ceil\<close> of a float64 is one.\<close>

lemma is_float_ceiling:
  assumes "0 < x" "is_float x"
  shows "is_float (of_int \<lceil>x\<rceil>)"
proof (cases "\<lceil>x\<rceil> < 2 ^ 53")
  case True
  then show ?thesis using assms by (simp add: is_float_def f64_int)
next
  case False
  then have big: "(2 :: rat) ^ 52 \<le> x"
  proof -
    have "of_int (2 ^ 53 - 1) < x" using False by (simp add: less_ceiling_iff [symmetric])
    then show ?thesis by simp
  qed
  have "52 \<le> exponent x"
  proof (rule ccontr)
    assume "\<not> ?thesis"
    then have "(2 :: rat) powi (exponent x + 1) \<le> 2 powi 52" by (intro powi_two_mono) simp
    with big exponent_bounds(2) [OF assms(1)] show False by simp
  qed
  then have u: "0 \<le> f64_ulp_exp x" using assms(1) by (simp add: f64_ulp_exp_def)
  have "x = of_int (round_even (x / 2 powi f64_ulp_exp x)) * 2 powi f64_ulp_exp x"
    using assms f64_pos_eq [OF assms(1)] by (simp add: is_float_def)
  also have "\<dots> = of_int (round_even (x / 2 powi f64_ulp_exp x) * 2 ^ nat (f64_ulp_exp x))"
    using u by (simp add: power_int_def)
  finally have "of_int \<lceil>x\<rceil> = x" by (metis ceiling_of_int)
  then show ?thesis by (simp only: assms(2))
qed

section \<open>The rounding contract\<close>

text \<open>
  What a client of floating point arithmetic relies on, and no more: rounding is monotone, keeps
  zero, and errs by half a unit in the last place.
\<close>

locale rounding =
  fixes rnd :: "rat \<Rightarrow> rat"
    and eps tiny :: rat
  assumes rnd_0: "rnd 0 = 0"
    and rnd_mono: "x \<le> y \<Longrightarrow> rnd x \<le> rnd y"
    and rnd_err: "\<bar>rnd x - x\<bar> \<le> \<bar>x\<bar> * eps + tiny"
    and eps_pos: "0 < eps" "0 < tiny"
begin

lemma rnd_nonneg: "0 \<le> x \<Longrightarrow> 0 \<le> rnd x"
  using rnd_mono [of 0 x] by (simp add: rnd_0)

lemma rnd_up: "0 \<le> x \<Longrightarrow> rnd x \<le> x * (1 + eps) + tiny"
  using rnd_err [of x] by (simp add: abs_le_iff algebra_simps)

text \<open>Rounding below a cap gains at most the error at the cap.\<close>

lemma min_rnd_le:
  assumes "0 \<le> x" "0 \<le> c"
  shows "min c (rnd x) \<le> x + (c * eps + tiny)"
proof (cases "x \<le> c")
  case True
  then have "x * eps \<le> c * eps" using eps_pos by (simp add: mult_right_mono)
  with rnd_up [OF assms(1)] show ?thesis by (simp add: algebra_simps min_le_iff_disj)
next
  case False
  then show ?thesis using assms eps_pos by (simp add: min_le_iff_disj add_increasing2)
qed

lemma rnd_le_cap:
  assumes "0 \<le> x" "x \<le> c"
  shows "rnd x \<le> x + (c * eps + tiny)"
proof -
  have "x * eps \<le> c * eps" using assms eps_pos by (simp add: mult_right_mono)
  with rnd_up [OF assms(1)] show ?thesis by (simp add: algebra_simps)
qed

end

definition f64_eps :: rat where
  "f64_eps = 1 / 2 ^ 53"

definition f64_tiny :: rat where
  "f64_tiny = 1 / 2 ^ 1075"

interpretation ieee: rounding f64 f64_eps f64_tiny
proof unfold_locales
  show "\<bar>f64 x - x\<bar> \<le> \<bar>x\<bar> * f64_eps + f64_tiny" for x
    using f64_error [of x] by (simp add: f64_eps_def f64_tiny_def)
qed (simp_all add: f64_mono f64_eps_def f64_tiny_def)

end
