(* ===== verification/RateLimit.thy ===== *)
theory RateLimit
  imports Float64
begin

text \<open>
  \<^verbatim>\<open>ratelimit.go\<close>: a token bucket per authenticated subject. The limiter of a
  disabled configuration is Go's nil, here \<open>None\<close>, and its methods accept it. Floating
  point values are finite (\<open>Float64\<close>); the readings of the clock are the times the methods
  are called with.
\<close>

section \<open>Durations\<close>

text \<open>\<^verbatim>\<open>time.Time.Sub\<close> saturates at the bounds of a 64-bit duration.\<close>

definition time_sub :: "time \<Rightarrow> time \<Rightarrow> duration" where
  "time_sub t u = max (- (2 ^ 63)) (min (2 ^ 63 - 1) (t - u))"

text \<open>
  \<^verbatim>\<open>time.Duration.Seconds\<close>: whole seconds and the rest, both truncated towards
  zero, added in floating point.
\<close>

definition Seconds :: "duration \<Rightarrow> rat" where
  "Seconds d =
    (let sec = sgn d * (\<bar>d\<bar> div Second); nsec = sgn d * (\<bar>d\<bar> mod Second) in
     f64 (f64 (of_int sec) + f64 (f64 (of_int nsec) / 1000000000)))"

section \<open>The token bucket\<close>

record RateLimit =
  rlRequestsPerSecond :: rat
  rlBurst :: rat
  rlEvictAfter :: duration

definition DefaultLimiterEviction :: duration where
  "DefaultLimiterEviction = 30 * Minute"

record bucket =
  bkRate :: rat
  bkCapacity :: rat
  bkTokens :: rat
  bkLastFill :: time
  bkLastUsed :: time

definition allow :: "bucket \<Rightarrow> time \<Rightarrow> bucket \<times> bool" where
  "allow b now =
    (let elapsed = Seconds (time_sub now (bkLastFill b));
         b = (if 0 < elapsed
              then b\<lparr>bkTokens := min (bkCapacity b) (f64 (bkTokens b + f64 (elapsed * bkRate b))),
                     bkLastFill := now\<rparr>
              else b);
         b = b\<lparr>bkLastUsed := now\<rparr> in
     if 1 \<le> bkTokens b then (b\<lparr>bkTokens := f64 (bkTokens b - 1)\<rparr>, True) else (b, False))"

definition idleSince :: "bucket \<Rightarrow> time" where
  "idleSince b = bkLastUsed b"

section \<open>The limiter\<close>

record RateLimiter =
  limCfg :: RateLimit
  limBuckets :: "bucket gomap"

definition NewRateLimiter :: "RateLimit \<Rightarrow> RateLimiter option" where
  "NewRateLimiter cfg =
    (if rlRequestsPerSecond cfg \<le> 0 then None
     else
       let cfg = (if rlBurst cfg \<le> 0
                  then cfg\<lparr>rlBurst := of_int \<lceil>f64 (rlRequestsPerSecond cfg * 2)\<rceil>\<rparr> else cfg);
           cfg = (if rlEvictAfter cfg \<le> 0
                  then cfg\<lparr>rlEvictAfter := DefaultLimiterEviction\<rparr> else cfg) in
       Some \<lparr>limCfg = cfg, limBuckets = []\<rparr>)"

definition new_bucket :: "RateLimit \<Rightarrow> time \<Rightarrow> bucket" where
  "new_bucket cfg now =
    \<lparr>bkRate = rlRequestsPerSecond cfg, bkCapacity = rlBurst cfg, bkTokens = rlBurst cfg,
     bkLastFill = now, bkLastUsed = now\<rparr>"

definition Allow :: "RateLimiter option \<Rightarrow> time \<Rightarrow> bytes \<Rightarrow> RateLimiter option \<times> bool" where
  "Allow limiter now subject =
    (case limiter of
       None \<Rightarrow> (None, True)
     | Some l \<Rightarrow>
       let b = (case map_of (limBuckets l) subject of
                  Some b \<Rightarrow> b | None \<Rightarrow> new_bucket (limCfg l) now);
           (b', ok) = allow b now in
       (Some (l\<lparr>limBuckets := map_set subject b' (limBuckets l)\<rparr>), ok))"

definition Cleanup :: "RateLimiter option \<Rightarrow> time \<Rightarrow> RateLimiter option \<times> nat" where
  "Cleanup limiter cutoff =
    (case limiter of
       None \<Rightarrow> (None, 0)
     | Some l \<Rightarrow>
       let idle = (\<lambda>b. idleSince b < cutoff) in
       (Some (l\<lparr>limBuckets := map_purge idle (limBuckets l)\<rparr>), map_count idle (limBuckets l)))"

definition limiter_size :: "RateLimiter option \<Rightarrow> nat" where
  "limiter_size limiter = (case limiter of None \<Rightarrow> 0 | Some l \<Rightarrow> length (limBuckets l))"

text \<open>A history of calls; the decision of every call, with its subject.\<close>

datatype limiter_op = AllowOp time bytes | CleanupOp time

fun lim_step :: "RateLimiter option \<Rightarrow> limiter_op \<Rightarrow> RateLimiter option \<times> (bytes \<times> bool) list" where
  "lim_step l (AllowOp now s) = (let (l', ok) = Allow l now s in (l', [(s, ok)]))"
| "lim_step l (CleanupOp cutoff) = (fst (Cleanup l cutoff), [])"

fun lim_run :: "RateLimiter option \<Rightarrow> limiter_op list \<Rightarrow> RateLimiter option \<times> (bytes \<times> bool) list" where
  "lim_run l [] = (l, [])"
| "lim_run l (x # xs) =
    (let (l', d) = lim_step l x; (l'', ds) = lim_run l' xs in (l'', d @ ds))"

definition decisions :: "bytes \<Rightarrow> (bytes \<times> bool) list \<Rightarrow> bool list" where
  "decisions s ds = map snd (filter (\<lambda>d. fst d = s) ds)"

section \<open>Arithmetic of a bucket\<close>

lemma Seconds_neg: "Seconds (- d) = - Seconds d"
  by (simp add: Seconds_def Let_def sgn_minus f64_neg flip: f64_neg) (simp add: f64_neg)

lemma Seconds_nonneg: "0 \<le> d \<Longrightarrow> 0 \<le> Seconds d"
  unfolding Seconds_def Let_def Second_def
  by (intro f64_nonneg add_nonneg_nonneg divide_nonneg_nonneg) (auto simp: sgn_if)

lemma Seconds_pos_imp: "0 < Seconds d \<Longrightarrow> 0 < d"
  using Seconds_nonneg [of "- d"] by (force simp: Seconds_neg)

lemma f64_eps_bound: "(2 + f64_eps) * (1 + f64_eps) \<le> 3"
  by (simp add: f64_eps_def)

text \<open>The seconds of a duration exceed the exact ones by their rounding errors at most.\<close>

lemma Seconds_le:
  assumes "0 \<le> d" "d < 2 ^ 63"
  shows "Seconds d \<le> of_int d / 1000000000 * (1 + f64_eps) ^ 2 + f64_tiny * (2 + f64_eps)"
proof -
  define q r where "q = d div Second" and "r = d mod Second"
  have d: "d = q * 1000000000 + r" by (simp add: q_def r_def Second_def)
  have r: "0 \<le> r" "r < 1000000000" by (simp_all add: r_def Second_def)
  have q: "0 \<le> q" using assms by (simp add: q_def Second_def pos_imp_zdiv_nonneg_iff)
  have "q < 2 ^ 53" using d assms r by simp
  then have fq: "f64 (of_int q) = of_int q" and fr: "f64 (of_int r) = of_int r"
    using q r by (auto intro: f64_int)
  let ?r = "of_int r / 1000000000 :: rat"
  have S: "Seconds d = f64 (of_int q + f64 ?r)"
    using assms fq fr by (cases "d = 0") (simp_all add: Seconds_def q_def r_def sgn_if)
  have r0: "0 \<le> ?r" using r by simp
  have "f64 ?r \<le> ?r * (1 + f64_eps) + f64_tiny" by (rule ieee.rnd_up [OF r0])
  moreover have "(0 :: rat) \<le> of_int q * f64_eps" using q ieee.eps_pos by simp
  ultimately have inner: "of_int q + f64 ?r \<le> (of_int q + ?r) * (1 + f64_eps) + f64_tiny"
    by (simp add: algebra_simps)
  have "0 \<le> of_int q + f64 ?r" using q f64_nonneg [OF r0] by simp
  from ieee.rnd_up [OF this]
  have "Seconds d \<le> (of_int q + f64 ?r) * (1 + f64_eps) + f64_tiny" by (simp add: S)
  also have "\<dots> \<le> ((of_int q + ?r) * (1 + f64_eps) + f64_tiny) * (1 + f64_eps) + f64_tiny"
    using inner ieee.eps_pos by (intro add_right_mono mult_right_mono) auto
  also have "\<dots> = (of_int q + ?r) * (1 + f64_eps) ^ 2 + f64_tiny * (2 + f64_eps)"
    by (simp add: algebra_simps power2_eq_square)
  also have "of_int q + ?r = of_int d / 1000000000"
    by (simp add: d add_divide_distrib)
  finally show ?thesis .
qed

definition bucket_ok :: "bucket \<Rightarrow> bool" where
  "bucket_ok b \<longleftrightarrow> 0 < bkRate b \<and> 0 < bkCapacity b \<and> 0 \<le> bkTokens b \<and> bkTokens b \<le> bkCapacity b
    \<and> is_float (bkTokens b) \<and> is_float (bkCapacity b)"

text \<open>What a call of \<^verbatim>\<open>allow\<close> refills.\<close>

definition refill :: "bucket \<Rightarrow> time \<Rightarrow> bucket" where
  "refill b now =
    (let elapsed = Seconds (time_sub now (bkLastFill b)) in
     if 0 < elapsed
     then b\<lparr>bkTokens := min (bkCapacity b) (f64 (bkTokens b + f64 (elapsed * bkRate b))),
            bkLastFill := now, bkLastUsed := now\<rparr>
     else b\<lparr>bkLastUsed := now\<rparr>)"

lemma allow_refill:
  "allow b now =
    (let r = refill b now in
     if 1 \<le> bkTokens r then (r\<lparr>bkTokens := f64 (bkTokens r - 1)\<rparr>, True) else (r, False))"
  by (simp add: allow_def refill_def Let_def)

lemma refill_sel [simp]:
  "bkRate (refill b now) = bkRate b" "bkCapacity (refill b now) = bkCapacity b"
  "bkLastUsed (refill b now) = now"
  by (simp_all add: refill_def Let_def)

lemma allow_sel [simp]:
  "bkRate (fst (allow b now)) = bkRate b" "bkCapacity (fst (allow b now)) = bkCapacity b"
  "bkLastUsed (fst (allow b now)) = now"
  by (simp_all add: allow_refill Let_def)

lemma is_float_min: "is_float x \<Longrightarrow> is_float y \<Longrightarrow> is_float (min x y)"
  by (simp add: min_def)

lemma refill_ok:
  assumes "bucket_ok b"
  shows "bucket_ok (refill b now)"
proof -
  have "0 \<le> f64 (bkTokens b + f64 (Seconds (time_sub now (bkLastFill b)) * bkRate b))"
    if "0 < Seconds (time_sub now (bkLastFill b))"
    using that assms by (intro f64_nonneg add_nonneg_nonneg) (auto simp: bucket_ok_def)
  with assms show ?thesis by (auto simp: refill_def Let_def bucket_ok_def is_float_min)
qed

lemma f64_dec:
  assumes "1 \<le> t" "is_float t"
  shows "0 \<le> f64 (t - 1)" "f64 (t - 1) \<le> t"
  using f64_mono [of "t - 1" t] f64_nonneg [of "t - 1"] assms by (simp_all add: is_float_def)

lemma allow_ok:
  assumes "bucket_ok b"
  shows "bucket_ok (fst (allow b now))"
proof -
  have r: "bucket_ok (refill b now)" by (rule refill_ok [OF assms])
  show ?thesis
  proof (cases "1 \<le> bkTokens (refill b now)")
    case True
    moreover have "is_float (bkTokens (refill b now))" using r by (simp add: bucket_ok_def)
    ultimately have "0 \<le> f64 (bkTokens (refill b now) - 1)"
      "f64 (bkTokens (refill b now) - 1) \<le> bkTokens (refill b now)"
      by (simp_all add: f64_dec)
    with r True show ?thesis by (simp add: allow_refill Let_def bucket_ok_def)
  next
    case False
    with r show ?thesis by (simp add: allow_refill Let_def)
  qed
qed

text \<open>
  One call: the tokens it leaves, and the one it grants, come from those it found, from the time
  that passed at the rate, and from rounding.
\<close>

definition drift :: "rat \<Rightarrow> rat \<Rightarrow> rat" where
  "drift rate cap = 2 * (cap * f64_eps + f64_tiny) + f64_tiny * (3 * rate + 1)"

lemma gain_le:
  assumes "0 < rate" "0 < Seconds (time_sub now t)"
  shows "f64 (Seconds (time_sub now t) * rate)
    \<le> rate * (1 + f64_eps) ^ 3 * (of_int (now - t) / 1000000000) + f64_tiny * (3 * rate + 1)"
proof -
  let ?d = "time_sub now t" and ?e = "1 + f64_eps"
  let ?D = "of_int (now - t) / 1000000000 :: rat"
  have d: "0 \<le> ?d" "?d < 2 ^ 63" "?d \<le> now - t"
    using Seconds_pos_imp [OF assms(2)] by (auto simp: time_sub_def)
  have e: "0 < ?e" using ieee.eps_pos by simp
  have "of_int ?d / 1000000000 * ?e ^ 2 \<le> ?D * ?e ^ 2"
    using d(3) e by (intro mult_right_mono divide_right_mono) auto
  with Seconds_le [OF d(1,2)]
  have S: "Seconds ?d \<le> ?D * ?e ^ 2 + f64_tiny * (2 + f64_eps)" by linarith
  have "f64 (Seconds ?d * rate) \<le> Seconds ?d * rate * ?e + f64_tiny"
    using assms by (intro ieee.rnd_up) simp
  also have "\<dots> \<le> (?D * ?e ^ 2 + f64_tiny * (2 + f64_eps)) * rate * ?e + f64_tiny"
    using S assms e by (intro add_right_mono mult_right_mono) auto
  also have "\<dots> = rate * ?e ^ 3 * ?D + f64_tiny * (rate * ((2 + f64_eps) * ?e) + 1)"
    by (simp add: algebra_simps power2_eq_square power3_eq_cube)
  also have "\<dots> \<le> rate * ?e ^ 3 * ?D + f64_tiny * (rate * 3 + 1)"
    using assms(1) ieee.eps_pos f64_eps_bound
    by (intro add_left_mono mult_left_mono add_right_mono) auto
  finally show ?thesis by (simp add: mult.commute)
qed

lemma allow_step_bound:
  fixes now :: time
  assumes ok: "bucket_ok b"
  defines "b' \<equiv> fst (allow b now)" and "ok' \<equiv> snd (allow b now)"
  shows "(if ok' then 1 else 0) + bkTokens b'
      \<le> bkTokens b + bkRate b * (1 + f64_eps) ^ 3
          * (of_int (bkLastFill b' - bkLastFill b) / 1000000000) + drift (bkRate b) (bkCapacity b)"
    and "bkLastFill b \<le> bkLastFill b'"
    and "bkLastFill b' \<in> {bkLastFill b, now}"
proof -
  let ?r = "refill b now" and ?c = "bkCapacity b" and ?rate = "bkRate b"
  let ?gain = "?rate * (1 + f64_eps) ^ 3 * (of_int (bkLastFill ?r - bkLastFill b) / 1000000000)"
  let ?el = "Seconds (time_sub now (bkLastFill b))"
  have tiny: "0 < f64_tiny" "0 < f64_eps" using ieee.eps_pos by auto
  have pos: "0 \<le> ?c * f64_eps" "0 \<le> f64_tiny * (3 * ?rate + 1)"
    using ok tiny by (auto simp: bucket_ok_def)
  have lf: "bkLastFill b' = bkLastFill ?r"
    by (simp add: b'_def allow_refill Let_def)
  have r: "bkTokens ?r \<le> bkTokens b + ?gain + (?c * f64_eps + f64_tiny)
      + f64_tiny * (3 * ?rate + 1)"
  proof (cases "0 < ?el")
    case True
    have g0: "0 \<le> f64 (?el * ?rate)" using True ok by (intro f64_nonneg) (simp add: bucket_ok_def)
    have "min ?c (f64 (bkTokens b + f64 (?el * ?rate)))
        \<le> bkTokens b + f64 (?el * ?rate) + (?c * f64_eps + f64_tiny)"
      using ok g0 by (intro ieee.min_rnd_le) (auto simp: bucket_ok_def)
    moreover have "f64 (?el * ?rate)
        \<le> ?rate * (1 + f64_eps) ^ 3 * (of_int (now - bkLastFill b) / 1000000000)
            + f64_tiny * (3 * ?rate + 1)"
      using ok True by (intro gain_le) (auto simp: bucket_ok_def)
    ultimately show ?thesis using True by (simp add: refill_def Let_def)
  next
    case False
    then show ?thesis using pos tiny by (simp add: refill_def Let_def)
  qed
  have "bucket_ok ?r" by (rule refill_ok [OF ok])
  then have cap: "bkTokens ?r \<le> ?c" by (simp add: bucket_ok_def)
  have dec: "1 + f64 (bkTokens ?r - 1) \<le> bkTokens ?r + (?c * f64_eps + f64_tiny)"
    if "1 \<le> bkTokens ?r"
    using ieee.rnd_le_cap [of "bkTokens ?r - 1" ?c] that cap by simp
  show "(if ok' then 1 else 0) + bkTokens b'
      \<le> bkTokens b + ?rate * (1 + f64_eps) ^ 3
          * (of_int (bkLastFill b' - bkLastFill b) / 1000000000) + drift ?rate ?c"
  proof (cases "1 \<le> bkTokens ?r")
    case True
    then have s: "ok'" "bkTokens b' = f64 (bkTokens ?r - 1)"
      by (simp_all add: b'_def ok'_def allow_refill Let_def)
    show ?thesis using r dec [OF True] by (simp add: s lf drift_def)
  next
    case False
    then have s: "\<not> ok'" "bkTokens b' = bkTokens ?r"
      by (simp_all add: b'_def ok'_def allow_refill Let_def)
    show ?thesis using r tiny pos by (simp add: s lf drift_def)
  qed
  show "bkLastFill b \<le> bkLastFill b'"
    using Seconds_pos_imp [of "time_sub now (bkLastFill b)"]
    by (simp add: lf refill_def Let_def time_sub_def split: if_splits) linarith
  show "bkLastFill b' \<in> {bkLastFill b, now}" by (simp add: lf refill_def Let_def)
qed

section \<open>A bucket over a sequence of calls\<close>

fun allow_run :: "bucket \<Rightarrow> time list \<Rightarrow> bucket \<times> bool list" where
  "allow_run b [] = (b, [])"
| "allow_run b (t # ts) =
    (let (b', ok) = allow b t; (b'', oks) = allow_run b' ts in (b'', ok # oks))"

lemma allow_run_Cons:
  "fst (allow_run b (t # ts)) = fst (allow_run (fst (allow b t)) ts)"
  "snd (allow_run b (t # ts)) = snd (allow b t) # snd (allow_run (fst (allow b t)) ts)"
  by (simp_all add: case_prod_beta Let_def)

lemma allow_run_ok: "bucket_ok b \<Longrightarrow> bucket_ok (fst (allow_run b ts))"
  by (induction ts arbitrary: b) (simp_all only: allow_run_Cons allow_ok allow_run.simps(1) fst_conv)

lemma allow_run_bound:
  assumes "bucket_ok b"
  shows "of_nat (count_list (snd (allow_run b ts)) True) + bkTokens (fst (allow_run b ts))
    \<le> bkTokens b + bkRate b * (1 + f64_eps) ^ 3
        * (of_int (bkLastFill (fst (allow_run b ts)) - bkLastFill b) / 1000000000)
      + of_nat (length ts) * drift (bkRate b) (bkCapacity b)"
  using assms
proof (induction ts arbitrary: b)
  case (Cons t ts)
  let ?b = "fst (allow b t)" and ?k = "bkRate b * (1 + f64_eps) ^ 3"
  let ?z = "bkLastFill (fst (allow_run ?b ts))"
  have split: "?k * (of_int (?z - bkLastFill b) / 1000000000)
      = ?k * (of_int (bkLastFill ?b - bkLastFill b) / 1000000000)
        + ?k * (of_int (?z - bkLastFill ?b) / 1000000000)"
    by (simp flip: distrib_left add_divide_distrib)
  have len: "of_nat (length (t # ts)) * drift (bkRate b) (bkCapacity b)
      = drift (bkRate b) (bkCapacity b) + of_nat (length ts) * drift (bkRate b) (bkCapacity b)"
    by (simp add: algebra_simps)
  have count: "of_nat (count_list (snd (allow_run b (t # ts))) True)
      = (if snd (allow b t) then 1 else 0 :: rat) + of_nat (count_list (snd (allow_run ?b ts)) True)"
    by (simp only: allow_run_Cons) simp
  show ?case
    unfolding count allow_run_Cons(1) split len
    using Cons.IH [OF allow_ok [OF Cons.prems, of t]] allow_step_bound(1) [OF Cons.prems, of t]
    unfolding allow_sel by linarith
qed simp

lemma allow_run_lastFill:
  "bkLastFill (fst (allow_run b ts)) \<in> insert (bkLastFill b) (set ts)"
proof (induction ts arbitrary: b)
  case (Cons t ts)
  have "bkLastFill (fst (allow b t)) \<in> {bkLastFill b, t}"
    by (simp add: allow_refill refill_def Let_def)
  with Cons [of "fst (allow b t)"] show ?case by (simp only: allow_run_Cons) auto
qed simp

section \<open>The limiter keeps its buckets sound\<close>

definition float_cfg :: "RateLimit \<Rightarrow> bool" where
  "float_cfg cfg \<longleftrightarrow> is_float (rlRequestsPerSecond cfg) \<and> is_float (rlBurst cfg)"

definition limiter_ok :: "RateLimiter \<Rightarrow> bool" where
  "limiter_ok l \<longleftrightarrow> wf_map (limBuckets l) \<and> 0 < rlRequestsPerSecond (limCfg l)
    \<and> 0 < rlBurst (limCfg l) \<and> is_float (rlBurst (limCfg l))
    \<and> (\<forall>s b. map_of (limBuckets l) s = Some b \<longrightarrow>
         bucket_ok b \<and> bkRate b = rlRequestsPerSecond (limCfg l) \<and> bkCapacity b = rlBurst (limCfg l))"

lemma NewRateLimiter_ok:
  assumes "NewRateLimiter cfg = Some l" "float_cfg cfg"
  shows "limiter_ok l" "limBuckets l = []"
    "rlRequestsPerSecond (limCfg l) = rlRequestsPerSecond cfg"
    "0 < rlEvictAfter (limCfg l)"
proof -
  let ?r = "rlRequestsPerSecond cfg"
  have r: "0 < ?r" using assms(1) by (simp add: NewRateLimiter_def split: if_splits)
  have "?r \<le> f64 (?r * 2)"
    using f64_mono [of ?r "?r * 2"] assms(2) r by (simp add: float_cfg_def is_float_def)
  then have "0 < f64 (?r * 2)" using r by linarith
  then have "is_float (of_int \<lceil>f64 (?r * 2)\<rceil>)" "0 < \<lceil>f64 (?r * 2)\<rceil>"
    by (simp_all add: is_float_ceiling)
  then show "limiter_ok l" "limBuckets l = []" "rlRequestsPerSecond (limCfg l) = ?r"
    "0 < rlEvictAfter (limCfg l)"
    using assms r
    by (auto simp: NewRateLimiter_def Let_def limiter_ok_def float_cfg_def
        DefaultLimiterEviction_def Minute_def Second_def split: if_splits)
qed

lemma new_bucket_ok:
  "limiter_ok l \<Longrightarrow> bucket_ok (new_bucket (limCfg l) now)"
  by (simp add: limiter_ok_def bucket_ok_def new_bucket_def)

lemma new_bucket_sel [simp]:
  "bkRate (new_bucket cfg now) = rlRequestsPerSecond cfg" "bkCapacity (new_bucket cfg now) = rlBurst cfg"
  "bkTokens (new_bucket cfg now) = rlBurst cfg" "bkLastFill (new_bucket cfg now) = now"
  by (simp_all add: new_bucket_def)

text \<open>The bucket a call works on, and the two operations by what they do to it.\<close>

definition bucket_for :: "RateLimiter \<Rightarrow> time \<Rightarrow> bytes \<Rightarrow> bucket" where
  "bucket_for l now s =
    (case map_of (limBuckets l) s of Some b \<Rightarrow> b | None \<Rightarrow> new_bucket (limCfg l) now)"

lemma Allow_Some:
  "Allow (Some l) now s =
    (Some (l\<lparr>limBuckets := map_set s (fst (allow (bucket_for l now s) now)) (limBuckets l)\<rparr>),
     snd (allow (bucket_for l now s) now))"
  by (simp add: Allow_def bucket_for_def Let_def case_prod_beta)

lemma Cleanup_Some:
  "Cleanup (Some l) cutoff =
    (Some (l\<lparr>limBuckets := map_purge (\<lambda>b. idleSince b < cutoff) (limBuckets l)\<rparr>),
     map_count (\<lambda>b. idleSince b < cutoff) (limBuckets l))"
  by (simp add: Cleanup_def Let_def)

lemma bucket_for_ok:
  "limiter_ok l \<Longrightarrow> bucket_ok (bucket_for l now s)
    \<and> bkRate (bucket_for l now s) = rlRequestsPerSecond (limCfg l)
    \<and> bkCapacity (bucket_for l now s) = rlBurst (limCfg l)"
  by (auto simp: bucket_for_def new_bucket_ok limiter_ok_def [of l] split: option.splits)

lemma lim_step_ok:
  assumes "limiter_ok l"
  shows "\<exists>l'. fst (lim_step (Some l) x) = Some l' \<and> limiter_ok l' \<and> limCfg l' = limCfg l"
proof (cases x)
  case (AllowOp now s)
  with assms bucket_for_ok [OF assms, of now s] show ?thesis
    by (auto simp: Allow_Some limiter_ok_def allow_ok)
next
  case (CleanupOp cutoff)
  with assms show ?thesis
    by (auto simp: Cleanup_Some limiter_ok_def map_of_map_purge_Some)
qed

lemma lim_run_Cons:
  "fst (lim_run l (x # xs)) = fst (lim_run (fst (lim_step l x)) xs)"
  "snd (lim_run l (x # xs)) = snd (lim_step l x) @ snd (lim_run (fst (lim_step l x)) xs)"
  by (simp_all add: case_prod_beta Let_def)

lemma lim_run_ok:
  "limiter_ok l \<Longrightarrow>
    \<exists>l'. fst (lim_run (Some l) ops) = Some l' \<and> limiter_ok l' \<and> limCfg l' = limCfg l"
proof (induction ops arbitrary: l)
  case (Cons x xs)
  from lim_step_ok [OF Cons.prems, of x] obtain l' where
    l': "fst (lim_step (Some l) x) = Some l'" "limiter_ok l'" "limCfg l' = limCfg l" by blast
  from Cons.IH [OF l'(2)] l'(1,3) show ?case by (simp only: lim_run_Cons)
qed simp

section \<open>Subjects do not affect each other\<close>

fun concerns :: "bytes \<Rightarrow> limiter_op \<Rightarrow> bool" where
  "concerns s (AllowOp _ s') = (s' = s)"
| "concerns s (CleanupOp _) = True"

lemma lim_step_other:
  assumes "\<not> concerns s x"
  shows "\<exists>l'. fst (lim_step (Some l) x) = Some l' \<and> limCfg l' = limCfg l
    \<and> map_of (limBuckets l') s = map_of (limBuckets l) s
    \<and> decisions s (snd (lim_step (Some l) x)) = [] \<and> (limiter_ok l \<longrightarrow> limiter_ok l')"
  using assms lim_step_ok [of l x]
  by (cases x) (auto simp: Allow_Some decisions_def)

lemma lim_step_same:
  assumes "concerns s x" "limCfg l = limCfg m" "map_of (limBuckets l) s = map_of (limBuckets m) s"
    "limiter_ok l" "limiter_ok m"
  shows "\<exists>l' m'. fst (lim_step (Some l) x) = Some l' \<and> fst (lim_step (Some m) x) = Some m'
    \<and> limCfg l' = limCfg m' \<and> map_of (limBuckets l') s = map_of (limBuckets m') s
    \<and> snd (lim_step (Some l) x) = snd (lim_step (Some m) x) \<and> limiter_ok l' \<and> limiter_ok m'"
proof (cases x)
  case (AllowOp now s')
  with assms have "bucket_for l now s' = bucket_for m now s'" by (simp add: bucket_for_def assms(2) split: option.splits)
  with AllowOp assms lim_step_ok [OF assms(4), of x] lim_step_ok [OF assms(5), of x]
  show ?thesis by (auto simp: Allow_Some)
next
  case (CleanupOp cutoff)
  with assms lim_step_ok [OF assms(4), of x] lim_step_ok [OF assms(5), of x] show ?thesis
    by (auto simp: Cleanup_Some map_of_map_purge limiter_ok_def drop_where_def)
qed

lemma decisions_append: "decisions s (xs @ ys) = decisions s xs @ decisions s ys"
  by (simp add: decisions_def)

lemma lim_run_filter:
  assumes "limCfg l = limCfg m" "map_of (limBuckets l) s = map_of (limBuckets m) s"
    "limiter_ok l" "limiter_ok m"
  shows "decisions s (snd (lim_run (Some l) ops))
    = decisions s (snd (lim_run (Some m) (filter (concerns s) ops)))"
  using assms
proof (induction ops arbitrary: l m)
  case (Cons x xs)
  show ?case
  proof (cases "concerns s x")
    case True
    from lim_step_same [OF True Cons.prems] Cons.IH True show ?thesis
      by (auto simp: lim_run_Cons decisions_append simp del: lim_run.simps)
  next
    case False
    from lim_step_other [OF False, of l] Cons.IH [where m = m] Cons.prems False show ?thesis
      by (auto simp: lim_run_Cons decisions_append simp del: lim_run.simps)
  qed
qed simp

text \<open>One subject's traffic never costs another: over any sequence of calls and cleanups the
  limiter gives a subject exactly the decisions it would give if no other subject had called.\<close>

theorem limiter_isolates_subjects:
  assumes "NewRateLimiter cfg = Some l" "float_cfg cfg"
  shows "decisions s (snd (lim_run (Some l) ops))
    = decisions s (snd (lim_run (Some l) (filter (concerns s) ops)))"
  using lim_run_filter [OF refl refl] NewRateLimiter_ok(1) [OF assms] by blast

section \<open>How much a subject is granted\<close>

fun calls_of :: "bytes \<Rightarrow> limiter_op list \<Rightarrow> time list" where
  "calls_of s [] = []"
| "calls_of s (AllowOp t s' # ops) = (if s' = s then t # calls_of s ops else calls_of s ops)"
| "calls_of s (CleanupOp _ # ops) = calls_of s ops"

lemma lim_run_allow_run:
  assumes "\<forall>c. CleanupOp c \<notin> set ops" "map_of (limBuckets l) s = Some b"
  shows "decisions s (snd (lim_run (Some l) ops)) = snd (allow_run b (calls_of s ops))"
  using assms
proof (induction ops arbitrary: l b)
  case (Cons x xs)
  then obtain t s' where x: "x = AllowOp t s'" by (cases x) auto
  let ?l = "l\<lparr>limBuckets := map_set s' (fst (allow (bucket_for l t s') t)) (limBuckets l)\<rparr>"
  have step: "lim_step (Some l) (AllowOp t s') = (Some ?l, [(s', snd (allow (bucket_for l t s') t))])"
    by (simp add: Allow_Some)
  have run: "decisions s (snd (lim_run (Some l) (x # xs)))
      = (if s' = s then [snd (allow (bucket_for l t s') t)] else [])
        @ decisions s (snd (lim_run (Some ?l) xs))"
    unfolding x lim_run_Cons step decisions_append fst_conv snd_conv by (simp add: decisions_def)
  have nc: "\<forall>c. CleanupOp c \<notin> set xs" using Cons.prems(1) by simp
  show ?case
  proof (cases "s' = s")
    case True
    then have b: "bucket_for l t s' = b" using Cons.prems(2) by (simp add: bucket_for_def)
    have "map_of (limBuckets ?l) s = Some (fst (allow b t))" using True b by simp
    from Cons.IH [OF nc this] True b show ?thesis
      unfolding run by (simp add: x allow_run_Cons del: allow_run.simps(2))
  next
    case False
    then have "map_of (limBuckets ?l) s = Some b" using Cons.prems(2) by simp
    from Cons.IH [OF nc this] False show ?thesis unfolding run by (simp add: x)
  qed
qed (simp add: decisions_def)

lemma lim_run_fresh:
  assumes "\<forall>c. CleanupOp c \<notin> set ops" "map_of (limBuckets l) s = None"
  shows "decisions s (snd (lim_run (Some l) ops))
    = (case calls_of s ops of [] \<Rightarrow> []
       | t # ts \<Rightarrow> snd (allow_run (new_bucket (limCfg l) t) (t # ts)))"
  using assms
proof (induction ops arbitrary: l)
  case (Cons x xs)
  then obtain t s' where x: "x = AllowOp t s'" by (cases x) auto
  let ?l = "l\<lparr>limBuckets := map_set s' (fst (allow (bucket_for l t s') t)) (limBuckets l)\<rparr>"
  have step: "lim_step (Some l) (AllowOp t s') = (Some ?l, [(s', snd (allow (bucket_for l t s') t))])"
    by (simp add: Allow_Some)
  have run: "decisions s (snd (lim_run (Some l) (x # xs)))
      = (if s' = s then [snd (allow (bucket_for l t s') t)] else [])
        @ decisions s (snd (lim_run (Some ?l) xs))"
    unfolding x lim_run_Cons step decisions_append fst_conv snd_conv by (simp add: decisions_def)
  have nc: "\<forall>c. CleanupOp c \<notin> set xs" using Cons.prems(1) by simp
  show ?case
  proof (cases "s' = s")
    case True
    then have b: "bucket_for l t s' = new_bucket (limCfg l) t"
      using Cons.prems(2) by (simp add: bucket_for_def)
    have "map_of (limBuckets ?l) s = Some (fst (allow (new_bucket (limCfg l) t) t))"
      using True b by simp
    from lim_run_allow_run [OF nc this] True b show ?thesis
      unfolding run by (simp add: x allow_run_Cons del: allow_run.simps(2))
  next
    case False
    then have "map_of (limBuckets ?l) s = None" using Cons.prems(2) by simp
    from Cons.IH [OF nc this] False show ?thesis
      unfolding run by (simp add: x del: allow_run.simps split: list.splits)
  qed
qed (simp add: decisions_def)

lemma count_fresh_bound:
  assumes "limiter_ok l"
  shows "of_nat (count_list (snd (allow_run (new_bucket (limCfg l) t) (t # ts))) True)
    \<le> rlBurst (limCfg l)
      + rlRequestsPerSecond (limCfg l) * (1 + f64_eps) ^ 3
          * (of_int (Max (set (t # ts)) - t) / 1000000000)
      + of_nat (length (t # ts)) * drift (rlRequestsPerSecond (limCfg l)) (rlBurst (limCfg l))"
proof -
  let ?b = "new_bucket (limCfg l) t" and ?k = "rlRequestsPerSecond (limCfg l) * (1 + f64_eps) ^ 3"
  let ?b' = "fst (allow_run ?b (t # ts))"
  have ok: "bucket_ok ?b" by (rule new_bucket_ok [OF assms])
  have "0 \<le> bkTokens ?b'" using allow_run_ok [OF ok, of "t # ts"] by (simp add: bucket_ok_def)
  moreover have "?k * (of_int (bkLastFill ?b' - t) / 1000000000)
      \<le> ?k * (of_int (Max (set (t # ts)) - t) / 1000000000)"
  proof (intro mult_left_mono divide_right_mono)
    have "bkLastFill ?b' \<in> set (t # ts)" using allow_run_lastFill [of ?b "t # ts"] by auto
    then show "(of_int (bkLastFill ?b' - t) :: rat) \<le> of_int (Max (set (t # ts)) - t)"
      by (simp only: of_int_le_iff diff_right_mono Max_ge List.finite_set)
    show "0 \<le> ?k" using assms ieee.eps_pos by (simp add: limiter_ok_def)
  qed simp
  ultimately show ?thesis using allow_run_bound [OF ok, of "t # ts"] by (simp only: new_bucket_sel)
qed

text \<open>The admission bound the limiter exists for: as long as its bucket is not evicted, a
  subject calling at the times \<open>ts\<close> (whatever the others do, and even if the clock steps
  back) is granted at most the burst plus the rate times the seconds from its first call to its
  latest, up to an explicit rounding term per call.\<close>

theorem admission_bound:
  assumes "NewRateLimiter cfg = Some l" "float_cfg cfg" "\<forall>c. CleanupOp c \<notin> set ops"
    "calls_of s ops = t # ts"
  shows "of_nat (count_list (decisions s (snd (lim_run (Some l) ops))) True)
    \<le> rlBurst (limCfg l)
      + rlRequestsPerSecond (limCfg l) * (1 + f64_eps) ^ 3
          * (of_int (Max (set (t # ts)) - t) / 1000000000)
      + of_nat (length (t # ts)) * drift (rlRequestsPerSecond (limCfg l)) (rlBurst (limCfg l))"
proof -
  have ok: "limiter_ok l" and new: "map_of (limBuckets l) s = None"
    using NewRateLimiter_ok [OF assms(1,2)] by simp_all
  show ?thesis
    using count_fresh_bound [OF ok, of t ts]
    by (simp only: lim_run_fresh [OF assms(3) new] assms(4) list.case)
qed

text \<open>The tokens of every bucket stay between zero and the burst, through any sequence of
  calls and cleanups and any readings of the clock, and every bucket works at the configured rate.\<close>

theorem tokens_within_burst:
  assumes "NewRateLimiter cfg = Some l" "float_cfg cfg"
    "fst (lim_run (Some l) ops) = Some l'" "map_of (limBuckets l') s = Some b"
  shows "0 \<le> bkTokens b \<and> bkTokens b \<le> rlBurst (limCfg l)
    \<and> bkRate b = rlRequestsPerSecond cfg \<and> bkCapacity b = rlBurst (limCfg l)"
proof -
  from lim_run_ok [OF NewRateLimiter_ok(1) [OF assms(1,2)], of ops] assms(3)
  have "limiter_ok l'" "limCfg l' = limCfg l" by auto
  with assms(4) have "bucket_ok b" "bkRate b = rlRequestsPerSecond (limCfg l)"
    "bkCapacity b = rlBurst (limCfg l)" by (auto simp: limiter_ok_def)
  then show ?thesis using NewRateLimiter_ok(3) [OF assms(1,2)] by (simp add: bucket_ok_def)
qed

lemma refill_fresh: "refill (new_bucket cfg now) now = new_bucket cfg now"
  by (simp add: refill_def new_bucket_def time_sub_def Seconds_def)

text \<open>A subject's first request is granted exactly when the burst is at least one: with a
  fractional burst below one it is refused, like every later one, for the bucket never holds a whole
  token.\<close>

theorem first_request_granted_iff:
  assumes "NewRateLimiter cfg = Some l" "float_cfg cfg"
    "fst (lim_run (Some l) ops) = Some l'" "map_of (limBuckets l') s = None"
  shows "(snd (Allow (Some l') now s) \<longleftrightarrow> 1 \<le> rlBurst (limCfg l))
    \<and> (rlBurst (limCfg l) < 1 \<longrightarrow> (\<forall>now' s'. \<not> snd (Allow (Some l') now' s')))"
proof -
  from lim_run_ok [OF NewRateLimiter_ok(1) [OF assms(1,2)], of ops] assms(3)
  have ok: "limiter_ok l'" and cfg: "limCfg l' = limCfg l" by auto
  have "snd (Allow (Some l') now s) \<longleftrightarrow> 1 \<le> rlBurst (limCfg l)"
    using assms(4) by (simp add: Allow_Some bucket_for_def allow_refill refill_fresh cfg Let_def)
  moreover have "\<not> snd (Allow (Some l') now' s')" if "rlBurst (limCfg l) < 1" for now' s'
  proof -
    have "bucket_ok (refill (bucket_for l' now' s') now')"
      "bkCapacity (refill (bucket_for l' now' s') now') = rlBurst (limCfg l)"
      using bucket_for_ok [OF ok] by (auto simp: refill_ok cfg)
    with that show ?thesis by (simp add: Allow_Some allow_refill Let_def bucket_ok_def)
  qed
  ultimately show ?thesis by blast
qed

text \<open>A cleanup evicts exactly the buckets not used since the cutoff, reports how many, and
  leaves the others as they are; and evicting a bucket whose idle time refills it by the next call
  is not observable: that call is decided the same, and leaves the same bucket, either way.\<close>

theorem cleanup_exact_and_harmless:
  assumes "limiter_ok l" "Cleanup (Some l) cutoff = (Some l', n)"
  shows "(map_of (limBuckets l') s = Some b
      \<longleftrightarrow> map_of (limBuckets l) s = Some b \<and> cutoff \<le> bkLastUsed b)
    \<and> n + length (limBuckets l') = length (limBuckets l)
    \<and> (map_of (limBuckets l) s = Some b
         \<and> bkCapacity b \<le> f64 (Seconds (time_sub now (bkLastFill b)) * bkRate b)
       \<longrightarrow> snd (Allow (Some l') now s) = snd (Allow (Some l) now s)
         \<and> map_of (limBuckets (the (fst (Allow (Some l') now s)))) s
            = map_of (limBuckets (the (fst (Allow (Some l) now s)))) s)"
proof -
  have l': "limCfg l' = limCfg l" "limBuckets l' = map_purge (\<lambda>b. idleSince b < cutoff) (limBuckets l)"
    and n: "n = map_count (\<lambda>b. idleSince b < cutoff) (limBuckets l)"
    using assms(2) by (auto simp: Cleanup_Some)
  have wf: "wf_map (limBuckets l)" using assms(1) by (simp add: limiter_ok_def)
  have "allow (bucket_for l' now s) now = allow b now"
    if b: "map_of (limBuckets l) s = Some b"
      and full: "bkCapacity b \<le> f64 (Seconds (time_sub now (bkLastFill b)) * bkRate b)"
  proof (cases "idleSince b < cutoff")
    case False
    with b have "map_of (limBuckets l') s = Some b" by (simp add: l' map_of_map_purge_Some wf)
    then show ?thesis by (simp add: bucket_for_def)
  next
    case True
    with b have "map_of (limBuckets l') s = None"
      by (auto simp: l' map_of_map_purge [OF wf] drop_where_def)
    then have new: "bucket_for l' now s = new_bucket (limCfg l) now"
      by (simp add: bucket_for_def l')
    have ok: "bucket_ok b" "bkRate b = rlRequestsPerSecond (limCfg l)"
      "bkCapacity b = rlBurst (limCfg l)" using assms(1) b by (auto simp: limiter_ok_def)
    let ?el = "Seconds (time_sub now (bkLastFill b))"
    have "0 < f64 (?el * bkRate b)" using full ok(1) by (simp add: bucket_ok_def)
    then have "0 < ?el * bkRate b"
      using f64_mono [of "?el * bkRate b" 0] by (metis f64_0 not_le)
    then have el: "0 < ?el" using ok(1) by (simp add: bucket_ok_def zero_less_mult_iff)
    have "bkCapacity b = f64 (bkCapacity b)" using ok(1) by (simp add: bucket_ok_def is_float_def)
    also have "\<dots> \<le> f64 (bkTokens b + f64 (?el * bkRate b))"
      using full ok(1) by (intro f64_mono) (simp add: bucket_ok_def)
    finally have "min (bkCapacity b) (f64 (bkTokens b + f64 (?el * bkRate b))) = bkCapacity b" by simp
    with el have "refill b now = new_bucket (limCfg l) now"
      using ok(2,3) by (simp add: refill_def Let_def new_bucket_def)
    then show ?thesis by (simp add: allow_refill refill_fresh new)
  qed
  moreover have "bucket_for l now s = b" if "map_of (limBuckets l) s = Some b"
    using that by (simp add: bucket_for_def)
  ultimately show ?thesis
    using map_count_purge [of "\<lambda>b. idleSince b < cutoff" "limBuckets l"]
    by (auto simp: Allow_Some l'(2) n map_of_map_purge_Some [OF wf] idleSince_def)
qed

end
