(* ===== verification/ServerState.thy ===== *)
theory ServerState
  imports RunnerPool SessionStore Catalog RateLimit
begin

text \<open>
  The server's configuration and state (\<^verbatim>\<open>server.go\<close>), and requests, responses and
  handlers as the model has them. A handler is a step on the server's state: it takes the state and
  a request and gives the response and the new state. What Go keeps in the request's context is part
  of the request. Header names are written as in the sources; a header is looked up by that name.
\<close>

section \<open>Configuration and state\<close>

type_synonym Validator = "bytes \<Rightarrow> bytes \<Rightarrow> Identity option"

record Config =
  cfgListenAddr :: bytes
  cfgAudience :: bytes
  cfgAllowedOrigins :: "bytes list"
  cfgValidator :: "Validator option"
  cfgServerVersion :: bytes
  cfgSessions :: "InMemorySessionStore option"
  cfgRunner :: "runner_id option"
  cfgBackend :: "Backend option"
  cfgBackendShareSafe :: bool
  cfgCatalog :: "Catalog option"
  cfgIdleTimeout :: duration
  cfgSweepInterval :: duration
  cfgRateLimit :: RateLimit
  cfgPoolIdleTimeout :: duration

record Server =
  svCfg :: Config
  svSessions :: InMemorySessionStore
  svRunner :: "runner_id option"
  svPool :: "RunnerPool option"
  svBackendCaps :: "ServerCapabilities option"
  svCatalog :: "Catalog option"
  svLimiter :: "RateLimiter option"
  svWorld :: World

section \<open>Requests, responses, handlers\<close>

text \<open>
  The body of a request is the bytes that can be read, and whether reading fails after them. A
  stream's writes succeed or fail in turn, until the client is gone.
\<close>

record Request =
  rqHeaders :: headers
  rqBody :: bytes
  rqBodyFails :: bool
  rqFlusher :: bool
  rqWrites :: "bool list"
  rqIdentity :: "Identity option"
  rqProtocolVersion :: "bytes option"

datatype body = NoBody | Text bytes | Rpc JSONRPCMessage | EventStream bytes

record Response =
  rsStatus :: nat
  rsHeaders :: headers
  rsBody :: body

type_synonym handler = "Server \<Rightarrow> Request \<Rightarrow> Response \<times> Server"
type_synonym middleware = "handler \<Rightarrow> handler"

definition newline :: bytes where
  "newline = [CHR 0x0A]"

definition http_Error :: "bytes \<Rightarrow> nat \<Rightarrow> Response" where
  "http_Error msg code =
    \<lparr>rsStatus = code,
     rsHeaders = [(''Content-Type'', ''text/plain; charset=utf-8''),
       (''X-Content-Type-Options'', ''nosniff'')],
     rsBody = Text (msg @ newline)\<rparr>"

definition IdentityFromContext :: "Request \<Rightarrow> Identity" where
  "IdentityFromContext rq =
    (case rqIdentity rq of Some i \<Rightarrow> i | None \<Rightarrow> \<lparr>idSubject = [], idScopes = []\<rparr>)"

definition writeJSONRPC :: "JSONRPCMessage \<Rightarrow> Response" where
  "writeJSONRPC msg =
    \<lparr>rsStatus = 200, rsHeaders = [(''Content-Type'', ''application/json'')], rsBody = Rpc msg\<rparr>"

lemma http_Error_sel [simp]:
  "rsStatus (http_Error m c) = c" "rsBody (http_Error m c) = Text (m @ newline)"
  by (simp_all add: http_Error_def)

lemma writeJSONRPC_sel [simp]:
  "rsStatus (writeJSONRPC m) = 200" "rsBody (writeJSONRPC m) = Rpc m"
  by (simp_all add: writeJSONRPC_def)

section \<open>What a rejected request may touch\<close>

text \<open>
  Two states agree up to the rate limiter and the reading of the clock: same sessions, same
  backing processes, nothing done with any of them.
\<close>

definition same_core :: "Server \<Rightarrow> Server \<Rightarrow> bool" where
  "same_core s s' \<longleftrightarrow>
    svCfg s' = svCfg s \<and> svSessions s' = svSessions s \<and> svRunner s' = svRunner s
    \<and> svPool s' = svPool s \<and> svBackendCaps s' = svBackendCaps s \<and> svCatalog s' = svCatalog s
    \<and> wTrace (svWorld s') = wTrace (svWorld s) \<and> wNext (svWorld s') = wNext (svWorld s)
    \<and> wRand (svWorld s') = wRand (svWorld s)"

lemma same_core_refl [simp]: "same_core s s"
  by (simp add: same_core_def)

lemma same_core_trans: "same_core s t \<Longrightarrow> same_core t u \<Longrightarrow> same_core s u"
  by (simp add: same_core_def)

end
