(* ===== verification/Middleware.thy ===== *)
theory Middleware
  imports ServerState
begin

text \<open>
  \<^verbatim>\<open>middleware.go\<close>: the four middlewares around the \<^verbatim>\<open>/mcp\<close> handlers
  and their composition. Each is a gate: it refuses a request with a response of its own, or it
  passes it on, with more in its context. That contract is the locale \<open>gate\<close>, interpreted by
  all four.
\<close>

section \<open>The middlewares\<close>

definition Chain :: "handler \<Rightarrow> middleware list \<Rightarrow> handler" where
  "Chain h mws = foldr (\<lambda>mw h. mw h) mws h"

definition RequireOrigin :: "bytes list \<Rightarrow> middleware" where
  "RequireOrigin allowed nxt s rq =
    (let origin = header_get (rqHeaders rq) ''Origin'' in
     if origin = [] then nxt s rq
     else if origin \<notin> set allowed then (http_Error ''forbidden origin'' 403, s)
     else nxt s rq)"

definition bearer_prefix :: bytes where
  "bearer_prefix = ''Bearer ''"

definition extractBearer :: "bytes \<Rightarrow> bytes option" where
  "extractBearer header =
    (if length header \<le> length bearer_prefix then None
     else if ToLower_ascii (take (length bearer_prefix) header) \<noteq> ToLower_ascii bearer_prefix
     then None
     else
       let token = TrimSpace (drop (length bearer_prefix) header) in
       if token = [] then None else Some token)"

definition respondUnauthorized :: Response where
  "respondUnauthorized =
    (http_Error ''unauthorized'' 401)
      \<lparr>rsHeaders := (''WWW-Authenticate'', ''Bearer realm='' @ [CHR 0x22] @ ''d8a'' @ [CHR 0x22])
        # rsHeaders (http_Error ''unauthorized'' 401)\<rparr>"

definition RequireAuth :: "Validator option \<Rightarrow> bytes \<Rightarrow> middleware" where
  "RequireAuth v audience nxt s rq =
    (case v of
       None \<Rightarrow> (respondUnauthorized, s)
     | Some validate \<Rightarrow>
       (case extractBearer (header_get (rqHeaders rq) ''Authorization'') of
          None \<Rightarrow> (respondUnauthorized, s)
        | Some token \<Rightarrow>
          (case validate token audience of
             None \<Rightarrow> (respondUnauthorized, s)
           | Some i \<Rightarrow> nxt s (rq\<lparr>rqIdentity := Some i\<rparr>))))"

definition respondRateLimited :: Response where
  "respondRateLimited =
    \<lparr>rsStatus = 429, rsHeaders = [(''Retry-After'', ''1''), (''Content-Type'', ''application/json'')],
     rsBody = Rpc (zero_message\<lparr>msgJSONRPC := jsonrpcVersion, msgID := Some JNull,
       msgError := Some \<lparr>errCode = -32000, errMessage = ''rate limited'', errData = None\<rparr>\<rparr>)\<rparr>"

definition RequireRateLimit :: "Env \<Rightarrow> middleware" where
  "RequireRateLimit E nxt s rq =
    (case svLimiter s of
       None \<Rightarrow> nxt s rq
     | Some l \<Rightarrow>
       if rqIdentity rq = None \<or> idSubject (IdentityFromContext rq) = [] then nxt s rq
       else
         let (now, w) = Now E (svWorld s);
             (l, ok) = Allow (Some l) now (idSubject (IdentityFromContext rq));
             s = s\<lparr>svWorld := w, svLimiter := l\<rparr> in
         if \<not> ok then (respondRateLimited, s) else nxt s rq)"

definition SupportedProtocolVersions :: "bytes list" where
  "SupportedProtocolVersions = [''2025-11-25'', ''2025-03-26'']"

definition fallbackProtocolVersion :: bytes where
  "fallbackProtocolVersion = ''2025-03-26''"

definition ParseProtocolVersion :: middleware where
  "ParseProtocolVersion nxt s rq =
    (let v = header_get (rqHeaders rq) ''MCP-Protocol-Version'';
         v = (if v = [] then fallbackProtocolVersion else v) in
     if v \<notin> set SupportedProtocolVersions
     then (http_Error ''unsupported MCP protocol version'' 400, s)
     else nxt s (rq\<lparr>rqProtocolVersion := Some v\<rparr>))"

definition ProtocolVersionFromContext :: "Request \<Rightarrow> bytes option" where
  "ProtocolVersionFromContext rq = rqProtocolVersion rq"

text \<open>Whatever is behind the version gate finds a supported version in its request.\<close>

lemma ParseProtocolVersion_context:
  assumes "\<And>s rq v. ProtocolVersionFromContext rq = Some v \<Longrightarrow> v \<in> set SupportedProtocolVersions \<Longrightarrow>
      P (nxt s rq)"
    and "P (http_Error ''unsupported MCP protocol version'' 400, s)"
  shows "P (ParseProtocolVersion nxt s rq)"
  using assms by (auto simp: ParseProtocolVersion_def ProtocolVersionFromContext_def Let_def)

section \<open>Bearer tokens\<close>

lemma length_bearer_prefix [simp]: "length bearer_prefix = 7"
  by (simp add: bearer_prefix_def)

text \<open>A token comes from the header, after a scheme of any case.\<close>

lemma extractBearer_Some:
  assumes "extractBearer h = Some t"
  shows "t \<noteq> [] \<and> (\<exists>scheme u v. h = scheme @ u @ t @ v \<and> length scheme = 7
    \<and> ToLower_ascii scheme = ''bearer '')"
proof -
  from assms have len: "7 < length h" and pre: "ToLower_ascii (take 7 h) = ToLower_ascii bearer_prefix"
    and t: "t = TrimSpace (drop 7 h)" "t \<noteq> []"
    by (auto simp: extractBearer_def Let_def split: if_splits)
  obtain u v where "drop 7 h = u @ t @ v" using TrimSpace_infix [of "drop 7 h"] t by blast
  then have "h = take 7 h @ u @ t @ v" by (metis append_take_drop_id)
  moreover have "ToLower_ascii bearer_prefix = ''bearer ''"
    by code_simp
  ultimately show ?thesis using t len pre
    by (intro conjI exI [of _ "take 7 h"] exI [of _ u] exI [of _ v]) auto
qed

lemma extractBearer_graphic:
  assumes "t \<noteq> []" "\<forall>c \<in> set t. graphic c"
  shows "extractBearer (bearer_prefix @ t) = Some t"
  using assms TrimSpace_graphic [OF assms] by (simp add: extractBearer_def Let_def)

section \<open>The contract of a gate\<close>

locale gate =
  fixes mw :: middleware
    and admits :: "Server \<Rightarrow> Request \<Rightarrow> bool"
    and onward :: "Server \<Rightarrow> Request \<Rightarrow> Server \<times> Request"
    and refusal :: "Server \<Rightarrow> Request \<Rightarrow> Response \<times> Server"
  assumes gate_eq: "mw nxt s rq =
      (if admits s rq then case_prod nxt (onward s rq) else refusal s rq)"
    and refusal_status: "\<not> admits s rq \<Longrightarrow> 400 \<le> rsStatus (fst (refusal s rq))"
    and refusal_core: "same_core s (snd (refusal s rq))"
    and onward_core: "same_core s (fst (onward s rq))"
    and onward_request: "rqHeaders (snd (onward s rq)) = rqHeaders rq
      \<and> rqBody (snd (onward s rq)) = rqBody rq"
begin

lemma admitted: "admits s rq \<Longrightarrow> mw nxt s rq = nxt (fst (onward s rq)) (snd (onward s rq))"
  by (simp add: gate_eq case_prod_beta)

lemma refused: "\<not> admits s rq \<Longrightarrow> mw nxt s rq = refusal s rq"
  by (simp add: gate_eq)

text \<open>A refused request reaches nothing behind the gate, and leaves the core alone.\<close>

lemma refused_core: "\<not> admits s rq \<Longrightarrow> same_core s (snd (mw nxt s rq))"
  by (simp add: refused refusal_core)

lemma success_admitted: "rsStatus (fst (mw nxt s rq)) < 400 \<Longrightarrow> admits s rq"
  using refusal_status [of s rq] refused [of s rq nxt] by (cases "admits s rq") auto

lemma effect_admitted: "\<not> same_core s (snd (mw nxt s rq)) \<Longrightarrow> admits s rq"
  using refused_core by blast

text \<open>A gate behind which nothing touches the core touches nothing itself.\<close>

lemma core_through:
  "(\<And>s' rq'. same_core s' (snd (nxt s' rq'))) \<Longrightarrow> same_core s (snd (mw nxt s rq))"
  by (cases "admits s rq")
    (auto simp: admitted refused_core intro: same_core_trans [OF onward_core])

end

definition origin_ok :: "bytes list \<Rightarrow> Request \<Rightarrow> bool" where
  "origin_ok allowed rq \<longleftrightarrow>
    header_get (rqHeaders rq) ''Origin'' = [] \<or> header_get (rqHeaders rq) ''Origin'' \<in> set allowed"

definition version_of :: "Request \<Rightarrow> bytes" where
  "version_of rq =
    (let v = header_get (rqHeaders rq) ''MCP-Protocol-Version'' in
     if v = [] then fallbackProtocolVersion else v)"

definition authenticated :: "Validator option \<Rightarrow> bytes \<Rightarrow> Request \<Rightarrow> Identity option" where
  "authenticated v audience rq =
    Option.bind v (\<lambda>validate.
      Option.bind (extractBearer (header_get (rqHeaders rq) ''Authorization''))
        (\<lambda>token. validate token audience))"

text \<open>The limiter is asked for an identified subject only.\<close>

definition limited :: "Env \<Rightarrow> Server \<Rightarrow> Request \<Rightarrow> Server \<times> bool" where
  "limited E s rq =
    (case svLimiter s of
       None \<Rightarrow> (s, True)
     | Some l \<Rightarrow>
       if rqIdentity rq = None \<or> idSubject (IdentityFromContext rq) = [] then (s, True)
       else
         let a = Allow (Some l) (envClock E (wClock (svWorld s))) (idSubject (IdentityFromContext rq)) in
         (s\<lparr>svWorld := snd (Now E (svWorld s)), svLimiter := fst a\<rparr>, snd a))"

lemma limited_core: "same_core s (fst (limited E s rq))"
  by (simp add: limited_def same_core_def Let_def split: option.splits)

interpretation origin: gate "RequireOrigin allowed" "\<lambda>s. origin_ok allowed" "\<lambda>s rq. (s, rq)"
    "\<lambda>s rq. (http_Error ''forbidden origin'' 403, s)" for allowed
  by unfold_locales (auto simp: RequireOrigin_def origin_ok_def Let_def)

interpretation version: gate ParseProtocolVersion
    "\<lambda>s rq. version_of rq \<in> set SupportedProtocolVersions"
    "\<lambda>s rq. (s, rq\<lparr>rqProtocolVersion := Some (version_of rq)\<rparr>)"
    "\<lambda>s rq. (http_Error ''unsupported MCP protocol version'' 400, s)"
  by unfold_locales (auto simp: ParseProtocolVersion_def version_of_def Let_def)

interpretation auth: gate "RequireAuth v audience"
    "\<lambda>s rq. authenticated v audience rq \<noteq> None"
    "\<lambda>s rq. (s, rq\<lparr>rqIdentity := authenticated v audience rq\<rparr>)"
    "\<lambda>s rq. (respondUnauthorized, s)" for v audience
  by unfold_locales
    (auto simp: RequireAuth_def authenticated_def respondUnauthorized_def split: option.splits)

interpretation rate: gate "RequireRateLimit E" "\<lambda>s rq. snd (limited E s rq)"
    "\<lambda>s rq. (fst (limited E s rq), rq)"
    "\<lambda>s rq. (respondRateLimited, fst (limited E s rq))" for E
proof unfold_locales
  show "RequireRateLimit E nxt s rq =
      (if snd (limited E s rq) then case_prod nxt (fst (limited E s rq), rq)
       else (respondRateLimited, fst (limited E s rq)))" for nxt s rq
    by (auto simp: RequireRateLimit_def limited_def Now_def Let_def case_prod_beta split: option.splits)
qed (simp_all add: respondRateLimited_def limited_core)

end
