(* ===== verification/McpHandler.thy ===== *)
theory McpHandler
  imports Middleware
begin

text \<open>
  \<^verbatim>\<open>mcp_handler.go\<close>: the handlers behind the middlewares. Each is a step on the
  server's state that does what the source does in its order: lookups in the session store, the
  clock, the pool, and calls of the backing MCP, whose every use is in the trace. JSON is kept as the
  value it denotes, and the raw messages the code carries along are such values.
\<close>

section \<open>Pieces\<close>

definition preferredProtocolVersion :: bytes where
  "preferredProtocolVersion = ''2025-11-25''"

definition maxMCPRequestBody :: nat where
  "maxMCPRequestBody = 4 * 2 ^ 20"

definition negotiateProtocolVersion :: "bytes \<Rightarrow> bytes" where
  "negotiateProtocolVersion requested =
    (if requested \<in> set SupportedProtocolVersions then requested else preferredProtocolVersion)"

definition serverImpl :: "Server \<Rightarrow> Implementation" where
  "serverImpl s =
    \<lparr>implName = ''d8a-server'', implTitle = ''d8a Server'',
     implVersion = cfgServerVersion (svCfg s),
     implDescription = ''Open-source MCP gateway (blind, customer-hosted)'',
     implWebsiteURL = []\<rparr>"

definition session_header :: string where
  "session_header = ''MCP-Session-Id''"

text \<open>
  \<^verbatim>\<open>io.ReadAll(io.LimitReader(r.Body, maxMCPRequestBody+1))\<close>: at most one byte more
  than allowed is read; a read error counts only when it comes before that.
\<close>

definition read_body :: "Request \<Rightarrow> bytes option" where
  "read_body rq =
    (if length (rqBody rq) < maxMCPRequestBody + 1 \<and> rqBodyFails rq then None
     else Some (take (maxMCPRequestBody + 1) (rqBody rq)))"

definition reply_error ::
    "JSONRPCMessage \<Rightarrow> int \<Rightarrow> bytes \<Rightarrow> json option \<Rightarrow> Response" where
  "reply_error msg code text data = writeJSONRPC (NewErrorResponse (msgID msg) code text data)"

definition reply_result :: "JSONRPCMessage \<Rightarrow> json \<Rightarrow> Response" where
  "reply_result msg result = writeJSONRPC (NewResultResponse (msgID msg) result)"

section \<open>Filtering\<close>

definition cap_visible :: "EffectiveAccess \<Rightarrow> bytes \<Rightarrow> bool" where
  "cap_visible access k =
    (if k = ''tools'' then HasAnyTool access
     else if k = ''resources'' then HasAnyResource access
     else if k = ''prompts'' then HasAnyPrompt access
     else True)"

definition curatedInitCapabilities ::
    "ServerCapabilities option \<Rightarrow> EffectiveAccess \<Rightarrow> ServerCapabilities" where
  "curatedInitCapabilities backend access =
    (case backend of
       None \<Rightarrow> []
     | Some caps \<Rightarrow>
         fold (\<lambda>(k, v) m. if cap_visible access k then map_set k v m else m) caps [])"

text \<open>The name of a list item, or its URI when it has no name.\<close>

definition set_named_member :: "bytes \<times> json \<Rightarrow> bytes \<times> bytes \<Rightarrow> bytes \<times> bytes" where
  "set_named_member kv st =
    (let (k, v) = kv; (name, uri) = st in
     case match_field [''name'', ''uri''] k of
       None \<Rightarrow> (name, uri)
     | Some f \<Rightarrow>
       if f = ''name'' then (fst (unmarshal_string v name), uri)
       else (name, fst (unmarshal_string v uri)))"

fun unmarshal_named :: "json \<Rightarrow> bytes \<times> bytes" where
  "unmarshal_named (JObj ms) = fold set_named_member ms ([], [])"
| "unmarshal_named _ = ([], [])"

definition item_ident :: "json \<Rightarrow> bytes" where
  "item_ident item = (let (name, uri) = unmarshal_named item in if name = [] then uri else name)"

definition filterListResult :: "json option \<Rightarrow> bytes \<Rightarrow> (bytes \<Rightarrow> bool) \<Rightarrow> json option option" where
  "filterListResult raw listKey allows =
    (case Option.bind raw unmarshal_rawmap of
       None \<Rightarrow> None
     | Some obj \<Rightarrow>
       (case map_of obj listKey of
          None \<Rightarrow> Some raw
        | Some list \<Rightarrow>
          (case unmarshal_rawlist list of
             None \<Rightarrow> None
           | Some items \<Rightarrow>
             let out = filter (\<lambda>item. allows (item_ident item)) items in
             Some (Some (marshal_map (map_set listKey (JArr out) obj))))))"

section \<open>Runners\<close>

definition runnerForRequest ::
    "Env \<Rightarrow> Server \<Rightarrow> Identity \<Rightarrow> (bytes + runner_id option) \<times> Server" where
  "runnerForRequest E s identity =
    (case svRunner s of
       Some r \<Rightarrow> (Inr (Some r), s)
     | None \<Rightarrow>
       (case svPool s of
          Some p \<Rightarrow>
            (case RunnerFor E (svWorld s) (Some p) identity of
               (Inl e, pool, w) \<Rightarrow> (Inl e, s\<lparr>svPool := pool, svWorld := w\<rparr>)
             | (Inr r, pool, w) \<Rightarrow> (Inr (Some r), s\<lparr>svPool := pool, svWorld := w\<rparr>))
        | None \<Rightarrow> (Inr None, s)))"

definition resolveRunner ::
    "Env \<Rightarrow> Server \<Rightarrow> Request \<Rightarrow> JSONRPCMessage \<Rightarrow> (Response + runner_id) \<times> Server" where
  "resolveRunner E s rq msg =
    (case runnerForRequest E s (IdentityFromContext rq) of
       (Inl e, s) \<Rightarrow>
         (Inl (reply_error msg ErrCodeInternalError (''backing mcp unavailable: '' @ e) None), s)
     | (Inr None, s) \<Rightarrow>
         (Inl (reply_error msg ErrCodeMethodNotFound
           (''method not implemented: '' @ msgMethod msg) None), s)
     | (Inr (Some r), s) \<Rightarrow> (Inr r, s))"

text \<open>The call itself: a JSON-RPC error is passed on, a result goes through \<open>f\<close>.\<close>

definition call_through ::
    "Env \<Rightarrow> Server \<Rightarrow> runner_id \<Rightarrow> JSONRPCMessage \<Rightarrow> (json option \<Rightarrow> json option) \<Rightarrow> Response \<times> Server" where
  "call_through E s r msg f =
    (case runner_Call E (svWorld s) r (msgMethod msg) (msgParams msg) of
       (Inl e, w) \<Rightarrow>
         (reply_error msg (errCode e) (errMessage e) (errData e), s\<lparr>svWorld := w\<rparr>)
     | (Inr raw, w) \<Rightarrow> (reply_result msg (marshal_raw (f raw)), s\<lparr>svWorld := w\<rparr>))"

definition forwardGeneric :: "Env \<Rightarrow> Server \<Rightarrow> Request \<Rightarrow> JSONRPCMessage \<Rightarrow> Response \<times> Server" where
  "forwardGeneric E s rq msg =
    (case resolveRunner E s rq msg of
       (Inl resp, s) \<Rightarrow> (resp, s)
     | (Inr r, s) \<Rightarrow> call_through E s r msg (\<lambda>raw. raw))"

definition forwardAndFilterList ::
    "Env \<Rightarrow> Server \<Rightarrow> Request \<Rightarrow> JSONRPCMessage \<Rightarrow> bytes \<Rightarrow> (bytes \<Rightarrow> bool) \<Rightarrow> Response \<times> Server" where
  "forwardAndFilterList E s rq msg listKey allows =
    (case resolveRunner E s rq msg of
       (Inl resp, s) \<Rightarrow> (resp, s)
     | (Inr r, s) \<Rightarrow>
         call_through E s r msg
           (\<lambda>raw. case filterListResult raw listKey allows of None \<Rightarrow> raw | Some out \<Rightarrow> out))"

definition param_ident :: "json gomap \<Rightarrow> bytes \<Rightarrow> bytes" where
  "param_ident params paramKey =
    (case map_of params paramKey of None \<Rightarrow> [] | Some v \<Rightarrow> fst (unmarshal_string v []))"

definition forwardWithNameGate ::
    "Env \<Rightarrow> Server \<Rightarrow> Request \<Rightarrow> JSONRPCMessage \<Rightarrow> bytes \<Rightarrow> (bytes \<Rightarrow> bool) \<Rightarrow> Response \<times> Server" where
  "forwardWithNameGate E s rq msg paramKey allows =
    (case resolveRunner E s rq msg of
       (Inl resp, s) \<Rightarrow> (resp, s)
     | (Inr r, s) \<Rightarrow>
       (case (case msgParams msg of None \<Rightarrow> Some [] | Some ps \<Rightarrow> unmarshal_rawmap ps) of
          None \<Rightarrow>
            (reply_error msg ErrCodeInvalidParams ''invalid params''
               (Some (JStr (envDecodeErr E (the (msgParams msg))))), s)
        | Some params \<Rightarrow>
          let ident = param_ident params paramKey in
          if ident \<noteq> [] \<and> \<not> allows ident
          then (reply_error msg ErrCodeMethodNotFound
                 (''not permitted: '' @ msgMethod msg @ '' '' @ ident) None, s)
          else call_through E s r msg (\<lambda>raw. raw)))"

section \<open>Requests and notifications\<close>

definition handleRequest ::
    "Env \<Rightarrow> Server \<Rightarrow> Request \<Rightarrow> Session \<Rightarrow> JSONRPCMessage \<Rightarrow> Response \<times> Server" where
  "handleRequest E s rq sess msg =
    (let (now, w) = Now E (svWorld s);
         s = s\<lparr>svWorld := w, svSessions := fst (Touch (svSessions s) (sessID sess) now)\<rparr>;
         access = Resolve (svCatalog s) (idScopes (IdentityFromContext rq));
         m = msgMethod msg in
     if m = ''ping'' then (reply_result msg (JObj []), s)
     else if m = ''tools/list'' then forwardAndFilterList E s rq msg ''tools'' (AllowsTool access)
     else if m = ''tools/call'' then forwardWithNameGate E s rq msg ''name'' (AllowsTool access)
     else if m = ''resources/list''
       then forwardAndFilterList E s rq msg ''resources'' (AllowsResource access)
     else if m = ''resources/read''
       then forwardWithNameGate E s rq msg ''uri'' (AllowsResource access)
     else if m = ''resources/templates/list''
       then forwardAndFilterList E s rq msg ''resourceTemplates'' (AllowsResource access)
     else if m = ''prompts/list''
       then forwardAndFilterList E s rq msg ''prompts'' (AllowsPrompt access)
     else if m = ''prompts/get'' then forwardWithNameGate E s rq msg ''name'' (AllowsPrompt access)
     else forwardGeneric E s rq msg)"

definition handleNotification ::
    "Env \<Rightarrow> Server \<Rightarrow> Request \<Rightarrow> Session \<Rightarrow> JSONRPCMessage \<Rightarrow> Response \<times> Server" where
  "handleNotification E s rq sess msg =
    (let (now, w) = Now E (svWorld s);
         s = s\<lparr>svWorld := w, svSessions := fst (Touch (svSessions s) (sessID sess) now)\<rparr>;
         accepted = \<lparr>rsStatus = 202, rsHeaders = [], rsBody = NoBody\<rparr> in
     if msgMethod msg = ''notifications/initialized''
     then (accepted,
       s\<lparr>svSessions := fst (MarkInitialized (svSessions s) (sessID sess) now)\<rparr>)
     else
       (accepted,
        case runnerForRequest E s (IdentityFromContext rq) of
          (Inl _, s) \<Rightarrow> s
        | (Inr None, s) \<Rightarrow> s
        | (Inr (Some r), s) \<Rightarrow>
            s\<lparr>svWorld := snd (runner_Notify E (svWorld s) r (msgMethod msg) (msgParams msg))\<rparr>))"

definition handleInitialize ::
    "Env \<Rightarrow> Server \<Rightarrow> Request \<Rightarrow> JSONRPCMessage \<Rightarrow> Response \<times> Server" where
  "handleInitialize E s rq msg =
    (let (params, ok) = (case msgParams msg of None \<Rightarrow> (zero_params, True) | Some v \<Rightarrow> unmarshal_params v) in
     if \<not> ok
     then (reply_error msg ErrCodeInvalidParams ''invalid initialize params''
             (Some (JStr (envDecodeErr E (the (msgParams msg))))), s)
     else
       let negotiated = negotiateProtocolVersion (ipProtocolVersion params);
           identity = IdentityFromContext rq;
           (raw, w) = rand_Read E (svWorld s) in
       (case NewSessionID raw of
          None \<Rightarrow>
            (reply_error msg ErrCodeInternalError ''failed to mint session id'' None, s\<lparr>svWorld := w\<rparr>)
        | Some sessionID \<Rightarrow>
          let (now, w) = Now E w;
              s = s\<lparr>svWorld := w,
                svSessions := fst (Create (svSessions s) sessionID (idSubject identity) negotiated
                  (ipClientInfo params) now)\<rparr>;
              caps = curatedInitCapabilities (svBackendCaps s)
                (Resolve (svCatalog s) (idScopes identity));
              result = \<lparr>irProtocolVersion = negotiated, irCapabilities = caps,
                irServerInfo = serverImpl s, irInstructions = []\<rparr>;
              resp = reply_result msg (marshal_result result) in
          (resp\<lparr>rsHeaders := (session_header, sessionID) # rsHeaders resp\<rparr>, s)))"

section \<open>The three methods of the endpoint\<close>

definition handleMCPPost :: "Env \<Rightarrow> handler" where
  "handleMCPPost E s rq =
    (case read_body rq of
       None \<Rightarrow> (reply_error zero_message ErrCodeParseError ''failed to read body'' None, s)
     | Some body \<Rightarrow>
       if maxMCPRequestBody < length body
       then (reply_error zero_message ErrCodeInvalidRequest ''request body too large'' None, s)
       else
       (case DecodeJSONRPC body of
          (msg, Some ErrJSONRPCParse) \<Rightarrow>
            (reply_error msg ErrCodeParseError (''json parse error: '' @ envParseErr E body) None, s)
        | (msg, Some ErrJSONRPCInvalidRequest) \<Rightarrow>
            (reply_error msg ErrCodeInvalidRequest ''invalid JSON-RPC request envelope'' None, s)
        | (msg, None) \<Rightarrow>
          if IsRequest msg \<and> msgMethod msg = ''initialize'' then handleInitialize E s rq msg
          else
            let sessionID = header_get (rqHeaders rq) session_header in
            if sessionID = []
            then (reply_error msg ErrCodeInvalidRequest
                    ''MCP-Session-Id header required after initialize'' None, s)
            else
            (case Get (svSessions s) sessionID of
               None \<Rightarrow> (http_Error ''session not found'' 404, s)
             | Some sess \<Rightarrow>
               if sessSubject sess \<noteq> idSubject (IdentityFromContext rq)
               then (http_Error ''session does not belong to this identity'' 403, s)
               else if IsNotification msg then handleNotification E s rq sess msg
               else if IsRequest msg then handleRequest E s rq sess msg
               else (reply_error msg ErrCodeInvalidRequest ''unrecognized JSON-RPC message'' None, s))))"

definition acceptsSSE :: "bytes \<Rightarrow> bool" where
  "acceptsSSE accept \<longleftrightarrow> accept \<noteq> [] \<and> Contains accept ''text/event-stream''"

text \<open>Keepalive comments, one per tick, until a write fails or the client is gone.\<close>

definition keepalive_line :: bytes where
  "keepalive_line = '': keepalive'' @ newline @ newline"

fun runSSEKeepalive :: "bool list \<Rightarrow> bytes" where
  "runSSEKeepalive [] = []"
| "runSSEKeepalive (ok # ws) = (if ok then keepalive_line @ runSSEKeepalive ws else [])"

definition sse_headers :: headers where
  "sse_headers =
    [(''Content-Type'', ''text/event-stream''), (''Cache-Control'', ''no-cache''),
     (''Connection'', ''keep-alive''), (''X-Accel-Buffering'', ''no'')]"

definition handleMCPGet :: handler where
  "handleMCPGet s rq =
    (if \<not> acceptsSSE (header_get (rqHeaders rq) ''Accept'')
     then (http_Error ''SSE not requested (use Accept: text/event-stream)'' 405, s)
     else
       let sessionID = header_get (rqHeaders rq) session_header in
       if sessionID = [] then (http_Error ''MCP-Session-Id header required'' 400, s)
       else
       (case Get (svSessions s) sessionID of
          None \<Rightarrow> (http_Error ''session not found'' 404, s)
        | Some sess \<Rightarrow>
          if sessSubject sess \<noteq> idSubject (IdentityFromContext rq)
          then (http_Error ''session does not belong to this identity'' 403, s)
          else if \<not> rqFlusher rq
          then (http_Error ''streaming not supported on this connection'' 500, s)
          else
            let prime = ''id: '' @ sessionID @ ''-0'' @ newline @ ''data: '' @ newline @ newline in
            (\<lparr>rsStatus = 200, rsHeaders = sse_headers,
              rsBody = EventStream
                (case rqWrites rq of
                   [] \<Rightarrow> prime
                 | ok # ws \<Rightarrow> if ok then prime @ runSSEKeepalive ws else [])\<rparr>, s)))"

definition handleMCPDelete :: handler where
  "handleMCPDelete s rq =
    (let sessionID = header_get (rqHeaders rq) session_header in
     if sessionID = [] then (http_Error ''MCP-Session-Id header required'' 400, s)
     else
     (case Get (svSessions s) sessionID of
        None \<Rightarrow> (http_Error ''session not found'' 404, s)
      | Some sess \<Rightarrow>
        if sessSubject sess \<noteq> idSubject (IdentityFromContext rq)
        then (http_Error ''session does not belong to this identity'' 403, s)
        else (\<lparr>rsStatus = 204, rsHeaders = [], rsBody = NoBody\<rparr>,
          s\<lparr>svSessions := fst (Delete (svSessions s) sessionID)\<rparr>)))"

section \<open>What reaches the backing MCP\<close>

text \<open>The part of the trace a backing MCP sees as protocol traffic.\<close>

fun is_traffic :: "event \<Rightarrow> bool" where
  "is_traffic (EvCall _ _ _) = True"
| "is_traffic (EvNotify _ _ _) = True"
| "is_traffic _ = False"

definition traffic :: "Server \<Rightarrow> trace" where
  "traffic s = filter is_traffic (wTrace (svWorld s))"

text \<open>What no forwarding may touch.\<close>

definition same_frame :: "Server \<Rightarrow> Server \<Rightarrow> bool" where
  "same_frame s s' \<longleftrightarrow>
    svCfg s' = svCfg s \<and> svSessions s' = svSessions s \<and> svRunner s' = svRunner s
    \<and> svBackendCaps s' = svBackendCaps s \<and> svCatalog s' = svCatalog s \<and> svLimiter s' = svLimiter s
    \<and> (svPool s' = None \<longleftrightarrow> svPool s = None)"

text \<open>A response to a message: the protocol version, its id, and one of result and error.\<close>

definition answers :: "JSONRPCMessage \<Rightarrow> JSONRPCMessage \<Rightarrow> bool" where
  "answers msg m \<longleftrightarrow>
    msgJSONRPC m = jsonrpcVersion \<and> msgMethod m = []
    \<and> (msgID m = msgID msg \<or> msgID msg = None \<and> msgID m = Some JNull)
    \<and> (msgResult m = None) \<noteq> (msgError m = None)"

definition replies :: "JSONRPCMessage \<Rightarrow> Response \<Rightarrow> bool" where
  "replies msg resp \<longleftrightarrow> rsStatus resp = 200 \<and> (\<exists>m. rsBody resp = Rpc m \<and> answers msg m)"

lemma replies_intros [simp]:
  "replies msg (reply_error msg c t d)" "replies msg (reply_result msg r)"
  "replies msg (resp\<lparr>rsHeaders := hs\<rparr>) = replies msg resp"
  by (auto simp: replies_def reply_error_def reply_result_def answers_def)

lemma is_traffic_build: "filter is_traffic (wTrace (snd (Build E w b))) = filter is_traffic (wTrace w)"
  by (cases rule: Build_cases [of E w b]) simp_all

lemma is_traffic_start:
  "filter is_traffic (wTrace (snd (start_once E w i))) = filter is_traffic (wTrace w)"
  by (cases "piFired i") (simp_all add: start_once_fired start_once_unfired)

lemma RunnerFor_traffic:
  "filter is_traffic (wTrace (snd (snd (RunnerFor E w pool i)))) = filter is_traffic (wTrace w)"
proof (cases pool)
  case (Some p)
  show ?thesis
  proof (cases "map_of (poInstances p) (PartitionKey p i)")
    case None
    then show ?thesis
      by (cases rule: Build_cases [of E w "poBackend p"])
        (simp_all add: Some RunnerFor_def find_or_build_def Now_def Let_def case_prod_beta
          is_traffic_start split: option.splits)
  next
    case (Some inst)
    then show ?thesis
      by (simp add: \<open>pool = Some p\<close> RunnerFor_def find_or_build_def Now_def Let_def case_prod_beta
          is_traffic_start split: option.splits)
  qed
qed (simp add: RunnerFor_def)

lemma RunnerFor_pool: "\<exists>p'. fst (snd (RunnerFor E w (Some p) i)) = Some p'"
  by (simp add: RunnerFor_def Let_def case_prod_beta split: sum.splits option.splits)

lemma runnerForRequest_frame:
  "same_frame s (snd (runnerForRequest E s i)) \<and> traffic (snd (runnerForRequest E s i)) = traffic s"
proof (cases "svRunner s")
  case None
  show ?thesis
  proof (cases "svPool s")
    case (Some p)
    obtain x pool w where x: "RunnerFor E (svWorld s) (Some p) i = (x, pool, w)"
      by (cases "RunnerFor E (svWorld s) (Some p) i")
    from RunnerFor_pool [of E "svWorld s" p i] RunnerFor_traffic [of E "svWorld s" "Some p" i] x
    have "\<exists>p'. pool = Some p'" "filter is_traffic (wTrace w) = filter is_traffic (wTrace (svWorld s))"
      by simp_all
    with None Some x show ?thesis
      by (auto simp: runnerForRequest_def same_frame_def traffic_def split: sum.splits)
  qed (use None in \<open>simp add: runnerForRequest_def same_frame_def\<close>)
qed (simp add: runnerForRequest_def same_frame_def)

lemma resolveRunner_frame:
  "same_frame s (snd (resolveRunner E s rq msg)) \<and> traffic (snd (resolveRunner E s rq msg)) = traffic s"
  using runnerForRequest_frame [of s E "IdentityFromContext rq"]
  by (auto simp: resolveRunner_def split: prod.splits sum.splits option.splits)

lemma resolveRunner_replies:
  "fst (resolveRunner E s rq msg) = Inl resp \<Longrightarrow> replies msg resp"
  by (auto simp: resolveRunner_def split: prod.splits sum.splits option.splits)

lemma call_through_frame:
  "same_frame s (snd (call_through E s r msg f))"
  "traffic (snd (call_through E s r msg f)) = EvCall r (msgMethod msg) (msgParams msg) # traffic s"
  "replies msg (fst (call_through E s r msg f))"
  by (auto simp: call_through_def runner_Call_def same_frame_def traffic_def split: sum.splits)

lemma same_frame_trans: "same_frame s t \<Longrightarrow> same_frame t u \<Longrightarrow> same_frame s u"
  by (simp add: same_frame_def)

text \<open>
  The contract of a forwarder: it answers the message, keeps everything but the pool and the world,
  and sends the backing MCP nothing but the message itself, at most once, and only when it may.
\<close>

locale forwarder =
  fixes fwd :: "Env \<Rightarrow> Server \<Rightarrow> Request \<Rightarrow> JSONRPCMessage \<Rightarrow> Response \<times> Server"
    and may :: "JSONRPCMessage \<Rightarrow> bool"
  assumes frame: "same_frame s (snd (fwd E s rq msg))"
    and answered: "replies msg (fst (fwd E s rq msg))"
    and sends: "traffic (snd (fwd E s rq msg)) = traffic s
      \<or> may msg \<and> (\<exists>r. traffic (snd (fwd E s rq msg)) = EvCall r (msgMethod msg) (msgParams msg) # traffic s)"
begin

lemma forbidden: "\<not> may msg \<Longrightarrow> traffic (snd (fwd E s rq msg)) = traffic s"
  using sends by blast

lemma seen:
  "e \<in> set (traffic (snd (fwd E s rq msg))) \<Longrightarrow> e \<notin> set (traffic s) \<Longrightarrow>
    may msg \<and> (\<exists>r. e = EvCall r (msgMethod msg) (msgParams msg))"
  using sends [where s = s and E = E and rq = rq and msg = msg] by auto

lemma sessions_kept: "svSessions (snd (fwd E s rq msg)) = svSessions s"
  using frame [where s = s and E = E and rq = rq and msg = msg] by (simp add: same_frame_def)

end

text \<open>What the name gate lets through.\<close>

definition gate_passes :: "bytes \<Rightarrow> (bytes \<Rightarrow> bool) \<Rightarrow> JSONRPCMessage \<Rightarrow> bool" where
  "gate_passes paramKey allows msg \<longleftrightarrow>
    (case (case msgParams msg of None \<Rightarrow> Some [] | Some ps \<Rightarrow> unmarshal_rawmap ps) of
       None \<Rightarrow> False
     | Some params \<Rightarrow> param_ident params paramKey = [] \<or> allows (param_ident params paramKey))"

interpretation generic: forwarder forwardGeneric "\<lambda>_. True"
proof
  fix E s rq msg
  obtain x s' where x: "resolveRunner E s rq msg = (x, s')" by (cases "resolveRunner E s rq msg")
  note f = resolveRunner_frame [of s E rq msg, unfolded x snd_conv]
  show "same_frame s (snd (forwardGeneric E s rq msg))"
    using f by (auto simp: forwardGeneric_def x split: sum.splits
        intro: same_frame_trans call_through_frame)
  show "replies msg (fst (forwardGeneric E s rq msg))"
    using resolveRunner_replies [of E s rq msg]
    by (auto simp: forwardGeneric_def x call_through_frame split: sum.splits)
  show "traffic (snd (forwardGeneric E s rq msg)) = traffic s
      \<or> True \<and> (\<exists>r. traffic (snd (forwardGeneric E s rq msg))
          = EvCall r (msgMethod msg) (msgParams msg) # traffic s)"
    using f by (auto simp: forwardGeneric_def x call_through_frame split: sum.splits)
qed

interpretation listing: forwarder "\<lambda>E s rq msg. forwardAndFilterList E s rq msg key allows" "\<lambda>_. True"
  for key allows
proof
  fix E s rq msg
  let ?f = "forwardAndFilterList E s rq msg key allows"
  obtain x s' where x: "resolveRunner E s rq msg = (x, s')" by (cases "resolveRunner E s rq msg")
  note f = resolveRunner_frame [of s E rq msg, unfolded x snd_conv]
  show "same_frame s (snd ?f)"
    using f by (auto simp: forwardAndFilterList_def x split: sum.splits
        intro: same_frame_trans call_through_frame)
  show "replies msg (fst ?f)"
    using resolveRunner_replies [of E s rq msg]
    by (auto simp: forwardAndFilterList_def x call_through_frame split: sum.splits)
  show "traffic (snd ?f) = traffic s
      \<or> True \<and> (\<exists>r. traffic (snd ?f) = EvCall r (msgMethod msg) (msgParams msg) # traffic s)"
    using f by (auto simp: forwardAndFilterList_def x call_through_frame split: sum.splits)
qed

interpretation gated: forwarder "\<lambda>E s rq msg. forwardWithNameGate E s rq msg key allows"
    "gate_passes key allows" for key allows
proof
  fix E s rq msg
  let ?f = "forwardWithNameGate E s rq msg key allows"
  let ?ps = "case msgParams msg of None \<Rightarrow> Some [] | Some ps \<Rightarrow> unmarshal_rawmap ps"
  obtain x s' where x: "resolveRunner E s rq msg = (x, s')" by (cases "resolveRunner E s rq msg")
  note f = resolveRunner_frame [of s E rq msg, unfolded x snd_conv]
  show "same_frame s (snd ?f)"
    using f by (cases ?ps) (auto simp: forwardWithNameGate_def x Let_def split: sum.splits
        intro: same_frame_trans call_through_frame)
  show "replies msg (fst ?f)"
    using resolveRunner_replies [of E s rq msg]
    by (cases ?ps) (auto simp: forwardWithNameGate_def x call_through_frame Let_def split: sum.splits)
  show "traffic (snd ?f) = traffic s
      \<or> gate_passes key allows msg
        \<and> (\<exists>r. traffic (snd ?f) = EvCall r (msgMethod msg) (msgParams msg) # traffic s)"
    using f by (cases ?ps) (auto simp: forwardWithNameGate_def gate_passes_def x call_through_frame
        Let_def split: sum.splits)
qed

section \<open>Dispatch\<close>

text \<open>The state a request or notification works on: the clock read, the session touched.\<close>

definition touched :: "Env \<Rightarrow> Server \<Rightarrow> Session \<Rightarrow> Server" where
  "touched E s sess =
    s\<lparr>svWorld := snd (Now E (svWorld s)),
      svSessions := fst (Touch (svSessions s) (sessID sess) (envClock E (wClock (svWorld s))))\<rparr>"

definition access_of :: "Server \<Rightarrow> Request \<Rightarrow> EffectiveAccess" where
  "access_of s rq = Resolve (svCatalog s) (idScopes (IdentityFromContext rq))"

text \<open>The methods whose target is gated, and the lists that are filtered.\<close>

definition gate_of :: "EffectiveAccess \<Rightarrow> bytes \<Rightarrow> (bytes \<times> (bytes \<Rightarrow> bool)) option" where
  "gate_of access m =
    (if m = ''tools/call'' then Some (''name'', AllowsTool access)
     else if m = ''resources/read'' then Some (''uri'', AllowsResource access)
     else if m = ''prompts/get'' then Some (''name'', AllowsPrompt access)
     else None)"

definition list_of :: "EffectiveAccess \<Rightarrow> bytes \<Rightarrow> (bytes \<times> (bytes \<Rightarrow> bool)) option" where
  "list_of access m =
    (if m = ''tools/list'' then Some (''tools'', AllowsTool access)
     else if m = ''resources/list'' then Some (''resources'', AllowsResource access)
     else if m = ''resources/templates/list'' then Some (''resourceTemplates'', AllowsResource access)
     else if m = ''prompts/list'' then Some (''prompts'', AllowsPrompt access)
     else None)"

lemma touched_sel [simp]:
  "svCfg (touched E s sess) = svCfg s" "svRunner (touched E s sess) = svRunner s"
  "svPool (touched E s sess) = svPool s" "svCatalog (touched E s sess) = svCatalog s"
  "svBackendCaps (touched E s sess) = svBackendCaps s" "svLimiter (touched E s sess) = svLimiter s"
  "traffic (touched E s sess) = traffic s" "access_of (touched E s sess) = access_of s"
  by (simp_all add: touched_def traffic_def access_of_def fun_eq_iff)

lemma handleRequest_dispatch:
  "handleRequest E s rq sess msg =
    (let t = touched E s sess in
     if msgMethod msg = ''ping'' then (reply_result msg (JObj []), t)
     else case gate_of (access_of s rq) (msgMethod msg) of
       Some (key, allows) \<Rightarrow> forwardWithNameGate E t rq msg key allows
     | None \<Rightarrow>
       (case list_of (access_of s rq) (msgMethod msg) of
          Some (key, allows) \<Rightarrow> forwardAndFilterList E t rq msg key allows
        | None \<Rightarrow> forwardGeneric E t rq msg))"
  by (simp add: handleRequest_def touched_def access_of_def gate_of_def list_of_def Now_def Let_def)

lemma handleNotification_dispatch:
  "handleNotification E s rq sess msg =
    (let t = touched E s sess; accepted = \<lparr>rsStatus = 202, rsHeaders = [], rsBody = NoBody\<rparr> in
     if msgMethod msg = ''notifications/initialized''
     then (accepted, t\<lparr>svSessions := fst (MarkInitialized (svSessions t) (sessID sess)
       (envClock E (wClock (svWorld s))))\<rparr>)
     else (accepted,
       case runnerForRequest E t (IdentityFromContext rq) of
          (Inl _, s) \<Rightarrow> s
        | (Inr None, s) \<Rightarrow> s
        | (Inr (Some r), s) \<Rightarrow>
            s\<lparr>svWorld := snd (runner_Notify E (svWorld s) r (msgMethod msg) (msgParams msg))\<rparr>))"
  by (simp add: handleNotification_def touched_def Now_def Let_def)

lemma handleRequest_replies: "replies msg (fst (handleRequest E s rq sess msg))"
  by (auto simp: handleRequest_dispatch Let_def generic.answered listing.answered gated.answered
      split: option.splits)

lemma handleRequest_traffic:
  "traffic (snd (handleRequest E s rq sess msg)) = traffic s
    \<or> (case gate_of (access_of s rq) (msgMethod msg) of
         None \<Rightarrow> True | Some (key, allows) \<Rightarrow> gate_passes key allows msg)
      \<and> (\<exists>r. traffic (snd (handleRequest E s rq sess msg))
            = EvCall r (msgMethod msg) (msgParams msg) # traffic s)"
proof -
  let ?t = "touched E s sess"
  show ?thesis
  proof (cases "gate_of (access_of s rq) (msgMethod msg)")
    case None
    then show ?thesis
      using generic.sends [of E ?t rq msg] listing.sends [of E ?t rq msg]
      by (auto simp: handleRequest_dispatch Let_def split: option.splits)
  next
    case (Some ka)
    obtain key allows where ka: "ka = (key, allows)" by (cases ka)
    from Some have "msgMethod msg \<noteq> ''ping''" by (auto simp: gate_of_def)
    with Some ka show ?thesis
      using gated.sends [of E ?t rq msg key allows] by (simp add: handleRequest_dispatch Let_def)
  qed
qed

lemma handleRequest_sessions:
  "svSessions (snd (handleRequest E s rq sess msg)) = svSessions (touched E s sess)"
  by (auto simp: handleRequest_dispatch Let_def generic.sessions_kept listing.sessions_kept
      gated.sessions_kept split: option.splits)

section \<open>Properties of the catalog at the protocol\<close>


text \<open>The gate checks a name only when it finds one: a call whose parameters hold no string
  under the exact key (a missing name, an empty one, one that is not a string, or a key in another
  case) is forwarded as it is, whatever the catalog grants.\<close>

theorem nameless_call_is_sent:
  assumes "gate_of (access_of s rq) (msgMethod msg) = Some (key, allows)"
    "msgParams msg = Some ps" "unmarshal_rawmap ps = Some params" "param_ident params key = []"
    "svRunner s = Some r"
  shows "traffic (snd (handleRequest E s rq sess msg))
    = EvCall r (msgMethod msg) (Some ps) # traffic s"
proof -
  let ?t = "touched E s sess"
  from assms(1) have "msgMethod msg \<noteq> ''ping''" by (auto simp: gate_of_def)
  with assms(1) have h: "handleRequest E s rq sess msg = forwardWithNameGate E ?t rq msg key allows"
    by (simp add: handleRequest_dispatch Let_def)
  have "resolveRunner E ?t rq msg = (Inr r, ?t)"
    using assms(5) by (simp add: resolveRunner_def runnerForRequest_def)
  with assms(2-4) show ?thesis
    unfolding h by (simp add: forwardWithNameGate_def call_through_frame Let_def)
qed

lemma filterListResult_cases:
  "filterListResult (Some v) key allows =
    (case unmarshal_rawmap v of
       None \<Rightarrow> None
     | Some obj \<Rightarrow>
       (case map_of obj key of
          None \<Rightarrow> Some (Some v)
        | Some l \<Rightarrow>
          map_option (\<lambda>items. Some (marshal_map
            (map_set key (JArr (filter (\<lambda>item. allows (item_ident item)) items)) obj)))
            (unmarshal_rawlist l)))"
  by (auto simp: filterListResult_def Let_def split: option.splits)

text \<open>C11. A list filter is exact: in a result with a list under the key, the client receives the
  items the access allows, all of them, in order and unchanged, and every other member of the result
  as it was.\<close>

theorem list_filter_exact:
  assumes "unmarshal_rawmap v = Some obj" "map_of obj key = Some l" "unmarshal_rawlist l = Some items"
  shows "\<exists>out obj'. filterListResult (Some v) key allows = Some (Some out)
    \<and> unmarshal_rawmap out = Some obj'
    \<and> map_of obj' = (map_of obj)(key \<mapsto> JArr (filter (\<lambda>item. allows (item_ident item)) items))"
proof -
  let ?m = "map_set key (JArr (filter (\<lambda>item. allows (item_ident item)) items)) obj"
  have "distinct (map fst ?m)"
    using unmarshal_rawmap_wf [OF assms(1)] by (simp add: wf_map_def distinct_map_set)
  from unmarshal_marshal_map [OF this] obtain obj' where
    "unmarshal_rawmap (marshal_map ?m) = Some obj'" "map_of obj' = map_of ?m" by blast
  with assms show ?thesis by (simp add: filterListResult_cases)
qed

text \<open>Through the handler: for a list method, whatever the backing MCP returns, the client is
  sent the filtered result, or the raw one when it does not have the documented shape, or an error;
  and the backing MCP is asked at most once.\<close>

theorem list_request_filtered:
  assumes "list_of (access_of s rq) (msgMethod msg) = Some (key, allows)" "svRunner s = Some r"
    "envCall E (wTrace (svWorld s)) r (msgMethod msg) (msgParams msg) = Inr raw"
  shows "handleRequest E s rq sess msg =
    (reply_result msg (marshal_raw
       (case filterListResult raw key allows of None \<Rightarrow> raw | Some out \<Rightarrow> out)),
     (touched E s sess)\<lparr>svWorld := emit (EvCall r (msgMethod msg) (msgParams msg))
       (snd (Now E (svWorld s)))\<rparr>)"
proof -
  let ?t = "touched E s sess"
  from assms(1) have "msgMethod msg \<noteq> ''ping''" "gate_of (access_of s rq) (msgMethod msg) = None"
    by (auto simp: list_of_def gate_of_def split: if_splits)
  with assms(1) have h: "handleRequest E s rq sess msg = forwardAndFilterList E ?t rq msg key allows"
    by (simp add: handleRequest_dispatch Let_def)
  have "resolveRunner E ?t rq msg = (Inr r, ?t)"
    using assms(2) by (simp add: resolveRunner_def runnerForRequest_def)
  then show ?thesis
    using assms(3) unfolding h
    by (simp add: forwardAndFilterList_def call_through_def runner_Call_def touched_def)
qed

lemma curated_fold:
  "wf_map caps \<Longrightarrow>
    map_of (fold (\<lambda>(k, v) m. if P k then map_set k v m else m) caps m) k
      = (if P k \<and> k \<in> fst ` set caps then map_of caps k else map_of m k)"
  by (induction caps arbitrary: m) (auto simp: wf_map_def)

text \<open>The capabilities announced at initialization are exactly the backing MCP's, less the
  tools, resources and prompts capability of an identity that is granted nothing of the kind: a
  capability is announced to every identity that could use some of it.\<close>

theorem curated_capabilities_exact:
  assumes "wf_map caps"
  shows "map_of (curatedInitCapabilities (Some caps) access) k
      = (if cap_visible access k then map_of caps k else None)
    \<and> (access = Resolve c scopes
        \<and> (k = ''tools'' \<and> AllowsTool access n \<or> k = ''resources'' \<and> AllowsResource access n
          \<or> k = ''prompts'' \<and> AllowsPrompt access n)
      \<longrightarrow> cap_visible access k)"
proof
  have "map_of caps k = None" if "k \<notin> fst ` set caps"
    using that by (simp add: map_of_eq_None_iff)
  then show "map_of (curatedInitCapabilities (Some caps) access) k
      = (if cap_visible access k then map_of caps k else None)"
    by (auto simp: curatedInitCapabilities_def curated_fold [OF assms])
qed (auto simp: cap_visible_def intro: tools.allowed_has_any resources.allowed_has_any
    prompts.allowed_has_any)

section \<open>Sessions at the endpoint\<close>

text \<open>The negotiated protocol version is always one the server supports, the client's own when it
  is supported, and a client that asks for a negotiated version gets it again.\<close>

theorem negotiation:
  "negotiateProtocolVersion v \<in> set SupportedProtocolVersions
    \<and> (negotiateProtocolVersion v = v \<longleftrightarrow> v \<in> set SupportedProtocolVersions)
    \<and> negotiateProtocolVersion (negotiateProtocolVersion v) = negotiateProtocolVersion v"
proof -
  have p: "preferredProtocolVersion \<in> set SupportedProtocolVersions"
    by (simp add: preferredProtocolVersion_def SupportedProtocolVersions_def)
  show ?thesis
  proof (cases "v \<in> set SupportedProtocolVersions")
    case True
    then show ?thesis by (simp add: negotiateProtocolVersion_def)
  next
    case False
    then have "preferredProtocolVersion \<noteq> v" using p by blast
    with False p show ?thesis by (simp add: negotiateProtocolVersion_def)
  qed
qed

text \<open>An accepted initialization creates one session: owned by the authenticated identity, under
  the identifier the response header carries, with the version the result announces; every other
  session stays as it was and the backing MCP is not involved.\<close>

theorem initialize_creates_session:
  assumes "msgParams msg = Some v" "unmarshal_params v = (params, True)"
    "NewSessionID (envRand E (wRand (svWorld s))) = Some sid" "store_ok (svSessions s)"
    "handleInitialize E s rq msg = (resp, s')"
  shows "header_get (rsHeaders resp) session_header = sid
    \<and> Get (svSessions s') j =
        (if j = sid
         then Some (new_session sid (idSubject (IdentityFromContext rq))
           (negotiateProtocolVersion (ipProtocolVersion params)) (ipClientInfo params)
           (envClock E (wClock (svWorld s))))
         else Get (svSessions s) j)
    \<and> (\<exists>m. rsBody resp = Rpc m \<and> answers msg m \<and>
        msgResult m = Some (marshal_result
          \<lparr>irProtocolVersion = negotiateProtocolVersion (ipProtocolVersion params),
           irCapabilities = curatedInitCapabilities (svBackendCaps s) (access_of s rq),
           irServerInfo = serverImpl s, irInstructions = []\<rparr>))
    \<and> wTrace (svWorld s') = wTrace (svWorld s)"
proof -
  let ?v = "negotiateProtocolVersion (ipProtocolVersion params)"
  let ?result = "\<lparr>irProtocolVersion = ?v,
    irCapabilities = curatedInitCapabilities (svBackendCaps s) (access_of s rq),
    irServerInfo = serverImpl s, irInstructions = []\<rparr>"
  let ?store = "fst (Create (svSessions s) sid (idSubject (IdentityFromContext rq)) ?v
    (ipClientInfo params) (envClock E (wClock (svWorld s))))"
  have eqs: "resp = (reply_result msg (marshal_result ?result))
      \<lparr>rsHeaders := (session_header, sid) # rsHeaders (reply_result msg (marshal_result ?result))\<rparr>"
    "svSessions s' = ?store" "wTrace (svWorld s') = wTrace (svWorld s)"
    using assms(5) assms(1-3)
    by (auto simp: handleInitialize_def rand_Read_def Now_def Let_def access_of_def serverImpl_def)
  have "Get ?store j = (if j = sid then Some (new_session sid (idSubject (IdentityFromContext rq)) ?v
      (ipClientInfo params) (envClock E (wClock (svWorld s)))) else Get (svSessions s) j)"
    by (rule mem.get_after_create [OF assms(4)])
  moreover have "header_get (rsHeaders resp) session_header = sid" by (simp add: eqs header_get_def)
  moreover have "\<exists>m. rsBody resp = Rpc m \<and> answers msg m \<and> msgResult m = Some (marshal_result ?result)"
    by (simp add: eqs reply_result_def answers_def)
  ultimately show ?thesis by (simp add: eqs)
qed

section \<open>The endpoint acts for the owner only\<close>

text \<open>The message a body that is read in full decodes to.\<close>

definition request_message :: "Request \<Rightarrow> JSONRPCMessage option" where
  "request_message rq =
    (case read_body rq of
       None \<Rightarrow> None
     | Some body \<Rightarrow>
       if maxMCPRequestBody < length body then None
       else (case DecodeJSONRPC body of (msg, None) \<Rightarrow> Some msg | (msg, Some e) \<Rightarrow> None))"

definition is_initialize :: "JSONRPCMessage \<Rightarrow> bool" where
  "is_initialize msg \<longleftrightarrow> IsRequest msg \<and> msgMethod msg = ''initialize''"

definition session_of :: "Server \<Rightarrow> Request \<Rightarrow> Session option" where
  "session_of s rq =
    (let i = header_get (rqHeaders rq) session_header in
     if i = [] then None else Get (svSessions s) i)"

definition owns_session :: "Server \<Rightarrow> Request \<Rightarrow> bool" where
  "owns_session s rq \<longleftrightarrow>
    (\<exists>sess. session_of s rq = Some sess \<and> sessSubject sess = idSubject (IdentityFromContext rq))"

lemma post_undecoded:
  "request_message rq = None \<Longrightarrow>
    snd (handleMCPPost E s rq) = s
    \<and> (\<exists>msg c t. fst (handleMCPPost E s rq) = reply_error msg c t None
        \<and> c \<in> {ErrCodeParseError, ErrCodeInvalidRequest})"
  by (auto simp: request_message_def handleMCPPost_def split: option.splits prod.splits
      rpc_decode_error.splits if_splits)

lemma post_decoded:
  assumes "request_message rq = Some msg"
  shows "handleMCPPost E s rq =
    (if is_initialize msg then handleInitialize E s rq msg
     else if header_get (rqHeaders rq) session_header = []
     then (reply_error msg ErrCodeInvalidRequest
             ''MCP-Session-Id header required after initialize'' None, s)
     else
     (case session_of s rq of
        None \<Rightarrow> (http_Error ''session not found'' 404, s)
      | Some sess \<Rightarrow>
        if sessSubject sess \<noteq> idSubject (IdentityFromContext rq)
        then (http_Error ''session does not belong to this identity'' 403, s)
        else if IsNotification msg then handleNotification E s rq sess msg
        else if IsRequest msg then handleRequest E s rq sess msg
        else (reply_error msg ErrCodeInvalidRequest ''unrecognized JSON-RPC message'' None, s)))"
proof -
  obtain body where b: "read_body rq = Some body" "\<not> maxMCPRequestBody < length body"
    "DecodeJSONRPC body = (msg, None)"
    using assms by (auto simp: request_message_def split: option.splits if_splits prod.splits)
  then show ?thesis
    by (simp add: handleMCPPost_def is_initialize_def session_of_def Let_def split: option.splits)
qed

text \<open>Session hijacking: a message, a stream or a termination that names a session of another
  identity is refused with 403 and one that names no live session with 404, and nothing at all
  changes: no session is touched, no process looked up, nothing sent to a backing MCP.\<close>

theorem foreign_session_refused:
  assumes "header_get (rqHeaders rq) session_header \<noteq> []" "\<not> owns_session s rq"
  shows "(\<forall>msg. request_message rq = Some msg \<and> \<not> is_initialize msg \<longrightarrow>
      handleMCPPost E s rq = (fst (handleMCPDelete s rq), s))
    \<and> (acceptsSSE (header_get (rqHeaders rq) ''Accept'') \<longrightarrow>
      handleMCPGet s rq = (fst (handleMCPDelete s rq), s))
    \<and> snd (handleMCPDelete s rq) = s
    \<and> rsStatus (fst (handleMCPDelete s rq)) = (if session_of s rq = None then 404 else 403)"
  using assms
  by (auto simp: post_decoded handleMCPGet_def handleMCPDelete_def owns_session_def session_of_def
      Let_def split: option.splits)


lemma handleInitialize_replies: "replies msg (fst (handleInitialize E s rq msg))"
  by (auto simp: handleInitialize_def Let_def split: option.splits prod.splits)


end
