(* ===== verification/ServerRun.thy ===== *)
theory ServerRun
  imports McpHandler
begin

text \<open>
  \<^verbatim>\<open>server.go\<close>: construction, routing, the garbage collection sweep and the
  lifecycle of \<^verbatim>\<open>Run\<close>. A serving server is a state machine: each request and each
  tick of the sweep is a step, and \<open>serving\<close> are the states it can reach. Here requests are taken
  one after the other; \<open>Serving\<close> takes them concurrently.
\<close>

section \<open>Construction and routes\<close>

definition DefaultListenAddr :: bytes where
  "DefaultListenAddr = ''127.0.0.1:8443''"

definition DefaultPoolIdleTimeout :: duration where
  "DefaultPoolIdleTimeout = 15 * Minute"

definition DefaultIdleTimeout :: duration where
  "DefaultIdleTimeout = 30 * Minute"

definition DefaultSweepInterval :: duration where
  "DefaultSweepInterval = 1 * Minute"

definition New :: "Config \<Rightarrow> World \<Rightarrow> Server" where
  "New cfg w =
    (let cfg = (if cfgListenAddr cfg = [] then cfg\<lparr>cfgListenAddr := DefaultListenAddr\<rparr> else cfg) in
     \<lparr>svCfg = cfg,
      svSessions = (case cfgSessions cfg of Some st \<Rightarrow> st | None \<Rightarrow> NewInMemorySessionStore),
      svRunner = None, svPool = None, svBackendCaps = None, svCatalog = cfgCatalog cfg,
      svLimiter = NewRateLimiter (cfgRateLimit cfg), svWorld = w\<rparr>)"

definition mcpChain :: "Env \<Rightarrow> Config \<Rightarrow> handler \<Rightarrow> handler" where
  "mcpChain E cfg h =
    Chain h
      [RequireOrigin (cfgAllowedOrigins cfg),
       ParseProtocolVersion,
       RequireAuth (cfgValidator cfg) (cfgAudience cfg),
       RequireRateLimit E]"

definition handleHealthz :: handler where
  "handleHealthz s rq =
    (\<lparr>rsStatus = 200, rsHeaders = [(''Content-Type'', ''text/plain; charset=utf-8'')],
      rsBody = Text (''ok'' @ newline)\<rparr>, s)"

definition method_not_allowed :: "bytes \<Rightarrow> Response" where
  "method_not_allowed allow_header =
    (http_Error ''Method Not Allowed'' 405)
      \<lparr>rsHeaders := (''Allow'', allow_header) # rsHeaders (http_Error ''Method Not Allowed'' 405)\<rparr>"

text \<open>
  The patterns registered with \<^verbatim>\<open>http.ServeMux\<close>: a \<^verbatim>\<open>GET\<close> pattern serves
  \<^verbatim>\<open>HEAD\<close> too, another method on a known path is 405, another path is 404.
\<close>

definition routes :: "Env \<Rightarrow> bytes \<Rightarrow> bytes \<Rightarrow> handler" where
  "routes E method path s rq =
    (if path = ''/healthz'' then
       (if method = ''GET'' \<or> method = ''HEAD'' then handleHealthz s rq
        else (method_not_allowed ''GET, HEAD'', s))
     else if path = ''/mcp'' then
       (if method = ''POST'' then mcpChain E (svCfg s) (handleMCPPost E) s rq
        else if method = ''GET'' \<or> method = ''HEAD'' then mcpChain E (svCfg s) handleMCPGet s rq
        else if method = ''DELETE'' then mcpChain E (svCfg s) handleMCPDelete s rq
        else (method_not_allowed ''DELETE, GET, HEAD, POST'', s))
     else (http_Error ''404 page not found'' 404, s))"

section \<open>The sweep\<close>

definition idleAndSweep :: "Server \<Rightarrow> duration \<times> duration" where
  "idleAndSweep s =
    (let idle = cfgIdleTimeout (svCfg s) in
     if idle < 0 then (0, 0)
     else
       let idle = (if idle = 0 then DefaultIdleTimeout else idle);
           sweep = cfgSweepInterval (svCfg s);
           sweep = (if sweep \<le> 0 then DefaultSweepInterval else sweep) in
       (idle, sweep))"

definition poolIdleTimeout :: "Server \<Rightarrow> duration" where
  "poolIdleTimeout s =
    (let t = cfgPoolIdleTimeout (svCfg s) in
     if t < 0 then 0 else if t = 0 then DefaultPoolIdleTimeout else t)"

text \<open>One tick of \<^verbatim>\<open>runSessionGC\<close>.\<close>

definition gc_tick :: "Env \<Rightarrow> Server \<Rightarrow> time \<Rightarrow> Server" where
  "gc_tick E s now =
    (let idle = fst (idleAndSweep s); poolIdle = poolIdleTimeout s;
         s = s\<lparr>svSessions := fst (ExpireBefore (svSessions s) (now - idle))\<rparr>;
         s = (if svLimiter s \<noteq> None
              then s\<lparr>svLimiter := fst (Cleanup (svLimiter s)
                (now - rlEvictAfter (cfgRateLimit (svCfg s))))\<rparr>
              else s) in
     if svPool s \<noteq> None \<and> 0 < poolIdle
     then (case EvictIdle E (svWorld s) (svPool s) (now - poolIdle) of
       (_, pool, w) \<Rightarrow> s\<lparr>svPool := pool, svWorld := w\<rparr>)
     else s)"

text \<open>The sweep runs only when sessions expire at all.\<close>

definition runSessionGC :: "Env \<Rightarrow> Server \<Rightarrow> time \<Rightarrow> Server" where
  "runSessionGC E s now = (if 0 < fst (idleAndSweep s) then gc_tick E s now else s)"

section \<open>Start and stop\<close>

text \<open>
  The part of \<^verbatim>\<open>Run\<close> before it listens: start the runner or the pool, keep the
  capabilities.
\<close>

definition run_start :: "Env \<Rightarrow> Server \<Rightarrow> bytes option \<times> Server" where
  "run_start E s =
    (case (cfgRunner (svCfg s), cfgBackend (svCfg s)) of
       (Some _, Some _) \<Rightarrow> (Some ''Config.Runner and Config.Backend are mutually exclusive'', s)
     | (Some r, None) \<Rightarrow>
       let s = s\<lparr>svRunner := Some r\<rparr> in
       (case runner_Start E (svWorld s) r of
          (Inl e, w) \<Rightarrow> (Some (''backing mcp start: '' @ e), s\<lparr>svWorld := w\<rparr>)
        | (Inr caps, w) \<Rightarrow> (None, s\<lparr>svWorld := w, svBackendCaps := Some caps\<rparr>))
     | (None, Some b) \<Rightarrow>
       (case pool_Start E (svWorld s) (NewRunnerPool b (cfgBackendShareSafe (svCfg s))) of
          (Some e, p, w) \<Rightarrow>
            (Some (''backing mcp pool start: '' @ e), s\<lparr>svPool := Some p, svWorld := w\<rparr>)
        | (None, p, w) \<Rightarrow>
            (None, s\<lparr>svPool := Some p, svWorld := w, svBackendCaps := Caps (Some p)\<rparr>))
     | (None, None) \<Rightarrow> (None, s))"

text \<open>What \<^verbatim>\<open>Run\<close> defers until the HTTP server has drained.\<close>

definition run_stop :: "Env \<Rightarrow> Server \<Rightarrow> Server" where
  "run_stop E s =
    (case svRunner s of
       Some r \<Rightarrow> s\<lparr>svWorld := snd (runner_Stop E (svWorld s) r)\<rparr>
     | None \<Rightarrow>
       (case svPool s of
          Some p \<Rightarrow> (case pool_Close E (svWorld s) (Some p) of
            (_, pool, w) \<Rightarrow> s\<lparr>svPool := pool, svWorld := w\<rparr>)
        | None \<Rightarrow> s))"

section \<open>A serving server\<close>

datatype input = HttpRequest bytes bytes Request | Tick time

fun serve :: "Env \<Rightarrow> Server \<Rightarrow> input \<Rightarrow> Server" where
  "serve E s (HttpRequest method path rq) = snd (routes E method path s rq)"
| "serve E s (Tick now) = runSessionGC E s now"

text \<open>A request as it arrives carries nothing in its context yet.\<close>

fun arrives :: "input \<Rightarrow> bool" where
  "arrives (HttpRequest _ _ rq) = (rqIdentity rq = None \<and> rqProtocolVersion rq = None)"
| "arrives (Tick _) = True"

inductive serving :: "Env \<Rightarrow> Config \<Rightarrow> World \<Rightarrow> Server \<Rightarrow> bool" for E cfg w where
  started: "run_start E (New cfg w) = (None, s) \<Longrightarrow> serving E cfg w s"
| served: "serving E cfg w s \<Longrightarrow> arrives x \<Longrightarrow> serving E cfg w (serve E s x)"

inductive_cases servingE: "serving E cfg w s"

text \<open>
  The whole life of \<^verbatim>\<open>Run\<close> over the inputs it serves: the error it could not start
  with, or the state it leaves.
\<close>

definition Run :: "Env \<Rightarrow> Server \<Rightarrow> input list \<Rightarrow> bytes option \<times> Server" where
  "Run E s xs =
    (case run_start E s of
       (Some e, s) \<Rightarrow> (Some e, s)
     | (None, s) \<Rightarrow> (None, run_stop E (foldl (serve E) s xs)))"

section \<open>The gates of the endpoint\<close>

text \<open>The request as the handler sees it once it has passed.\<close>

definition admitted_request :: "Request \<Rightarrow> Identity \<Rightarrow> Request" where
  "admitted_request rq i =
    rq\<lparr>rqProtocolVersion := Some (version_of rq), rqIdentity := Some i\<rparr>"

lemma mcpChain_eq:
  "mcpChain E cfg h s rq =
    (if \<not> origin_ok (cfgAllowedOrigins cfg) rq then (http_Error ''forbidden origin'' 403, s)
     else if version_of rq \<notin> set SupportedProtocolVersions
     then (http_Error ''unsupported MCP protocol version'' 400, s)
     else case authenticated (cfgValidator cfg) (cfgAudience cfg) rq of
       None \<Rightarrow> (respondUnauthorized, s)
     | Some i \<Rightarrow>
       let rq' = admitted_request rq i; (s', ok) = limited E s rq' in
       if ok then h s' rq' else (respondRateLimited, s'))"
proof -
  have a: "authenticated v aud (rq\<lparr>rqProtocolVersion := x\<rparr>) = authenticated v aud rq" for v aud x
    by (simp add: authenticated_def)
  show ?thesis
    by (simp add: mcpChain_def Chain_def origin.gate_eq version.gate_eq auth.gate_eq rate.gate_eq a
        admitted_request_def case_prod_beta Let_def split: option.splits)
qed

text \<open>C6. The order of the gates, and that there is no way around them: a request is refused with
  403 for a foreign origin, else 400 for an unsupported protocol version, else 401 unless its bearer
  token authenticates, always with the same response, else 429 when its subject is out of tokens;
  only then does the handler run, with the authenticated identity in its context, on a state that
  differs at most in the limiter and the clock.\<close>

theorem gates_in_order:
  "mcpChain E cfg h s rq =
    (if \<not> origin_ok (cfgAllowedOrigins cfg) rq then (http_Error ''forbidden origin'' 403, s)
     else if version_of rq \<notin> set SupportedProtocolVersions
     then (http_Error ''unsupported MCP protocol version'' 400, s)
     else case authenticated (cfgValidator cfg) (cfgAudience cfg) rq of
       None \<Rightarrow> (respondUnauthorized, s)
     | Some i \<Rightarrow>
       let rq' = admitted_request rq i; (s', ok) = limited E s rq' in
       if ok then h s' rq' else (respondRateLimited, s'))
   \<and> same_core s (fst (limited E s (admitted_request rq i)))"
  by (simp add: mcpChain_eq limited_core)

lemma mcpChain_effect:
  assumes "\<not> same_core s (snd (mcpChain E cfg h s rq))"
  shows "\<exists>i. authenticated (cfgValidator cfg) (cfgAudience cfg) rq = Some i
    \<and> origin_ok (cfgAllowedOrigins cfg) rq \<and> version_of rq \<in> set SupportedProtocolVersions
    \<and> mcpChain E cfg h s rq = h (fst (limited E s (admitted_request rq i))) (admitted_request rq i)"
  using assms limited_core [of s E]
  by (auto simp: mcpChain_eq Let_def case_prod_beta split: if_splits option.splits)

text \<open>C1. An unauthenticated client has no effect: any request that changes a session, the pool, or
  sends or starts anything is a request to \<^verbatim>\<open>/mcp\<close> with a bearer token that the
  validator accepts for this server's audience, an acceptable origin and a supported version.\<close>

theorem effects_need_authentication:
  assumes "\<not> same_core s (snd (routes E m path s rq))"
  shows "path = ''/mcp'' \<and> origin_ok (cfgAllowedOrigins (svCfg s)) rq
    \<and> version_of rq \<in> set SupportedProtocolVersions
    \<and> (\<exists>validate token i. cfgValidator (svCfg s) = Some validate
        \<and> extractBearer (header_get (rqHeaders rq) ''Authorization'') = Some token
        \<and> validate token (cfgAudience (svCfg s)) = Some i)"
proof -
  from assms have p: "path = ''/mcp''"
    by (auto simp: routes_def handleHealthz_def split: if_splits)
  with assms have "\<exists>h. \<not> same_core s (snd (mcpChain E (svCfg s) h s rq))"
    by (auto simp: routes_def split: if_splits)
  then obtain h i where "authenticated (cfgValidator (svCfg s)) (cfgAudience (svCfg s)) rq = Some i"
    "origin_ok (cfgAllowedOrigins (svCfg s)) rq" "version_of rq \<in> set SupportedProtocolVersions"
    using mcpChain_effect by blast
  with p show ?thesis by (auto simp: authenticated_def bind_eq_Some_conv)
qed

section \<open>What the sweep removes\<close>

lemma gc_tick_sel:
  "svSessions (gc_tick E s now) = fst (ExpireBefore (svSessions s) (now - fst (idleAndSweep s)))"
  "svCfg (gc_tick E s now) = svCfg s" "svRunner (gc_tick E s now) = svRunner s"
  "svCatalog (gc_tick E s now) = svCatalog s" "svBackendCaps (gc_tick E s now) = svBackendCaps s"
  "svLimiter (gc_tick E s now) =
    (if svLimiter s = None then None
     else fst (Cleanup (svLimiter s) (now - rlEvictAfter (cfgRateLimit (svCfg s)))))"
  by (simp_all add: gc_tick_def Let_def case_prod_beta)

lemma gc_tick_pool:
  "(svPool (gc_tick E s now), svWorld (gc_tick E s now)) =
    (if svPool s \<noteq> None \<and> 0 < poolIdleTimeout s
     then snd (EvictIdle E (svWorld s) (svPool s) (now - poolIdleTimeout s))
     else (svPool s, svWorld s))"
  by (simp add: gc_tick_def Let_def case_prod_beta poolIdleTimeout_def)

text \<open>Sessions live as long as they are used: a sweep keeps exactly the sessions seen within the
  idle timeout, which is the configured one or half an hour, and with a negative timeout no sweep
  ever removes anything.\<close>

theorem sweep_keeps_active_sessions:
  assumes "store_ok (svSessions s)"
  shows "Get (svSessions (runSessionGC E s now)) j =
    (case Get (svSessions s) j of
       None \<Rightarrow> None
     | Some sess \<Rightarrow>
       let idle = cfgIdleTimeout (svCfg s);
           limit = (if idle = 0 then 1800 * 1000000000 else idle) in
       if 0 \<le> idle \<and> limit < now - sessLastSeen sess then None else Some sess)"
proof -
  have idle: "fst (idleAndSweep s) = (if cfgIdleTimeout (svCfg s) < 0 then 0
      else if cfgIdleTimeout (svCfg s) = 0 then 1800 * 1000000000 else cfgIdleTimeout (svCfg s))"
    by (simp add: idleAndSweep_def Let_def DefaultIdleTimeout_def Minute_def Second_def)
  show ?thesis
  proof (cases "Get (svSessions s) j")
    case None
    then have "store_view (svSessions s) j = None" by (simp add: Get_is_view)
    then show ?thesis
      using assms None
      by (simp add: runSessionGC_def gc_tick_sel mem.view_get mem.view_expire mem.ok_ops
          drop_where_None)
  next
    case (Some sess)
    then show ?thesis
      using mem.expire_removes [OF assms Some] idle
      by (auto simp: runSessionGC_def gc_tick_sel Let_def)
  qed
qed

text \<open>C33. Under the default eviction time the sweep forgets every rate limit: the defaulted value is
  kept in the limiter, but the sweep reads the configuration, where it is still zero, so each tick
  evicts all buckets not used after it, and a client that was out of tokens has a full bucket
  again at its next request.\<close>

theorem default_eviction_resets_limits:
  assumes "rlEvictAfter (cfgRateLimit (svCfg s)) = 0" "0 < fst (idleAndSweep s)"
    "svLimiter s = Some l" "limiter_ok l" "1 \<le> rlBurst (limCfg l)"
    "\<forall>i b. map_of (limBuckets l) i = Some b \<longrightarrow> bkLastUsed b < now"
  shows "\<exists>l'. svLimiter (runSessionGC E s now) = Some l' \<and> map_of (limBuckets l') = Map.empty
    \<and> snd (Allow (Some l') t i)"
proof -
  let ?P = "\<lambda>b. idleSince b < now"
  let ?l = "l\<lparr>limBuckets := map_purge ?P (limBuckets l)\<rparr>"
  have l': "svLimiter (runSessionGC E s now) = Some ?l"
    using assms(1-3) by (simp add: runSessionGC_def gc_tick_sel Cleanup_Some)
  have empty: "map_of (map_purge ?P (limBuckets l)) = Map.empty"
    using assms(4,6) by (auto simp: map_of_map_purge limiter_ok_def drop_where_None idleSince_def)
  have "snd (Allow (Some ?l) t i)"
    using assms(5) by (simp add: Allow_Some bucket_for_def empty allow_refill refill_fresh Let_def)
  with l' empty show ?thesis by (intro exI [of _ ?l]) simp
qed

section \<open>Everything a serving server keeps\<close>

text \<open>Who a session may belong to.\<close>

definition genuine :: "Config \<Rightarrow> bytes \<Rightarrow> Session \<Rightarrow> bool" where
  "genuine cfg j sess \<longleftrightarrow> sessID sess = j
    \<and> sessProtocolVersion sess \<in> set SupportedProtocolVersions
    \<and> (\<exists>validate token i. cfgValidator cfg = Some validate \<and> validate token (cfgAudience cfg) = Some i
        \<and> sessSubject sess = idSubject i)"

definition srv_inv :: "Config \<Rightarrow> Server \<Rightarrow> bool" where
  "srv_inv cfg s \<longleftrightarrow>
    cfgValidator (svCfg s) = cfgValidator cfg \<and> cfgAudience (svCfg s) = cfgAudience cfg
    \<and> svCatalog s = cfgCatalog cfg \<and> store_ok (svSessions s)
    \<and> (\<forall>j sess. Get (svSessions s) j = Some sess \<longrightarrow> genuine cfg j sess)
    \<and> (svRunner s = None \<or> svPool s = None)"

lemma touch_get:
  "store_ok st \<Longrightarrow> Get (fst (Touch st i now)) j = spec_apply (Get st) (OpTouch i now) j"
  using mem.view_touch [of st i now] by (simp only: Get_is_view)

lemma mark_get:
  "store_ok st \<Longrightarrow> Get (fst (MarkInitialized st i now)) j = spec_apply (Get st) (OpMarkInitialized i now) j"
  using mem.view_mark [of st i now] by (simp only: Get_is_view)

lemma genuine_updates:
  "genuine cfg j (sess\<lparr>sessLastSeen := t\<rparr>) = genuine cfg j sess"
  "genuine cfg j (sess\<lparr>sessInitialized := b\<rparr>) = genuine cfg j sess"
  by (simp_all add: genuine_def)

lemma touch_genuine:
  assumes "store_ok st" "\<forall>j sess. Get st j = Some sess \<longrightarrow> genuine cfg j sess"
  shows "store_ok (fst (Touch st i now))
    \<and> (\<forall>j sess. Get (fst (Touch st i now)) j = Some sess \<longrightarrow> genuine cfg j sess)"
  using assms mem.ok_ops [OF assms(1)]
  by (auto simp: touch_get genuine_updates split: option.splits if_splits)

lemma mark_genuine:
  assumes "store_ok st" "\<forall>j sess. Get st j = Some sess \<longrightarrow> genuine cfg j sess"
  shows "store_ok (fst (MarkInitialized st i now))
    \<and> (\<forall>j sess. Get (fst (MarkInitialized st i now)) j = Some sess \<longrightarrow> genuine cfg j sess)"
  using assms mem.ok_ops [OF assms(1)]
  by (auto simp: mark_get genuine_updates split: option.splits if_splits)

lemma same_core_inv: "same_core s s' \<Longrightarrow> srv_inv cfg s \<Longrightarrow> srv_inv cfg s'"
  by (simp add: srv_inv_def same_core_def)

text \<open>The handlers, on a request whose identity the validator vouches for.\<close>

definition vouched :: "Config \<Rightarrow> Request \<Rightarrow> bool" where
  "vouched cfg rq \<longleftrightarrow>
    (\<exists>validate token i. cfgValidator cfg = Some validate \<and> validate token (cfgAudience cfg) = Some i
      \<and> rqIdentity rq = Some i)"

lemma srv_inv_touched: "srv_inv cfg s \<Longrightarrow> srv_inv cfg (touched E s sess)"
  using touch_genuine [of "svSessions s" cfg] by (simp add: srv_inv_def touched_def)

lemma srv_inv_frame: "same_frame s s' \<Longrightarrow> srv_inv cfg s \<Longrightarrow> srv_inv cfg s'"
  by (simp add: srv_inv_def same_frame_def)

lemma handleRequest_inv: "srv_inv cfg s \<Longrightarrow> srv_inv cfg (snd (handleRequest E s rq sess msg))"
  using srv_inv_touched [of cfg s E sess]
  by (auto simp: handleRequest_dispatch Let_def split: option.splits
      intro: srv_inv_frame [OF generic.frame] srv_inv_frame [OF listing.frame]
        srv_inv_frame [OF gated.frame])

lemma handleNotification_inv:
  assumes "srv_inv cfg s"
  shows "srv_inv cfg (snd (handleNotification E s rq sess msg))"
proof (cases "msgMethod msg = ''notifications/initialized''")
  case True
  let ?t = "touched E s sess"
  have "srv_inv cfg ?t" using assms by (rule srv_inv_touched)
  with True mark_genuine [of "svSessions ?t" cfg] show ?thesis
    by (simp add: handleNotification_dispatch Let_def srv_inv_def)
next
  case False
  let ?t = "touched E s sess"
  obtain x u where x: "runnerForRequest E ?t (IdentityFromContext rq) = (x, u)"
    by (cases "runnerForRequest E ?t (IdentityFromContext rq)")
  have "srv_inv cfg u"
    using srv_inv_frame srv_inv_touched [OF assms] runnerForRequest_frame
    by (metis snd_conv x)
  with False x show ?thesis
    by (auto simp: handleNotification_dispatch Let_def srv_inv_def split: sum.splits option.splits)
qed

lemma handleInitialize_inv:
  assumes "srv_inv cfg s" "vouched cfg rq"
  shows "srv_inv cfg (snd (handleInitialize E s rq msg))"
proof -
  have sup: "negotiateProtocolVersion v \<in> set SupportedProtocolVersions" for v
    by (simp add: negotiateProtocolVersion_def preferredProtocolVersion_def SupportedProtocolVersions_def)
  have new: "genuine cfg j (new_session j (idSubject (IdentityFromContext rq))
      (negotiateProtocolVersion v) c now)" for j v c now
    using assms(2) sup
    by (auto simp: genuine_def new_session_def vouched_def IdentityFromContext_def) metis
  have ok: "store_ok (svSessions s)" using assms(1) by (simp add: srv_inv_def)
  show ?thesis
    using assms(1) new mem.ok_ops [OF ok] mem.get_after_create [OF ok]
    by (auto simp: handleInitialize_def rand_Read_def Now_def Let_def srv_inv_def
        split: option.splits prod.splits if_splits)
qed

lemma handlers_inv:
  assumes "srv_inv cfg s" "vouched cfg rq"
  shows "srv_inv cfg (snd (handleMCPPost E s rq))" "srv_inv cfg (snd (handleMCPGet s rq))"
    "srv_inv cfg (snd (handleMCPDelete s rq))"
proof -
  show "srv_inv cfg (snd (handleMCPPost E s rq))"
  proof (cases "request_message rq")
    case None
    then show ?thesis using post_undecoded assms(1) by metis
  next
    case (Some msg)
    then show ?thesis
      using assms by (auto simp: post_decoded handleInitialize_inv handleNotification_inv
          handleRequest_inv split: option.splits)
  qed
  show "srv_inv cfg (snd (handleMCPGet s rq))"
    using assms(1) by (auto simp: handleMCPGet_def Let_def split: option.splits)
  have ok: "store_ok (svSessions s)" using assms(1) by (simp add: srv_inv_def)
  show "srv_inv cfg (snd (handleMCPDelete s rq))"
    using assms(1) mem.ok_ops [OF ok] mem.get_after_remove [OF ok]
    by (auto simp: handleMCPDelete_def Let_def srv_inv_def split: option.splits)
qed

lemma mcpChain_inv:
  assumes "srv_inv cfg s"
    and "\<And>s' rq'. srv_inv cfg s' \<Longrightarrow> vouched cfg rq' \<Longrightarrow> srv_inv cfg (snd (h s' rq'))"
  shows "srv_inv cfg (snd (mcpChain E (svCfg s) h s rq))"
proof (cases "same_core s (snd (mcpChain E (svCfg s) h s rq))")
  case True
  then show ?thesis using same_core_inv assms(1) by blast
next
  case False
  from mcpChain_effect [OF this] obtain i where
    i: "authenticated (cfgValidator (svCfg s)) (cfgAudience (svCfg s)) rq = Some i"
    and eq: "mcpChain E (svCfg s) h s rq
      = h (fst (limited E s (admitted_request rq i))) (admitted_request rq i)" by blast
  have "vouched cfg (admitted_request rq i)"
    using i assms(1)
    by (auto simp: vouched_def admitted_request_def authenticated_def bind_eq_Some_conv srv_inv_def)
  then show ?thesis
    unfolding eq using assms(2) same_core_inv [OF limited_core assms(1)] by blast
qed

lemma serve_inv: "srv_inv cfg s \<Longrightarrow> srv_inv cfg (serve E s x)"
proof (cases x)
  case (HttpRequest m path rq)
  assume inv: "srv_inv cfg s"
  note h = mcpChain_inv [OF inv, of "handleMCPPost E" E rq] mcpChain_inv [OF inv, of handleMCPGet E rq]
    mcpChain_inv [OF inv, of handleMCPDelete E rq]
  from inv h handlers_inv show ?thesis by (simp add: HttpRequest routes_def handleHealthz_def)
next
  case (Tick now)
  assume inv: "srv_inv cfg s"
  then have ok: "store_ok (svSessions s)" by (simp add: srv_inv_def)
  have "svPool s = None \<Longrightarrow> svPool (gc_tick E s now) = None"
    using gc_tick_pool [of E s now] by auto
  moreover have "Get (fst (ExpireBefore (svSessions s) t)) j = Some sess \<Longrightarrow>
      Get (svSessions s) j = Some sess" for t j sess
    using ok mem.view_expire [OF ok] by (simp add: Get_is_view)
  ultimately show ?thesis
    using inv mem.ok_ops [OF ok]
    by (auto simp: Tick runSessionGC_def srv_inv_def gc_tick_sel)
qed

lemma run_start_sel:
  "svSessions (snd (run_start E s)) = svSessions s" "svCfg (snd (run_start E s)) = svCfg s"
  "svCatalog (snd (run_start E s)) = svCatalog s" "svLimiter (snd (run_start E s)) = svLimiter s"
  "svRunner s = None \<Longrightarrow> svPool s = None \<Longrightarrow>
    svRunner (snd (run_start E s)) = None \<or> svPool (snd (run_start E s)) = None"
  by (auto simp: run_start_def Let_def split: option.splits sum.splits prod.splits)

lemma serving_inv:
  assumes "serving E cfg w s" "cfgSessions cfg = None"
  shows "srv_inv cfg s"
  using assms(1)
proof (induction rule: serving.induct)
  case (started s)
  have g: "Get NewInMemorySessionStore j = None" for j
    by (simp add: Get_def NewInMemorySessionStore_def)
  have "srv_inv cfg (snd (run_start E (New cfg w)))"
    using assms(2) mem.ok_empty run_start_sel(5) [of "New cfg w" E]
    by (auto simp: srv_inv_def run_start_sel New_def Let_def g)
  with started show ?case by simp
qed (rule serve_inv)

text \<open>In every state a server reaches, each session belongs to a subject whose token the
  validator accepts for this audience, is stored under its own identifier, and speaks a supported
  version; and the server uses a single runner or a pool, never both.\<close>

theorem sessions_genuine:
  assumes "serving E cfg w s" "cfgSessions cfg = None" "Get (svSessions s) j = Some sess"
  shows "sessID sess = j \<and> sessProtocolVersion sess \<in> set SupportedProtocolVersions
    \<and> (\<exists>validate token i. cfgValidator cfg = Some validate \<and> validate token (cfgAudience cfg) = Some i
        \<and> sessSubject sess = idSubject i)
    \<and> (svRunner s = None \<or> svPool s = None)"
  using serving_inv [OF assms(1,2)] assms(3) by (auto simp: srv_inv_def genuine_def)

end
