(* ===== verification/FileConfig.thy ===== *)
theory FileConfig
  imports ServerRun "HOL-Library.Word"
begin

text \<open>
  \<^verbatim>\<open>config.go\<close>: the configuration file. Its decoding is \<^verbatim>\<open>encoding/json\<close>'s for the
  types of the file, with \<^verbatim>\<open>DisallowUnknownFields\<close>: a struct is a table of its fields, a
  member whose name matches none of them makes the whole document fail, and a value is decoded into
  what the target held before, so that members given twice are merged the way Go merges them. Only
  whether decoding failed is kept of an error.
\<close>

section \<open>Decoders\<close>

text \<open>A decoder takes the value and what the target holds; it says whether it succeeded.\<close>

type_synonym 'a dec = "json \<Rightarrow> 'a \<Rightarrow> 'a \<times> bool"

fun unmarshal_bool :: "bool dec" where
  "unmarshal_bool (JBool b) old = (b, True)"
| "unmarshal_bool JNull old = (old, True)"
| "unmarshal_bool _ old = (old, False)"

text \<open>
  A number literal as a \<^verbatim>\<open>float64\<close>: its decimal value, rounded; past the largest finite value
  it is an error.
\<close>

definition decimal_value :: "bytes \<Rightarrow> rat" where
  "decimal_value l =
    (let neg = HasPrefix l ''-'';
         s = (if neg then drop 1 l else l);
         ip = takeWhile is_digit s; s = dropWhile is_digit s;
         fp = (if HasPrefix s ''.'' then takeWhile is_digit (drop 1 s) else []);
         s = (if HasPrefix s ''.'' then dropWhile is_digit (drop 1 s) else s);
         s = drop 1 s;
         eneg = HasPrefix s ''-'';
         e = nat_of_digits 0 (if eneg \<or> HasPrefix s ''+'' then drop 1 s else s);
         m = rat_of_nat (nat_of_digits 0 (ip @ fp)) / 10 ^ length fp;
         v = (if eneg then m / 10 ^ e else m * 10 ^ e) in
     if neg then - v else v)"

definition parse_float64 :: "bytes \<Rightarrow> rat option" where
  "parse_float64 l =
    (let v = f64 (decimal_value l) in if \<bar>v\<bar> < 2 ^ 1024 then Some v else None)"

fun unmarshal_float :: "rat dec" where
  "unmarshal_float (JNum l) old = (case parse_float64 l of Some v \<Rightarrow> (v, True) | None \<Rightarrow> (old, False))"
| "unmarshal_float JNull old = (old, True)"
| "unmarshal_float _ old = (old, False)"

text \<open>
  A slice: element by element, into the elements it has; a pointer: allocated unless the value is
  null; a map: each entry from a zero value.
\<close>

fun dec_elems :: "'a \<Rightarrow> 'a dec \<Rightarrow> json list \<Rightarrow> 'a list \<Rightarrow> 'a list \<times> bool" where
  "dec_elems z d [] olds = ([], True)"
| "dec_elems z d (v # vs) olds =
    (let (x, g) = d v (case olds of [] \<Rightarrow> z | y # _ \<Rightarrow> y); (xs, h) = dec_elems z d vs (drop 1 olds)
     in (x # xs, g \<and> h))"

fun dec_slice :: "'a \<Rightarrow> 'a dec \<Rightarrow> 'a list dec" where
  "dec_slice z d (JArr vs) old = dec_elems z d vs old"
| "dec_slice z d JNull old = ([], True)"
| "dec_slice z d _ old = (old, False)"

fun dec_ptr :: "'a \<Rightarrow> 'a dec \<Rightarrow> 'a option dec" where
  "dec_ptr z d JNull old = (None, True)"
| "dec_ptr z d v old =
    (let (x, g) = d v (case old of None \<Rightarrow> z | Some y \<Rightarrow> y) in (Some x, g))"

definition set_entry :: "'a \<Rightarrow> 'a dec \<Rightarrow> bytes \<times> json \<Rightarrow> 'a gomap \<times> bool \<Rightarrow> 'a gomap \<times> bool" where
  "set_entry z d kv st =
    (let (k, v) = kv; (m, ok) = st; (x, g) = d v z in (map_set k x m, ok \<and> g))"

fun dec_map :: "'a \<Rightarrow> 'a dec \<Rightarrow> 'a gomap dec" where
  "dec_map z d (JObj ms) old = fold (set_entry z d) ms (old, True)"
| "dec_map z d JNull old = ([], True)"
| "dec_map z d _ old = (old, False)"

text \<open>A struct: the table gives each field's name and how a member is decoded into it.\<close>

type_synonym 'r fields = "(string \<times> 'r dec) list"

definition set_member :: "'r fields \<Rightarrow> bytes \<times> json \<Rightarrow> 'r \<times> bool \<Rightarrow> 'r \<times> bool" where
  "set_member fs kv st =
    (let (k, v) = kv; (r, ok) = st in
     case Option.bind (match_field (map fst fs) k) (map_of fs) of
       None \<Rightarrow> (r, False)
     | Some d \<Rightarrow> let (r, g) = d v r in (r, ok \<and> g))"

fun dec_struct :: "'r fields \<Rightarrow> 'r dec" where
  "dec_struct fs (JObj ms) old = fold (set_member fs) ms (old, True)"
| "dec_struct fs JNull old = (old, True)"
| "dec_struct fs _ old = (old, False)"

definition field :: "('r \<Rightarrow> 'a) \<Rightarrow> ('a \<Rightarrow> 'r \<Rightarrow> 'r) \<Rightarrow> 'a dec \<Rightarrow> 'r dec" where
  "field sel put d v r = (let (x, g) = d v (sel r) in (put x r, g))"

abbreviation strings :: "bytes list dec" where
  "strings \<equiv> dec_slice [] unmarshal_string"

section \<open>The types of the file\<close>

record FileRateLimit =
  frRequestsPerSecond :: rat
  frBurst :: rat
  frEvictAfterSeconds :: int

record BackendConfig =
  bcCommand :: bytes
  bcArgs :: "bytes list"
  bcEnv :: "bytes gomap"
  bcSandbox :: "SandboxPolicy option"
  bcIsolate :: bool

record FileConfig =
  fcListen :: bytes
  fcAudience :: bytes
  fcAllowedOrigins :: "bytes list"
  fcAPIKeys :: "APIKey list"
  fcCapabilities :: "CapabilityBundle gomap"
  fcBackend :: "BackendConfig option"
  fcIdleTimeoutSeconds :: int
  fcSweepIntervalSeconds :: int
  fcRateLimit :: "FileRateLimit option"
  fcPoolIdleTimeoutSeconds :: int

definition zero_apikey :: APIKey where
  "zero_apikey = \<lparr>keyTokenHashHex = [], keyAudience = [], keySubject = [], keyScopes = []\<rparr>"

definition zero_bundle :: CapabilityBundle where
  "zero_bundle = \<lparr>bTools = [], bResources = [], bPrompts = []\<rparr>"

definition zero_rate_limit :: FileRateLimit where
  "zero_rate_limit = \<lparr>frRequestsPerSecond = 0, frBurst = 0, frEvictAfterSeconds = 0\<rparr>"

definition zero_backend :: BackendConfig where
  "zero_backend = \<lparr>bcCommand = [], bcArgs = [], bcEnv = [], bcSandbox = None, bcIsolate = False\<rparr>"

definition zero_file_config :: FileConfig where
  "zero_file_config = \<lparr>fcListen = [], fcAudience = [], fcAllowedOrigins = [], fcAPIKeys = [],
     fcCapabilities = [], fcBackend = None, fcIdleTimeoutSeconds = 0, fcSweepIntervalSeconds = 0,
     fcRateLimit = None, fcPoolIdleTimeoutSeconds = 0\<rparr>"

definition apikey_fields :: "APIKey fields" where
  "apikey_fields =
    [(''tokenHashHex'', field keyTokenHashHex (\<lambda>x. keyTokenHashHex_update (\<lambda>_. x)) unmarshal_string),
     (''audience'', field keyAudience (\<lambda>x. keyAudience_update (\<lambda>_. x)) unmarshal_string),
     (''subject'', field keySubject (\<lambda>x. keySubject_update (\<lambda>_. x)) unmarshal_string),
     (''scopes'', field keyScopes (\<lambda>x. keyScopes_update (\<lambda>_. x)) strings)]"

definition bundle_fields :: "CapabilityBundle fields" where
  "bundle_fields =
    [(''tools'', field bTools (\<lambda>x. bTools_update (\<lambda>_. x)) strings),
     (''resources'', field bResources (\<lambda>x. bResources_update (\<lambda>_. x)) strings),
     (''prompts'', field bPrompts (\<lambda>x. bPrompts_update (\<lambda>_. x)) strings)]"

definition sandbox_fields :: "SandboxPolicy fields" where
  "sandbox_fields =
    [(''network'', field spNetwork (\<lambda>x. spNetwork_update (\<lambda>_. x)) unmarshal_string),
     (''bindReadOnly'', field spBindReadOnly (\<lambda>x. spBindReadOnly_update (\<lambda>_. x)) strings),
     (''bindReadWrite'', field spBindReadWrite (\<lambda>x. spBindReadWrite_update (\<lambda>_. x)) strings),
     (''noDefaults'', field spNoDefaults (\<lambda>x. spNoDefaults_update (\<lambda>_. x)) unmarshal_bool),
     (''disabled'', field spDisabled (\<lambda>x. spDisabled_update (\<lambda>_. x)) unmarshal_bool)]"

definition rate_limit_fields :: "FileRateLimit fields" where
  "rate_limit_fields =
    [(''requestsPerSecond'',
        field frRequestsPerSecond (\<lambda>x. frRequestsPerSecond_update (\<lambda>_. x)) unmarshal_float),
     (''burst'', field frBurst (\<lambda>x. frBurst_update (\<lambda>_. x)) unmarshal_float),
     (''evictAfterSeconds'',
        field frEvictAfterSeconds (\<lambda>x. frEvictAfterSeconds_update (\<lambda>_. x)) unmarshal_int)]"

definition backend_fields :: "BackendConfig fields" where
  "backend_fields =
    [(''command'', field bcCommand (\<lambda>x. bcCommand_update (\<lambda>_. x)) unmarshal_string),
     (''args'', field bcArgs (\<lambda>x. bcArgs_update (\<lambda>_. x)) strings),
     (''env'', field bcEnv (\<lambda>x. bcEnv_update (\<lambda>_. x)) (dec_map [] unmarshal_string)),
     (''sandbox'', field bcSandbox (\<lambda>x. bcSandbox_update (\<lambda>_. x))
        (dec_ptr zero_policy (dec_struct sandbox_fields))),
     (''isolate'', field bcIsolate (\<lambda>x. bcIsolate_update (\<lambda>_. x)) unmarshal_bool)]"

definition config_fields :: "FileConfig fields" where
  "config_fields =
    [(''listen'', field fcListen (\<lambda>x. fcListen_update (\<lambda>_. x)) unmarshal_string),
     (''audience'', field fcAudience (\<lambda>x. fcAudience_update (\<lambda>_. x)) unmarshal_string),
     (''allowedOrigins'', field fcAllowedOrigins (\<lambda>x. fcAllowedOrigins_update (\<lambda>_. x)) strings),
     (''apiKeys'', field fcAPIKeys (\<lambda>x. fcAPIKeys_update (\<lambda>_. x))
        (dec_slice zero_apikey (dec_struct apikey_fields))),
     (''capabilities'', field fcCapabilities (\<lambda>x. fcCapabilities_update (\<lambda>_. x))
        (dec_map zero_bundle (dec_struct bundle_fields))),
     (''backend'', field fcBackend (\<lambda>x. fcBackend_update (\<lambda>_. x))
        (dec_ptr zero_backend (dec_struct backend_fields))),
     (''idleTimeoutSeconds'',
        field fcIdleTimeoutSeconds (\<lambda>x. fcIdleTimeoutSeconds_update (\<lambda>_. x)) unmarshal_int),
     (''sweepIntervalSeconds'',
        field fcSweepIntervalSeconds (\<lambda>x. fcSweepIntervalSeconds_update (\<lambda>_. x)) unmarshal_int),
     (''rateLimit'', field fcRateLimit (\<lambda>x. fcRateLimit_update (\<lambda>_. x))
        (dec_ptr zero_rate_limit (dec_struct rate_limit_fields))),
     (''poolIdleTimeoutSeconds'',
        field fcPoolIdleTimeoutSeconds (\<lambda>x. fcPoolIdleTimeoutSeconds_update (\<lambda>_. x)) unmarshal_int)]"

section \<open>Loading\<close>

text \<open>
  The contents of the file are an argument, \<open>None\<close> when it cannot be read. One value is decoded;
  what follows it in the file is not looked at.
\<close>

datatype config_error = ReadConfig | ParseConfig

definition LoadFileConfig :: "bytes option \<Rightarrow> config_error + FileConfig" where
  "LoadFileConfig contents =
    (case contents of
       None \<Rightarrow> Inl ReadConfig
     | Some data \<Rightarrow>
       (case parse_value (2 * length data + 2) maxNestingDepth data of
          None \<Rightarrow> Inl ParseConfig
        | Some (v, _) \<Rightarrow>
          let (cfg, ok) = dec_struct config_fields v zero_file_config in
          if ok then Inr cfg else Inl ParseConfig))"


section \<open>Strictness\<close>

text \<open>Once a member has failed, the struct has.\<close>

lemma set_member_failed: "snd (fold (set_member fs) ms (r, ok)) \<longrightarrow> ok"
proof (induction ms arbitrary: r ok)
  case (Cons kv ms)
  obtain r' ok' where m: "set_member fs kv (r, ok) = (r', ok')" by (cases "set_member fs kv (r, ok)")
  then have "ok' \<longrightarrow> ok"
    by (auto simp: set_member_def Let_def split: prod.splits option.splits)
  with Cons.IH [of r' ok'] m show ?case by auto
qed simp

lemma dec_struct_fails:
  assumes "kv \<in> set ms" "\<And>r ok. \<not> snd (set_member fs kv (r, ok))"
  shows "\<not> snd (dec_struct fs (JObj ms) old)"
proof -
  have "\<not> snd (fold (set_member fs) ms (r, ok))" for r ok
    using assms(1)
  proof (induction ms arbitrary: r ok)
    case (Cons a ms)
    obtain r' ok' where m: "set_member fs a (r, ok) = (r', ok')" by (cases "set_member fs a (r, ok)")
    show ?case
    proof (cases "a = kv")
      case True
      with m assms(2) have "\<not> ok'" by (metis snd_conv)
      with set_member_failed [of fs ms r' ok'] m show ?thesis by simp
    next
      case False
      with Cons show ?thesis by (simp add: m)
    qed
  qed simp
  then show ?thesis by simp
qed

definition known :: "'r fields \<Rightarrow> bytes \<Rightarrow> bool" where
  "known fs k \<longleftrightarrow> (\<exists>f \<in> set (map fst fs). fold_name f = fold_name k)"

lemma match_field_known: "match_field (map fst fs) k = None \<longleftrightarrow> \<not> known fs k"
proof -
  let ?P = "\<lambda>f. fold_name f = fold_name k"
  have "match_field (map fst fs) k = None
      \<longleftrightarrow> k \<notin> set (map fst fs) \<and> filter ?P (map fst fs) = []"
    by (simp add: match_field_def split: list.split)
  also have "\<dots> \<longleftrightarrow> (\<forall>f \<in> set (map fst fs). \<not> ?P f)"
    unfolding filter_empty_conv by blast
  finally show ?thesis by (simp add: known_def)
qed

lemma unknown_member_fails:
  "\<not> known fs k \<Longrightarrow> (k, v) \<in> set ms \<Longrightarrow> \<not> snd (dec_struct fs (JObj ms) old)"
  by (rule dec_struct_fails [of "(k, v)"]) (simp_all add: set_member_def match_field_known [THEN iffD2])


text \<open>
  The names the file may use, at every level: what a typo is measured against. \<open>Leaf\<close> is any value.
\<close>

datatype schema = Leaf | Obj "(string \<times> schema) list" | Elems schema | Entries schema

fun has_unknown :: "schema \<Rightarrow> json \<Rightarrow> bool" where
  "has_unknown (Obj ss) (JObj ms) =
    (\<exists>kv \<in> set ms.
      case match_field (map fst ss) (fst kv) of
        None \<Rightarrow> True
      | Some f \<Rightarrow> (case map_of ss f of None \<Rightarrow> True | Some s \<Rightarrow> has_unknown s (snd kv)))"
| "has_unknown (Elems s) (JArr vs) = (\<exists>v \<in> set vs. has_unknown s v)"
| "has_unknown (Entries s) (JObj ms) = (\<exists>kv \<in> set ms. has_unknown s (snd kv))"
| "has_unknown _ _ = False"

definition config_schema :: schema where
  "config_schema =
    Obj [(''listen'', Leaf), (''audience'', Leaf), (''allowedOrigins'', Leaf),
      (''apiKeys'', Elems (Obj [(''tokenHashHex'', Leaf), (''audience'', Leaf), (''subject'', Leaf),
        (''scopes'', Leaf)])),
      (''capabilities'', Entries (Obj [(''tools'', Leaf), (''resources'', Leaf), (''prompts'', Leaf)])),
      (''backend'', Obj [(''command'', Leaf), (''args'', Leaf), (''env'', Leaf),
        (''sandbox'', Obj [(''network'', Leaf), (''bindReadOnly'', Leaf), (''bindReadWrite'', Leaf),
          (''noDefaults'', Leaf), (''disabled'', Leaf)]),
        (''isolate'', Leaf)]),
      (''idleTimeoutSeconds'', Leaf), (''sweepIntervalSeconds'', Leaf),
      (''rateLimit'', Obj [(''requestsPerSecond'', Leaf), (''burst'', Leaf), (''evictAfterSeconds'', Leaf)]),
      (''poolIdleTimeoutSeconds'', Leaf)]"

text \<open>A decoder is strict for a schema when it fails on whatever has a name the schema does not.\<close>

definition strict :: "'a dec \<Rightarrow> schema \<Rightarrow> bool" where
  "strict d s \<longleftrightarrow> (\<forall>v old. has_unknown s v \<longrightarrow> \<not> snd (d v old))"

lemma strict_Leaf: "strict d Leaf"
  by (simp add: strict_def)

lemma strict_field: "strict d s \<Longrightarrow> strict (field sel put d) s"
  by (simp add: strict_def field_def case_prod_beta Let_def)

lemma strict_ptr: "strict d s \<Longrightarrow> strict (dec_ptr z d) s"
  unfolding strict_def
proof (intro allI impI)
  fix v old assume "\<forall>v old. has_unknown s v \<longrightarrow> \<not> snd (d v old)" and u: "has_unknown s v"
  then have "\<not> snd (d v x)" for x by blast
  moreover have "v \<noteq> JNull" using u by (cases s) auto
  ultimately show "\<not> snd (dec_ptr z d v old)"
    by (cases v) (simp_all add: case_prod_beta Let_def)
qed

lemma strict_slice: "strict d s \<Longrightarrow> strict (dec_slice z d) (Elems s)"
proof -
  assume d: "strict d s"
  have "\<exists>v \<in> set vs. has_unknown s v \<Longrightarrow> \<not> snd (dec_elems z d vs olds)" for vs olds
    using d by (induction vs arbitrary: olds) (auto simp: strict_def case_prod_beta Let_def)
  then show ?thesis
    unfolding strict_def
  proof (intro allI impI)
    fix v old assume "has_unknown (Elems s) v"
    then show "\<not> snd (dec_slice z d v old)"
      using \<open>\<And>vs olds. \<exists>v \<in> set vs. has_unknown s v \<Longrightarrow> \<not> snd (dec_elems z d vs olds)\<close>
      by (cases v) auto
  qed
qed

lemma strict_map: "strict d s \<Longrightarrow> strict (dec_map z d) (Entries s)"
proof -
  assume d: "strict d s"
  have failed: "snd (fold (set_entry z d) ms st) \<longrightarrow> snd st" for ms st
  proof (induction ms arbitrary: st)
    case (Cons a ms)
    from Cons.IH [of "set_entry z d a st"] show ?case
      by (auto simp: set_entry_def case_prod_beta Let_def)
  qed simp
  have fails: "\<not> snd (fold (set_entry z d) ms st)" if "kv \<in> set ms" "has_unknown s (snd kv)" for kv ms st
    using that(1)
  proof (induction ms arbitrary: st)
    case (Cons a ms)
    have "\<not> snd (d (snd kv) z)" using d that(2) by (simp add: strict_def)
    then have "\<not> snd (set_entry z d kv st)" by (simp add: set_entry_def case_prod_beta Let_def)
    with failed [of ms "set_entry z d kv st"] Cons.IH [of "set_entry z d a st"] Cons.prems
    show ?case by (cases "a = kv") simp_all
  qed simp
  show ?thesis
    unfolding strict_def
  proof (intro allI impI)
    fix v old assume "has_unknown (Entries s) v"
    then show "\<not> snd (dec_map z d v old)" by (cases v) (auto dest: fails)
  qed
qed

lemma strict_struct:
  assumes "list_all2 (\<lambda>fd fs. fst fd = fst fs \<and> strict (snd fd) (snd fs)) fs ss"
  shows "strict (dec_struct fs) (Obj ss)"
  unfolding strict_def
proof (intro allI impI)
  fix v old assume u: "has_unknown (Obj ss) v"
  then obtain ms where v: "v = JObj ms" by (cases v) auto
  from u obtain kw where kw: "kw \<in> set ms"
    and bad: "case match_field (map fst ss) (fst kw) of None \<Rightarrow> True
      | Some f \<Rightarrow> (case map_of ss f of None \<Rightarrow> True | Some s \<Rightarrow> has_unknown s (snd kw))"
    unfolding v has_unknown.simps by (rule bexE)
  have names: "map fst fs = map fst ss"
    using assms by (induction rule: list_all2_induct) auto
  have sub: "map_of fs f = Some d \<Longrightarrow> \<exists>s. map_of ss f = Some s \<and> strict d s" for f d
    using assms by (induction rule: list_all2_induct) (auto split: if_splits)
  have "\<not> snd (set_member fs kw (r, ok))" for r ok
    using bad sub by (fastforce simp: set_member_def names strict_def case_prod_beta Let_def
        split: option.splits)
  with kw show "\<not> snd (dec_struct fs v old)"
    unfolding v by (rule dec_struct_fails)
qed

lemma config_strict: "strict (dec_struct config_fields) config_schema"
  unfolding config_fields_def config_schema_def apikey_fields_def bundle_fields_def
    backend_fields_def sandbox_fields_def rate_limit_fields_def
  by (intro strict_struct) (simp add: strict_field strict_Leaf strict_ptr strict_slice strict_map strict_struct)

text \<open>C39. A misspelt setting is a startup error, however deep it sits: a file whose document has a
  member no field of the configuration is named like, up to case, in any object the configuration
  describes, is refused.\<close>

theorem unknown_settings_refused:
  assumes "parse_value (2 * length data + 2) maxNestingDepth data = Some (v, rest)"
    "has_unknown config_schema v"
  shows "LoadFileConfig (Some data) = Inl ParseConfig"
  using assms config_strict by (auto simp: LoadFileConfig_def strict_def case_prod_beta Let_def)

end
