(* ===== verification/EndToEnd.thy ===== *)
theory EndToEnd
  imports ServerRun
begin

text \<open>
  Facts that span the components: what a request can make the backing MCP see, and whose backing
  process it is that sees it.
\<close>

section \<open>Calls that reach the backing MCP\<close>

lemma same_core_traffic: "same_core s s' \<Longrightarrow> traffic s' = traffic s"
  by (simp add: same_core_def traffic_def)

lemma handleInitialize_traffic: "traffic (snd (handleInitialize E s rq msg)) = traffic s"
  by (auto simp: handleInitialize_def rand_Read_def Now_def Let_def traffic_def
      split: option.splits prod.splits)

lemma handleNotification_traffic:
  "traffic (snd (handleNotification E s rq sess msg)) = traffic s
    \<or> (\<exists>r. traffic (snd (handleNotification E s rq sess msg))
          = EvNotify r (msgMethod msg) (msgParams msg) # traffic s)"
proof -
  obtain x u where x: "runnerForRequest E (touched E s sess) (IdentityFromContext rq) = (x, u)"
    by (cases "runnerForRequest E (touched E s sess) (IdentityFromContext rq)")
  have "traffic u = traffic s"
    using runnerForRequest_frame [of "touched E s sess" E "IdentityFromContext rq"] x by simp
  moreover have "wTrace (svWorld (touched E s sess)) = wTrace (svWorld s)"
    by (simp add: touched_def)
  ultimately show ?thesis
    using x by (auto simp: handleNotification_dispatch Let_def traffic_def
        split: sum.splits option.splits)
qed

text \<open>A call the backing MCP sees is the sender's own message, in the sender's own session, past the gate.\<close>

lemma post_calls:
  assumes new: "EvCall r m ps \<in> set (traffic (snd (handleMCPPost E s rq)))"
    and old: "EvCall r m ps \<notin> set (traffic s)"
  shows "\<exists>msg. request_message rq = Some msg \<and> IsRequest msg \<and> owns_session s rq
    \<and> m = msgMethod msg \<and> ps = msgParams msg
    \<and> (case gate_of (access_of s rq) m of None \<Rightarrow> True | Some (key, allows) \<Rightarrow> gate_passes key allows msg)"
proof (cases "request_message rq")
  case None
  with post_undecoded [OF None, of E s] new old show ?thesis by simp
next
  case (Some msg)
  note eq = post_decoded [OF Some, of E s]
  have "\<not> is_initialize msg" using new old eq handleInitialize_traffic by auto
  with new old eq obtain sess where sess: "session_of s rq = Some sess"
    "sessSubject sess = idSubject (IdentityFromContext rq)"
    by (auto split: if_splits option.splits)
  with new old eq \<open>\<not> is_initialize msg\<close> have "\<not> IsNotification msg"
    using handleNotification_traffic [of E s rq sess msg]
    by (auto simp: owns_session_def split: if_splits)
  with new old eq \<open>\<not> is_initialize msg\<close> sess have req: "IsRequest msg"
    "handleMCPPost E s rq = handleRequest E s rq sess msg"
    by (auto split: if_splits)
  with new old handleRequest_traffic [of E s rq sess msg]
  have "m = msgMethod msg" "ps = msgParams msg"
    "case gate_of (access_of s rq) (msgMethod msg) of None \<Rightarrow> True
      | Some (key, allows) \<Rightarrow> gate_passes key allows msg" by auto
  with Some req(1) sess show ?thesis by (auto simp: owns_session_def)
qed

lemma delete_get_traffic:
  "traffic (snd (handleMCPGet s rq)) = traffic s" "traffic (snd (handleMCPDelete s rq)) = traffic s"
  by (auto simp: handleMCPGet_def handleMCPDelete_def Let_def traffic_def split: option.splits)

lemma routes_calls:
  assumes new: "EvCall r m ps \<in> set (traffic (snd (routes E meth path s rq)))"
    and old: "EvCall r m ps \<notin> set (traffic s)"
  shows "\<exists>i s' msg. authenticated (cfgValidator (svCfg s)) (cfgAudience (svCfg s)) rq = Some i
    \<and> same_core s s' \<and> request_message (admitted_request rq i) = Some msg \<and> IsRequest msg
    \<and> owns_session s' (admitted_request rq i) \<and> m = msgMethod msg \<and> ps = msgParams msg
    \<and> (case gate_of (access_of s' (admitted_request rq i)) m of None \<Rightarrow> True
        | Some (key, allows) \<Rightarrow> gate_passes key allows msg)"
proof -
  have core: "\<not> same_core s (snd (routes E meth path s rq))"
    using new old same_core_traffic by metis
  have "\<exists>h \<in> {handleMCPPost E, handleMCPGet, handleMCPDelete}.
      routes E meth path s rq = mcpChain E (svCfg s) h s rq"
    using core by (auto simp: routes_def handleHealthz_def split: if_splits)
  then obtain h where h: "h \<in> {handleMCPPost E, handleMCPGet, handleMCPDelete}"
    and eq: "routes E meth path s rq = mcpChain E (svCfg s) h s rq" by blast
  from core eq have "\<not> same_core s (snd (mcpChain E (svCfg s) h s rq))" by simp
  from mcpChain_effect [OF this] obtain i where
    i: "authenticated (cfgValidator (svCfg s)) (cfgAudience (svCfg s)) rq = Some i"
    and run: "mcpChain E (svCfg s) h s rq
      = h (fst (limited E s (admitted_request rq i))) (admitted_request rq i)" by blast
  let ?s = "fst (limited E s (admitted_request rq i))" and ?rq = "admitted_request rq i"
  have sc: "same_core s ?s" by (rule limited_core)
  with new old have n: "EvCall r m ps \<in> set (traffic (snd (h ?s ?rq)))"
    "EvCall r m ps \<notin> set (traffic ?s)"
    by (simp_all add: eq run same_core_traffic)
  with h have "h = handleMCPPost E" using delete_get_traffic by auto
  with n post_calls [of r m ps E ?s ?rq] i sc show ?thesis by blast
qed

section \<open>Whose process it is\<close>

text \<open>
  A server in isolate mode whose pool is sound, with the list of who was handed which runner;
  and a step on behalf of one identity, which only ever talks to runners that identity was handed.
\<close>

definition pool_view :: "Server \<Rightarrow> (Identity \<times> runner_id) list \<Rightarrow> bool" where
  "pool_view s h \<longleftrightarrow> svRunner s = None
    \<and> (\<exists>p. svPool s = Some p \<and> \<not> poShareSafe p \<and> pool_inv (p, svWorld s, h))"

definition acts_for :: "Identity \<Rightarrow> Server \<Rightarrow> Server \<Rightarrow> bool" where
  "acts_for i s s' \<longleftrightarrow>
    (\<forall>h. pool_view s h \<longrightarrow>
      (\<exists>h' es. pool_view s' h' \<and> set h \<subseteq> set h' \<and> traffic s' = es @ traffic s
        \<and> (\<forall>e \<in> set es. (i, ev_runner e) \<in> set h')))"

lemma acts_for_refl [simp]: "acts_for i s s"
  by (auto simp: acts_for_def intro: exI [of _ "[]"])

lemma acts_for_trans:
  assumes "acts_for i s t" "acts_for i t u"
  shows "acts_for i s u"
  unfolding acts_for_def
proof (intro allI impI)
  fix h assume "pool_view s h"
  with assms(1) obtain h1 e1 where 1: "pool_view t h1" "set h \<subseteq> set h1" "traffic t = e1 @ traffic s"
    "\<forall>e \<in> set e1. (i, ev_runner e) \<in> set h1" unfolding acts_for_def by blast
  with assms(2) obtain h2 e2 where 2: "pool_view u h2" "set h1 \<subseteq> set h2" "traffic u = e2 @ traffic t"
    "\<forall>e \<in> set e2. (i, ev_runner e) \<in> set h2" unfolding acts_for_def by blast
  from 1 2 show "\<exists>h' es. pool_view u h' \<and> set h \<subseteq> set h' \<and> traffic u = es @ traffic s
      \<and> (\<forall>e \<in> set es. (i, ev_runner e) \<in> set h')"
    by (intro exI [of _ h2] exI [of _ "e2 @ e1"]) auto
qed

text \<open>The invariant of the pool does not depend on the clock, the random source or the traffic.\<close>

lemma pool_inv_world:
  assumes "pool_inv (p, w, h)" "wNext w' = wNext w" "wTrace w' = wTrace w"
  shows "pool_inv (p, w', h)"
proof -
  have "inst_ok w' = inst_ok w" by (simp add: fun_eq_iff inst_ok_def assms(2,3))
  then have io: "insts_ok w' = insts_ok w" by (intro ext) (simp only: insts_ok_def)
  have "handed_one w' = handed_one w"
    by (simp add: fun_eq_iff handed_one_def assms(2,3))
  then have ho: "handed_ok w' = handed_ok w" by (intro ext) (simp only: handed_ok_def)
  have "world_ok w' = world_ok w" by (simp add: world_ok_def assms(2,3))
  with assms(1) io ho show ?thesis by (simp add: pool_inv_def assms(3))
qed

lemma pool_inv_emit:
  assumes inv: "pool_inv (p, w, h)" and e: "is_traffic e" "ev_runner e < wNext w"
  shows "pool_inv (p, emit e w, h)"
proof -
  have "e \<noteq> EvStart r" "e \<noteq> EvStop r" for r using e(1) by auto
  then have m: "EvStart r \<in> set (wTrace (emit e w)) \<longleftrightarrow> EvStart r \<in> set (wTrace w)"
    "EvStop r \<in> set (wTrace (emit e w)) \<longleftrightarrow> EvStop r \<in> set (wTrace w)"
    "starts r (wTrace (emit e w)) = starts r (wTrace w)" for r
    by auto
  have "insts_ok (emit e w) (poInstances p) = insts_ok w (poInstances p)"
    unfolding insts_ok_def inst_ok_def m by simp
  moreover have "handed_ok (emit e w) (PartitionKey p) (poInstances p) h
      = handed_ok w (PartitionKey p) (poInstances p) h"
    unfolding handed_ok_def handed_one_def m by simp
  moreover have "world_ok w" using inv by (simp add: pool_inv_def)
  ultimately show ?thesis
    using inv e(2) world_ok_emit [of w e] m(3) by (simp add: pool_inv_def)
qed

lemma acts_for_quiet:
  assumes "svPool t = svPool s" "svRunner t = svRunner s"
    "wNext (svWorld t) = wNext (svWorld s)" "wTrace (svWorld t) = wTrace (svWorld s)"
  shows "acts_for i s t"
  unfolding acts_for_def
proof (intro allI impI)
  fix h assume "pool_view s h"
  then have "pool_view t h" using assms pool_inv_world by (auto simp: pool_view_def)
  then show "\<exists>h' es. pool_view t h' \<and> set h \<subseteq> set h' \<and> traffic t = es @ traffic s
      \<and> (\<forall>e \<in> set es. (i, ev_runner e) \<in> set h')"
    using assms(4) by (intro exI [of _ h] exI [of _ "[]"]) (simp add: traffic_def)
qed

text \<open>Looking up the runner, and then perhaps sending it something.\<close>

lemma acts_for_lookup:
  assumes "runnerForRequest E s i = (x, t)"
    and u: "u = t \<or> (\<exists>r e. x = Inr (Some r) \<and> is_traffic e \<and> ev_runner e = r
      \<and> svPool u = svPool t \<and> svRunner u = svRunner t \<and> svWorld u = emit e (svWorld t))"
  shows "acts_for i s u"
  unfolding acts_for_def
proof (intro allI impI)
  fix h assume "pool_view s h"
  then obtain p where s: "svRunner s = None" "svPool s = Some p" "\<not> poShareSafe p"
    "pool_inv (p, svWorld s, h)" by (auto simp: pool_view_def)
  obtain y pool w where y: "RunnerFor E (svWorld s) (Some p) i = (y, pool, w)"
    by (cases "RunnerFor E (svWorld s) (Some p) i")
  obtain q where q: "pool = Some q" using RunnerFor_pool [of E "svWorld s" p i] y by auto
  define h' where "h' = (case y of Inl _ \<Rightarrow> h | Inr r \<Rightarrow> (i, r) # h)"
  have inv: "pool_inv (q, w, h')"
    using RunnerFor_inv [OF s(4), of E i] by (simp add: y q h'_def)
  have mode: "\<not> poShareSafe q"
    using pool_step_mode [of E "(p, svWorld s, h)" "ForOp i"] s(3) by (simp add: y q)
  have t: "svPool t = Some q" "svWorld t = w" "svRunner t = None"
    "x = (case y of Inl e \<Rightarrow> Inl e | Inr r \<Rightarrow> Inr (Some r))"
    using assms(1) s(1,2) y q by (auto simp: runnerForRequest_def split: sum.splits)
  have tr: "traffic t = traffic s"
    using runnerForRequest_frame [of s E i] assms(1) by simp
  have sub: "set h \<subseteq> set h'" by (auto simp: h'_def split: sum.splits)
  from u show "\<exists>h' es. pool_view u h' \<and> set h \<subseteq> set h' \<and> traffic u = es @ traffic s
      \<and> (\<forall>e \<in> set es. (i, ev_runner e) \<in> set h')"
  proof
    assume "u = t"
    then show ?thesis
      using inv mode t tr sub
      by (intro exI [of _ h'] exI [of _ "[]"]) (simp add: pool_view_def)
  next
    assume "\<exists>r e. x = Inr (Some r) \<and> is_traffic e \<and> ev_runner e = r
      \<and> svPool u = svPool t \<and> svRunner u = svRunner t \<and> svWorld u = emit e (svWorld t)"
    then obtain r e where e: "x = Inr (Some r)" "is_traffic e" "ev_runner e = r"
      "svPool u = svPool t" "svRunner u = svRunner t" "svWorld u = emit e (svWorld t)" by blast
    then have y': "y = Inr r" using t(4) by (auto split: sum.splits)
    then have ir: "(i, r) \<in> set h'" by (simp add: h'_def)
    then have "r < wNext w"
      using inv unfolding pool_inv_def handed_ok_def handed_one_def by auto
    then have "pool_inv (q, emit e w, h')" using pool_inv_emit [OF inv e(2)] e(3) by simp
    then have "pool_view u h'" using mode t e by (simp add: pool_view_def)
    moreover have "traffic u = [e] @ traffic s" using e(2,6) tr by (simp add: traffic_def)
    ultimately show ?thesis using sub ir e(3) by (intro exI [of _ h'] exI [of _ "[e]"]) simp
  qed
qed

section \<open>Handlers act for the request's identity\<close>

lemma acts_for_limited: "acts_for i s (fst (limited E s rq))"
  using limited_core [of s E rq]
  by (intro acts_for_quiet) (auto simp: same_core_def)

lemma acts_for_touched: "acts_for i s (touched E s sess)"
  by (rule acts_for_quiet) (simp_all add: touched_def)

lemma acts_for_initialize: "acts_for i s (snd (handleInitialize E s rq msg))"
  by (rule acts_for_quiet)
    (auto simp: handleInitialize_def rand_Read_def Now_def Let_def split: option.splits prod.splits)

lemma resolveRunner_eq:
  "resolveRunner E s rq msg =
    (let (x, t) = runnerForRequest E s (IdentityFromContext rq) in
     (case x of
        Inl e \<Rightarrow> Inl (reply_error msg ErrCodeInternalError (''backing mcp unavailable: '' @ e) None)
      | Inr None \<Rightarrow> Inl (reply_error msg ErrCodeMethodNotFound
           (''method not implemented: '' @ msgMethod msg) None)
      | Inr (Some r) \<Rightarrow> Inr r, t))"
  by (simp add: resolveRunner_def case_prod_beta split: sum.splits option.splits)

text \<open>All three forwarders look the runner up and then call it at most once.\<close>

lemma acts_for_forward:
  assumes u: "\<And>x t. resolveRunner E s rq msg = (x, t) \<Longrightarrow>
    v = t \<or> (\<exists>r f. x = Inr r \<and> v = snd (call_through E t r msg f))"
  shows "acts_for (IdentityFromContext rq) s v"
proof -
  obtain x t where x: "runnerForRequest E s (IdentityFromContext rq) = (x, t)"
    by (cases "runnerForRequest E s (IdentityFromContext rq)")
  obtain y where y: "resolveRunner E s rq msg = (y, t)"
    and yx: "\<And>r. y = Inr r \<Longrightarrow> x = Inr (Some r)"
    using resolveRunner_eq [of E s rq msg]
    by (cases x) (auto simp: x split: option.splits)
  have frame: "svPool (snd (call_through E t r msg f)) = svPool t
      \<and> svRunner (snd (call_through E t r msg f)) = svRunner t
      \<and> svWorld (snd (call_through E t r msg f)) = emit (EvCall r (msgMethod msg) (msgParams msg)) (svWorld t)"
    for r f
    by (simp add: call_through_def runner_Call_def split: sum.splits)
  from u [OF y] have "v = t \<or> (\<exists>r e. x = Inr (Some r) \<and> is_traffic e \<and> ev_runner e = r
      \<and> svPool v = svPool t \<and> svRunner v = svRunner t \<and> svWorld v = emit e (svWorld t))"
  proof
    assume "\<exists>r f. y = Inr r \<and> v = snd (call_through E t r msg f)"
    then obtain r f where "y = Inr r" "v = snd (call_through E t r msg f)" by blast
    with frame [of r f] yx [of r] show ?thesis
      by (intro disjI2 exI [of _ r] exI [of _ "EvCall r (msgMethod msg) (msgParams msg)"]) simp
  qed simp
  then show ?thesis by (rule acts_for_lookup [OF x])
qed

text \<open>A forwarder is a case on what the runner lookup gives.\<close>

lemma forward_cases:
  assumes "resolveRunner E s rq msg = (x, t)"
  shows "snd (case resolveRunner E s rq msg of (Inl resp, s) \<Rightarrow> (resp, s)
      | (Inr r, s) \<Rightarrow> call_through E s r msg f) = t
    \<or> (\<exists>r f'. x = Inr r \<and> snd (case resolveRunner E s rq msg of (Inl resp, s) \<Rightarrow> (resp, s)
      | (Inr r, s) \<Rightarrow> call_through E s r msg f) = snd (call_through E t r msg f'))"
  by (cases x) (auto simp: assms)

lemma acts_for_forwarders:
  "acts_for (IdentityFromContext rq) s (snd (forwardGeneric E s rq msg))"
  "acts_for (IdentityFromContext rq) s (snd (forwardAndFilterList E s rq msg key allows))"
  "acts_for (IdentityFromContext rq) s (snd (forwardWithNameGate E s rq msg key allows))"
proof -
  have core: "acts_for (IdentityFromContext rq) s (snd (case resolveRunner E s rq msg of
      (Inl resp, s) \<Rightarrow> (resp, s) | (Inr r, s) \<Rightarrow> call_through E s r msg f))" for f
    by (rule acts_for_forward) (rule forward_cases)
  show "acts_for (IdentityFromContext rq) s (snd (forwardGeneric E s rq msg))"
    unfolding forwardGeneric_def by (rule core)
  show "acts_for (IdentityFromContext rq) s (snd (forwardAndFilterList E s rq msg key allows))"
    unfolding forwardAndFilterList_def by (rule core)
  show "acts_for (IdentityFromContext rq) s (snd (forwardWithNameGate E s rq msg key allows))"
    by (rule acts_for_forward [where E = E and msg = msg])
      (auto simp: forwardWithNameGate_def Let_def split: sum.splits option.splits)
qed

lemma acts_for_request:
  "acts_for (IdentityFromContext rq) s (snd (handleRequest E s rq sess msg))"
proof -
  have "acts_for (IdentityFromContext rq) (touched E s sess) (snd (handleRequest E s rq sess msg))"
    by (auto simp: handleRequest_dispatch Let_def acts_for_forwarders split: option.splits)
  with acts_for_touched show ?thesis by (rule acts_for_trans)
qed

lemma acts_for_notification:
  "acts_for (IdentityFromContext rq) s (snd (handleNotification E s rq sess msg))"
proof (rule acts_for_trans [OF acts_for_touched [of _ s E sess]])
  let ?t = "touched E s sess"
  show "acts_for (IdentityFromContext rq) ?t (snd (handleNotification E s rq sess msg))"
  proof (cases "msgMethod msg = ''notifications/initialized''")
    case True
    then show ?thesis
      by (intro acts_for_quiet) (simp_all add: handleNotification_dispatch Let_def)
  next
    case False
    obtain x u where x: "runnerForRequest E ?t (IdentityFromContext rq) = (x, u)"
      by (cases "runnerForRequest E ?t (IdentityFromContext rq)")
    show ?thesis
    proof (cases "\<exists>r. x = Inr (Some r)")
      case True
      then obtain r where r: "x = Inr (Some r)" by blast
      show ?thesis
        by (rule acts_for_lookup [OF x])
          (intro disjI2 exI [of _ r] exI [of _ "EvNotify r (msgMethod msg) (msgParams msg)"],
            use False x r in \<open>simp add: handleNotification_dispatch Let_def\<close>)
    next
      case other: False
      show ?thesis
        by (rule acts_for_lookup [OF x])
          (use False other x in \<open>auto simp: handleNotification_dispatch Let_def
            split: sum.splits option.splits\<close>)
    qed
  qed
qed

lemma acts_for_post: "acts_for (IdentityFromContext rq) s (snd (handleMCPPost E s rq))"
proof (cases "request_message rq")
  case None
  then show ?thesis using post_undecoded [OF None, of E s] by simp
next
  case (Some msg)
  then show ?thesis
    by (auto simp: post_decoded acts_for_initialize acts_for_notification acts_for_request
        split: option.splits)
qed

lemma acts_for_get_delete:
  "acts_for i s (snd (handleMCPGet s rq))" "acts_for i s (snd (handleMCPDelete s rq))"
proof -
  show "acts_for i s (snd (handleMCPGet s rq))"
    by (auto simp: handleMCPGet_def Let_def split: option.splits)
  show "acts_for i s (snd (handleMCPDelete s rq))"
    by (rule acts_for_quiet) (auto simp: handleMCPDelete_def Let_def split: option.splits)
qed

text \<open>The identity a request is served for, if any.\<close>

definition served_for :: "Server \<Rightarrow> Request \<Rightarrow> Identity option" where
  "served_for s rq = authenticated (cfgValidator (svCfg s)) (cfgAudience (svCfg s)) rq"

lemma acts_for_chain:
  assumes "\<And>s' rq'. acts_for (IdentityFromContext rq') s' (snd (h s' rq'))"
  shows "snd (mcpChain E (svCfg s) h s rq) = s
    \<or> (\<exists>i. served_for s rq = Some i \<and> acts_for i s (snd (mcpChain E (svCfg s) h s rq)))"
proof (cases "served_for s rq")
  case None
  then show ?thesis by (simp add: mcpChain_eq served_for_def)
next
  case (Some i)
  let ?rq = "admitted_request rq i" and ?s = "fst (limited E s (admitted_request rq i))"
  have id: "IdentityFromContext ?rq = i" by (simp add: IdentityFromContext_def admitted_request_def)
  have "acts_for i ?s (snd (h ?s ?rq))" using assms [of ?rq ?s] by (simp add: id)
  then have "acts_for i s (snd (h ?s ?rq))" by (rule acts_for_trans [OF acts_for_limited])
  with Some acts_for_limited [of i s E ?rq] show ?thesis
    by (simp add: mcpChain_eq served_for_def Let_def case_prod_beta)
qed

lemma acts_for_routes:
  "snd (routes E m path s rq) = s
    \<or> (\<exists>i. served_for s rq = Some i \<and> acts_for i s (snd (routes E m path s rq)))"
  using acts_for_chain [of "handleMCPPost E" E s rq] acts_for_chain [of handleMCPGet E s rq]
    acts_for_chain [of handleMCPDelete E s rq]
  by (simp add: routes_def handleHealthz_def acts_for_post acts_for_get_delete)

lemma pool_view_tick:
  assumes "pool_view s h"
  shows "pool_view (runSessionGC E s now) h \<and> traffic (runSessionGC E s now) = traffic s"
proof (cases "0 < fst (idleAndSweep s) \<and> 0 < poolIdleTimeout s")
  case True
  from assms obtain p where s: "svRunner s = None" "svPool s = Some p" "\<not> poShareSafe p"
    "pool_inv (p, svWorld s, h)" by (auto simp: pool_view_def)
  let ?t = "now - poolIdleTimeout s"
  obtain n pool w where e: "EvictIdle E (svWorld s) (Some p) ?t = (n, pool, w)"
    by (cases "EvictIdle E (svWorld s) (Some p) ?t")
  have q: "pool = Some (the pool)" using e by (auto simp: EvictIdle_Some Let_def split: if_splits)
  have "pool_inv (the pool, w, h)"
    using pool_step_inv [OF s(4), of E "EvictOp ?t"] by (simp add: e)
  moreover have "\<not> poShareSafe (the pool)"
    using pool_step_mode [of E "(p, svWorld s, h)" "EvictOp ?t"] s(3) by (simp add: e)
  moreover have "filter is_traffic (wTrace w) = filter is_traffic (wTrace (svWorld s))"
    using e by (auto simp: EvictIdle_Some Let_def stop_started_world filter_empty_conv
        split: if_splits)
  moreover have "svPool (gc_tick E s now) = pool \<and> svWorld (gc_tick E s now) = w"
    using gc_tick_pool [of E s now] True e s(2) by simp
  ultimately show ?thesis
    using True s(1) q by (auto simp: pool_view_def runSessionGC_def gc_tick_sel traffic_def)
next
  case False
  have "0 \<le> poolIdleTimeout s"
    by (simp add: poolIdleTimeout_def Let_def DefaultPoolIdleTimeout_def Minute_def Second_def)
  with False gc_tick_pool [of E s now] assms show ?thesis
    by (auto simp: pool_view_def runSessionGC_def gc_tick_sel traffic_def)
qed

text \<open>
  Serving with a log of who talked to which runner: the traffic an input adds, attributed to the
  identity it is served for.
\<close>

fun caller :: "Server \<Rightarrow> input \<Rightarrow> Identity option" where
  "caller s (HttpRequest _ _ rq) = served_for s rq"
| "caller s (Tick _) = None"

definition serve_logged ::
    "Env \<Rightarrow> Server \<times> (Identity option \<times> runner_id) list \<Rightarrow> input
      \<Rightarrow> Server \<times> (Identity option \<times> runner_id) list" where
  "serve_logged E sl x =
    (let (s, lg) = sl; s' = serve E s x;
         new = take (length (traffic s') - length (traffic s)) (traffic s') in
     (s', map (\<lambda>e. (caller s x, ev_runner e)) new @ lg))"

definition log_inv :: "Server \<times> (Identity option \<times> runner_id) list \<Rightarrow> bool" where
  "log_inv sl \<longleftrightarrow>
    map snd (snd sl) = map ev_runner (traffic (fst sl))
    \<and> (\<exists>h. pool_view (fst sl) h \<and> (\<forall>(c, r) \<in> set (snd sl). \<exists>i. c = Some i \<and> (i, r) \<in> set h))"

lemma serve_logged_inv:
  assumes "log_inv sl"
  shows "log_inv (serve_logged E sl x)"
proof -
  obtain s lg where sl: "sl = (s, lg)" by (cases sl)
  from assms obtain h where h: "pool_view s h"
    and lg: "\<forall>(c, r) \<in> set lg. \<exists>i. c = Some i \<and> (i, r) \<in> set h"
    and tr: "map snd lg = map ev_runner (traffic s)"
    unfolding log_inv_def sl by auto
  have "serve E s x = s \<or> (\<exists>h' es i. caller s x = Some i \<and> pool_view (serve E s x) h' \<and> set h \<subseteq> set h'
      \<and> traffic (serve E s x) = es @ traffic s \<and> (\<forall>e \<in> set es. (i, ev_runner e) \<in> set h'))
    \<or> (pool_view (serve E s x) h \<and> traffic (serve E s x) = traffic s)"
  proof (cases x)
    case (HttpRequest m path rq)
    then show ?thesis using acts_for_routes [of E m path s rq] h unfolding acts_for_def by auto
  next
    case (Tick now)
    then show ?thesis using pool_view_tick [OF h] by simp
  qed
  then show ?thesis
  proof (elim disjE exE conjE)
    fix h' es i
    assume a: "caller s x = Some i" "pool_view (serve E s x) h'" "set h \<subseteq> set h'"
      "traffic (serve E s x) = es @ traffic s" "\<forall>e \<in> set es. (i, ev_runner e) \<in> set h'"
    have "\<forall>(c, r) \<in> set (snd (serve_logged E sl x)). \<exists>i. c = Some i \<and> (i, r) \<in> set h'"
      using a lg by (fastforce simp: serve_logged_def sl Let_def)
    moreover have "map snd (snd (serve_logged E sl x)) = map ev_runner (traffic (serve E s x))"
      using a(4) tr by (simp add: serve_logged_def sl Let_def comp_def)
    ultimately show ?thesis using a(2) by (auto simp: log_inv_def serve_logged_def sl Let_def)
  qed (use h lg tr in \<open>auto simp: log_inv_def serve_logged_def sl Let_def\<close>)
qed

lemma isolate_start:
  assumes "run_start E (New cfg w) = (None, s)" "cfgRunner cfg = None" "cfgBackend cfg = Some b"
    "\<not> cfgBackendShareSafe cfg" "wTrace w = []"
  shows "log_inv (s, [])"
proof -
  have cfg: "cfgRunner (svCfg (New cfg w)) = None" "cfgBackend (svCfg (New cfg w)) = Some b"
    "cfgBackendShareSafe (svCfg (New cfg w)) = False" "svWorld (New cfg w) = w"
    "svRunner (New cfg w) = None"
    using assms(2-4) by (simp_all add: New_def Let_def)
  obtain e p w' where p: "pool_Start E w (NewRunnerPool b False) = (e, p, w')"
    by (cases "pool_Start E w (NewRunnerPool b False)")
  with assms(1) cfg have "e = None" "s = (New cfg w)\<lparr>svPool := Some p, svWorld := w',
      svBackendCaps := Caps (Some p)\<rparr>"
    by (auto simp: run_start_def split: option.splits)
  moreover have "warmed E b False w p w'" using p \<open>e = None\<close> assms(5) by (simp add: warmed_def)
  ultimately show ?thesis
    using warmed_inv [of E b False w p w'] cfg
    by (auto simp: log_inv_def pool_view_def traffic_def elim!: warmed_cases)
qed

lemma log_inv_run: "log_inv sl \<Longrightarrow> log_inv (foldl (serve_logged E) sl xs)"
  by (rule foldl_invariant [where P = log_inv], assumption, rule serve_logged_inv)

lemma logged_isolated:
  assumes "log_inv (s, lg)" "(c, r) \<in> set lg" "(d, r) \<in> set lg"
  shows "\<exists>i j. c = Some i \<and> d = Some j \<and> idSubject i = idSubject j"
proof -
  from assms(1) obtain h p where p: "\<not> poShareSafe p" "pool_inv (p, svWorld s, h)"
    and lg: "\<forall>(c, r) \<in> set lg. \<exists>i. c = Some i \<and> (i, r) \<in> set h"
    unfolding log_inv_def pool_view_def by auto
  from lg assms(2,3) obtain i j where ij: "c = Some i" "d = Some j" "(i, r) \<in> set h" "(j, r) \<in> set h"
    by blast
  have "handed_ok (svWorld s) (PartitionKey (NewRunnerPool (poBackend p) False)) (poInstances p) h"
    using p PartitionKey_mode [of p False "poBackend p"] by (simp add: pool_inv_def)
  from isolate.handed_same [OF this ij(3,4)] ij(1,2) show ?thesis by blast
qed

text \<open>Logging does not change what is served.\<close>

lemma serve_logged_fst: "fst (foldl (serve_logged E) (s, lg) xs) = foldl (serve E) s xs"
proof (induction xs arbitrary: s lg)
  case (Cons x xs)
  obtain lg' where "serve_logged E (s, lg) x = (serve E s x, lg')"
    by (simp add: serve_logged_def Let_def)
  with Cons.IH show ?case by simp
qed simp

lemma run_stop_view:
  assumes "pool_view s h" "(i, r) \<in> set h"
  shows "EvStop r \<in> set (wTrace (svWorld (run_stop E s)))"
proof -
  from assms(1) obtain p where s: "svRunner s = None" "svPool s = Some p" "pool_inv (p, svWorld s, h)"
    by (auto simp: pool_view_def)
  obtain e pool w where c: "pool_Close E (svWorld s) (Some p) = (e, pool, w)"
    by (cases "pool_Close E (svWorld s) (Some p)")
  from pool_step_inv [OF s(3), of E CloseOp] c have inv: "pool_inv (the pool, w, h)" by simp
  from c have "\<exists>q. pool = Some q \<and> poClosed q" by (auto simp: pool_Close_Some split: if_splits)
  with inv have "poInstances (the pool) = []" by (auto simp: pool_inv_def)
  with inv assms(2) have "EvStop r \<in> set (wTrace w)"
    by (auto simp: pool_inv_def handed_ok_def handed_one_def)
  with s c show ?thesis by (simp add: run_stop_def)
qed

end
