(* ===== verification/ServerMain.thy ===== *)
theory ServerMain
  imports FileConfig EndToEnd
begin

text \<open>
  \<^verbatim>\<open>cmd/server/main.go\<close>: from the command line and the configuration file to the
  configuration the server runs with. The file system is an argument, and so is the version that
  \<^verbatim>\<open>internal/core/version.go\<close> holds, since releases override it when linking. What is
  logged is not kept. \<^verbatim>\<open>cmd/client/main.go\<close> is a placeholder.
\<close>

section \<open>The command\<close>

definition core_Version :: bytes where
  "core_Version = ''0.0.0-dev''"

record Flags =
  flShowVersion :: bool
  flConfigPath :: bytes
  flListen :: bytes
  flHashToken :: bytes

datatype main_result = Prints bytes | Fails bytes | Serves Config

text \<open>\<^verbatim>\<open>time.Duration(n) * time.Second\<close>: a product of 64-bit integers.\<close>

definition seconds :: "int \<Rightarrow> duration" where
  "seconds n = sint (word_of_int (n * Second) :: 64 word)"

definition env_slice :: "bytes gomap \<Rightarrow> bytes list" where
  "env_slice env =
    (if 0 < length env
     then map (\<lambda>k. k @ ''='' @ (case map_of env k of None \<Rightarrow> [] | Some v \<Rightarrow> v)) (sort (map fst env))
     else [])"

definition coalesce :: "SandboxPolicy option \<Rightarrow> bytes \<Rightarrow> bytes" where
  "coalesce p fallback =
    (case p of None \<Rightarrow> fallback | Some p \<Rightarrow> if spNetwork p = [] then fallback else spNetwork p)"

definition backend_of :: "bytes \<Rightarrow> BackendConfig \<Rightarrow> Backend" where
  "backend_of version bc =
    \<lparr>beCommand = bcCommand bc, beArgs = bcArgs bc, beEnv = Some (env_slice (bcEnv bc)),
     beSandbox = bcSandbox bc,
     beClientInfo = \<lparr>implName = ''d8a-server'', implTitle = ''d8a Server'', implVersion = version,
       implDescription = [], implWebsiteURL = []\<rparr>\<rparr>"

definition rate_limit_of :: "FileRateLimit \<Rightarrow> RateLimit" where
  "rate_limit_of fr =
    \<lparr>rlRequestsPerSecond = frRequestsPerSecond fr, rlBurst = frBurst fr,
     rlEvictAfter = seconds (frEvictAfterSeconds fr)\<rparr>"

definition runtime_config :: "bytes \<Rightarrow> FileConfig \<Rightarrow> APIKeyValidator \<Rightarrow> Config" where
  "runtime_config version fc validator =
    \<lparr>cfgListenAddr = fcListen fc, cfgAudience = fcAudience fc,
     cfgAllowedOrigins = fcAllowedOrigins fc, cfgValidator = Some (Validate validator),
     cfgServerVersion = version, cfgSessions = None, cfgRunner = None,
     cfgBackend = map_option (backend_of version) (fcBackend fc),
     cfgBackendShareSafe = (case fcBackend fc of None \<Rightarrow> False | Some bc \<Rightarrow> \<not> bcIsolate bc),
     cfgCatalog = NewCatalog (fcCapabilities fc),
     cfgIdleTimeout = seconds (fcIdleTimeoutSeconds fc),
     cfgSweepInterval = seconds (fcSweepIntervalSeconds fc),
     cfgRateLimit = (case fcRateLimit fc of
         None \<Rightarrow> \<lparr>rlRequestsPerSecond = 0, rlBurst = 0, rlEvictAfter = 0\<rparr>
       | Some fr \<Rightarrow> rate_limit_of fr),
     cfgPoolIdleTimeout = seconds (fcPoolIdleTimeoutSeconds fc)\<rparr>"

definition listen_addr :: "Flags \<Rightarrow> FileConfig \<Rightarrow> FileConfig" where
  "listen_addr fl fc =
    (let fc = (if flListen fl \<noteq> [] then fc\<lparr>fcListen := flListen fl\<rparr> else fc) in
     if fcListen fc = [] then fc\<lparr>fcListen := DefaultListenAddr\<rparr> else fc)"

definition main :: "bytes \<Rightarrow> (bytes \<Rightarrow> bytes option) \<Rightarrow> Flags \<Rightarrow> main_result" where
  "main version file fl =
    (if flShowVersion fl then Prints version
     else if flHashToken fl \<noteq> [] then Prints (HashToken (flHashToken fl))
     else
       case (if flConfigPath fl \<noteq> [] then LoadFileConfig (file (flConfigPath fl))
             else Inr zero_file_config) of
         Inl _ \<Rightarrow> Fails ''config load failed''
       | Inr fc \<Rightarrow>
         let fc = listen_addr fl fc in
         (case NewAPIKeyValidator (fcAPIKeys fc) of
            Inl _ \<Rightarrow> Fails ''invalid api keys''
          | Inr v \<Rightarrow> Serves (runtime_config version fc v)))"


text \<open>\<^verbatim>\<open>cmd/client/main.go\<close>: so far it prints its version when asked, and else only logs.\<close>

definition client_main :: "bytes \<Rightarrow> bool \<Rightarrow> main_result option" where
  "client_main version showVersion = (if showVersion then Some (Prints version) else None)"

section \<open>From the file to the backing process\<close>

lemma env_pairs_entry:
  "k \<noteq> [] \<Longrightarrow> CHR ''='' \<notin> set k \<Longrightarrow> env_pairs [k @ ''='' @ v] = [(k, v)]"
  by (cases k) (auto simp: env_pairs_def takeWhile_append dropWhile_append)

lemma env_pairs_Cons: "env_pairs (kv # kvs) = env_pairs [kv] @ env_pairs kvs"
  by (simp add: env_pairs_def)

text \<open>The environment of the file arrives as it was written, for names without an equals sign.\<close>

lemma env_slice_pairs:
  assumes "wf_map env" "\<And>k. k \<in> fst ` set env \<Longrightarrow> k \<noteq> [] \<and> CHR ''='' \<notin> set k"
  shows "(k, v) \<in> set (env_pairs (env_slice env)) \<longleftrightarrow> map_of env k = Some v"
proof -
  have each: "set (env_pairs (map (\<lambda>k. k @ ''='' @ g k) ks)) = (\<lambda>k. (k, g k)) ` set ks"
    if "\<And>k. k \<in> set ks \<Longrightarrow> k \<noteq> [] \<and> CHR ''='' \<notin> set k" for ks g
    using that
  proof (induction ks)
    case (Cons a ks)
    let ?e = "\<lambda>k. k @ ''='' @ g k"
    have "env_pairs (map ?e (a # ks)) = env_pairs [?e a] @ env_pairs (map ?e ks)"
      unfolding list.map by (rule env_pairs_Cons)
    moreover have "env_pairs [?e a] = [(a, g a)]" using Cons.prems [of a] by (intro env_pairs_entry) simp_all
    ultimately show ?case using Cons by simp
  qed (simp add: env_pairs_def)
  let ?g = "\<lambda>k. case map_of env k of None \<Rightarrow> [] | Some v \<Rightarrow> v"
  have "set (env_pairs (env_slice env)) = (\<lambda>k. (k, ?g k)) ` fst ` set env"
  proof (cases "env = []")
    case True
    then show ?thesis by (simp add: env_slice_def env_pairs_def)
  next
    case False
    then have "env_slice env = map (\<lambda>k. k @ ''='' @ ?g k) (sort (map fst env))"
      by (simp add: env_slice_def)
    with each [of "sort (map fst env)" ?g] assms(2) show ?thesis by simp
  qed
  then have "(k, v) \<in> set (env_pairs (env_slice env)) \<longleftrightarrow> k \<in> fst ` set env \<and> v = ?g k"
    by blast
  also have "k \<in> fst ` set env \<longleftrightarrow> map_of env k \<noteq> None"
    by (simp add: map_of_eq_None_iff)
  finally show ?thesis by (auto split: option.splits)
qed


section \<open>A server without an audience\<close>

text \<open>C38. A server without an audience is closed, not open: whenever the command starts a server whose
  audience is empty, which includes a start without a configuration file, no request ever has an
  effect, whatever keys are configured and whatever token it carries.\<close>

theorem empty_audience_closes_server:
  assumes "main version file fl = Serves cfg" "cfgAudience cfg = [] \<or> flConfigPath fl = []"
    "svCfg s = svCfg (New cfg w)"
  shows "same_core s (snd (routes E m path s rq))"
proof -
  from assms(1) obtain fc v where cfg: "cfg = runtime_config version (listen_addr fl fc) v"
    and fc: "flConfigPath fl = [] \<longrightarrow> fc = zero_file_config"
    by (auto simp: main_def Let_def split: if_splits sum.splits)
  have "fcAudience (listen_addr fl fc) = fcAudience fc" by (simp add: listen_addr_def Let_def)
  then have aud: "cfgAudience cfg = []"
    using assms(2) fc by (auto simp: cfg runtime_config_def zero_file_config_def)
  have "cfgValidator (svCfg s) = Some (Validate v)" "cfgAudience (svCfg s) = []"
    using aud by (simp_all add: assms(3) New_def Let_def cfg runtime_config_def)
  then have none: "authenticated (cfgValidator (svCfg s)) (cfgAudience (svCfg s)) rq = None"
    by (auto simp: authenticated_def Validate_def bind_eq_None_conv)
  have "same_core s (snd (mcpChain E (svCfg s) h s rq))" for h
    using mcpChain_effect [of s E "svCfg s" h rq] none by auto
  then show ?thesis by (simp add: routes_def handleHealthz_def)
qed

section \<open>Durations\<close>

lemma seconds_exact: "\<bar>n\<bar> \<le> 9223372036 \<Longrightarrow> seconds n = n * Second"
  unfolding seconds_def by (rule sint_word_of_int_64) (simp_all add: Second_def abs_le_iff)

text \<open>C40. A number of seconds of the file is the duration it says up to 9223372036; one more wraps
  around to a negative duration, and an idle timeout of that size disables the sweep: no session
  ever expires.\<close>

theorem timeout_seconds_range:
  "(\<bar>n\<bar> \<le> 9223372036 \<longrightarrow> seconds n = n * 1000000000)
    \<and> (fcIdleTimeoutSeconds fc = 9223372037 \<and> svCfg s = svCfg (New (runtime_config version fc v) w)
         \<longrightarrow> runSessionGC E s now = s)"
proof (intro conjI impI)
  show "\<bar>n\<bar> \<le> 9223372036 \<Longrightarrow> seconds n = n * 1000000000"
    using seconds_exact [of n] by (simp add: Second_def)
  assume a: "fcIdleTimeoutSeconds fc = 9223372037
    \<and> svCfg s = svCfg (New (runtime_config version fc v) w)"
  have "seconds 9223372037 < 0" by (simp add: seconds_def Second_def sint_sbintrunc')
  with a have "cfgIdleTimeout (svCfg s) < 0" by (simp add: New_def Let_def runtime_config_def)
  then show "runSessionGC E s now = s" by (simp add: runSessionGC_def idleAndSweep_def Let_def)
qed

end
