(* ===== verification/PoolThreads.thy ===== *)
theory PoolThreads
  imports RunnerPool
begin

text \<open>
  \<^verbatim>\<open>runner_pool.go\<close> as its goroutines run it. Where \<open>RunnerPool\<close> takes a method as one step, here a
  method is the sequence of its parts between which another goroutine can run: the section under
  the pool's lock, the entry to \<^verbatim>\<open>startOnce.Do\<close>, the end of the start inside it, and each
  \<^verbatim>\<open>Stop\<close> outside the lock. An instance is a cell of a store, since goroutines keep pointers
  to instances the pool has already dropped. Reads and writes of \<^verbatim>\<open>started\<close> that the code
  does not synchronise are taken as sequentially consistent.
\<close>

section \<open>State\<close>

datatype once = Unfired | Busy | Fired

record Instance =
  inRunner :: runner_id
  inOnce :: once
  inStartErr :: "bytes option"
  inStarted :: bool
  inLastUsed :: time

type_synonym inst_ref = nat

text \<open>Where a goroutine stands in \<^verbatim>\<open>RunnerFor\<close>, \<^verbatim>\<open>EvictIdle\<close> or \<^verbatim>\<open>Close\<close>.\<close>

datatype pool_pc =
    ForBegin Identity
  | ForOnce Identity inst_ref
  | ForStarting Identity inst_ref "bytes + ServerCapabilities"
  | ForCheck Identity inst_ref
  | ForReturn Identity "bytes + runner_id"
  | EvictBegin time
  | EvictStops "inst_ref list" nat
  | EvictReturn nat
  | CloseBegin
  | CloseStops "(bytes \<times> inst_ref) list" "bytes option"
  | CloseReturn "bytes option"

record Pool =
  plBackend :: Backend
  plShareSafe :: bool
  plInstances :: "inst_ref gomap"
  plClosed :: bool
  plHeap :: "Instance list"
  plWorld :: World
  plThreads :: "nat \<Rightarrow> pool_pc option"

text \<open>The pool a sequential state stands for, before any goroutine runs.\<close>

definition instance_of :: "pooledInstance \<Rightarrow> Instance" where
  "instance_of i =
    \<lparr>inRunner = piRunner i, inOnce = (if piFired i then Fired else Unfired), inStartErr = piStartErr i,
     inStarted = piStarted i, inLastUsed = piLastUsed i\<rparr>"

definition threaded :: "RunnerPool \<Rightarrow> World \<Rightarrow> Pool" where
  "threaded p w =
    \<lparr>plBackend = poBackend p, plShareSafe = poShareSafe p,
     plInstances = zip (map fst (poInstances p)) [0..<length (poInstances p)],
     plClosed = poClosed p, plHeap = map (instance_of \<circ> snd) (poInstances p), plWorld = w,
     plThreads = (\<lambda>_. None)\<rparr>"

definition pool_key :: "Pool \<Rightarrow> Identity \<Rightarrow> bytes" where
  "pool_key P = PartitionKey (NewRunnerPool (plBackend P) (plShareSafe P))"

definition set_inst :: "inst_ref \<Rightarrow> (Instance \<Rightarrow> Instance) \<Rightarrow> Pool \<Rightarrow> Pool" where
  "set_inst c f P = P\<lparr>plHeap := (plHeap P)[c := f (plHeap P ! c)]\<rparr>"

section \<open>RunnerFor\<close>

definition built :: "runner_id \<Rightarrow> Instance" where
  "built r = \<lparr>inRunner = r, inOnce = Unfired, inStartErr = None, inStarted = False, inLastUsed = zero_time\<rparr>"

text \<open>Under the lock: the instance of the key, built when there is none, and the time of its use.\<close>

definition for_locked :: "Env \<Rightarrow> Pool \<Rightarrow> Identity \<Rightarrow> pool_pc \<times> Pool" where
  "for_locked E P i =
    (if plClosed P then (ForReturn i (Inl ''runner pool closed''), P)
     else
       let key = pool_key P i;
           use = (\<lambda>c P. let (now, w) = Now E (plWorld P) in
             (ForOnce i c, set_inst c (\<lambda>I. I\<lparr>inLastUsed := now\<rparr>) (P\<lparr>plWorld := w\<rparr>))) in
       (case map_of (plInstances P) key of
          Some c \<Rightarrow> use c P
        | None \<Rightarrow>
          (case Build E (plWorld P) (plBackend P) of
             (Inl e, w) \<Rightarrow> (ForReturn i (Inl (''backend build: '' @ e)), P\<lparr>plWorld := w\<rparr>)
           | (Inr r, w) \<Rightarrow>
               let c = length (plHeap P) in
               use c (P\<lparr>plWorld := w, plHeap := plHeap P @ [built r],
                 plInstances := map_set key c (plInstances P)\<rparr>))))"

text \<open>
  \<^verbatim>\<open>startOnce.Do\<close>: the first goroutine starts the runner, the others wait until that
  start has ended. While it is under way the goroutine holds the answer it will have.
\<close>

fun for_thread :: "Env \<Rightarrow> Pool \<Rightarrow> pool_pc \<Rightarrow> (pool_pc \<times> Pool) option" where
  "for_thread E P (ForBegin i) = Some (for_locked E P i)"
| "for_thread E P (ForOnce i c) =
    (case inOnce (plHeap P ! c) of
       Fired \<Rightarrow> Some (ForCheck i c, P)
     | Busy \<Rightarrow> None
     | Unfired \<Rightarrow>
         let (ans, w) = runner_Start E (plWorld P) (inRunner (plHeap P ! c)) in
         Some (ForStarting i c ans, set_inst c (\<lambda>I. I\<lparr>inOnce := Busy\<rparr>) (P\<lparr>plWorld := w\<rparr>)))"
| "for_thread E P (ForStarting i c ans) =
    (case ans of
       Inl e \<Rightarrow> Some (ForCheck i c, set_inst c (\<lambda>I. I\<lparr>inOnce := Fired, inStartErr := Some e\<rparr>) P)
     | Inr _ \<Rightarrow> Some (ForCheck i c, set_inst c (\<lambda>I. I\<lparr>inOnce := Fired, inStarted := True\<rparr>) P))"
| "for_thread E P (ForCheck i c) =
    Some (ForReturn i (case inStartErr (plHeap P ! c) of
      Some e \<Rightarrow> Inl e | None \<Rightarrow> Inr (inRunner (plHeap P ! c))), P)"
| "for_thread E P _ = None"

section \<open>EvictIdle and Close\<close>

definition stop_one :: "Env \<Rightarrow> Pool \<Rightarrow> inst_ref \<Rightarrow> bytes option \<times> Pool" where
  "stop_one E P c =
    (let (err, w) = runner_Stop E (plWorld P) (inRunner (plHeap P ! c)) in (err, P\<lparr>plWorld := w\<rparr>))"

fun evict_thread :: "Env \<Rightarrow> Pool \<Rightarrow> pool_pc \<Rightarrow> (pool_pc \<times> Pool) option" where
  "evict_thread E P (EvictBegin cutoff) =
    (if plClosed P then Some (EvictReturn 0, P)
     else
       let cold = (\<lambda>(key, c). key \<noteq> sharedKey \<and> inLastUsed (plHeap P ! c) < cutoff);
           victims = filter cold (plInstances P) in
       Some (EvictStops (map snd victims) (length victims),
         P\<lparr>plInstances := filter (\<lambda>e. \<not> cold e) (plInstances P)\<rparr>))"
| "evict_thread E P (EvictStops [] n) = Some (EvictReturn n, P)"
| "evict_thread E P (EvictStops (c # cs) n) =
    Some (EvictStops cs n, if inStarted (plHeap P ! c) then snd (stop_one E P c) else P)"
| "evict_thread E P _ = None"

fun close_thread :: "Env \<Rightarrow> Pool \<Rightarrow> pool_pc \<Rightarrow> (pool_pc \<times> Pool) option" where
  "close_thread E P CloseBegin =
    (if plClosed P then Some (CloseReturn None, P)
     else Some (CloseStops (plInstances P) None, P\<lparr>plClosed := True, plInstances := []\<rparr>))"
| "close_thread E P (CloseStops [] firstErr) = Some (CloseReturn firstErr, P)"
| "close_thread E P (CloseStops ((key, c) # cs) firstErr) =
    (if \<not> inStarted (plHeap P ! c) then Some (CloseStops cs firstErr, P)
     else let (err, P) = stop_one E P c in
       Some (CloseStops cs
         (case (err, firstErr) of
            (Some e, None) \<Rightarrow> Some (''stop '' @ key @ '': '' @ e)
          | _ \<Rightarrow> firstErr), P))"
| "close_thread E P _ = None"

section \<open>The machine\<close>

datatype pool_action = Spawn nat pool_op | Advance nat

fun pool_entry :: "pool_op \<Rightarrow> pool_pc" where
  "pool_entry (ForOp i) = ForBegin i"
| "pool_entry (EvictOp t) = EvictBegin t"
| "pool_entry CloseOp = CloseBegin"

definition thread_step :: "Env \<Rightarrow> Pool \<Rightarrow> pool_pc \<Rightarrow> (pool_pc \<times> Pool) option" where
  "thread_step E P q =
    (case for_thread E P q of Some x \<Rightarrow> Some x | None \<Rightarrow>
    (case evict_thread E P q of Some x \<Rightarrow> Some x | None \<Rightarrow> close_thread E P q))"

fun act :: "Env \<Rightarrow> pool_action \<Rightarrow> Pool \<Rightarrow> Pool option" where
  "act E (Spawn t x) P =
    (if plThreads P t = None then Some (P\<lparr>plThreads := (plThreads P)(t \<mapsto> pool_entry x)\<rparr>) else None)"
| "act E (Advance t) P =
    (case plThreads P t of
       None \<Rightarrow> None
     | Some q \<Rightarrow>
       (case thread_step E P q of
          None \<Rightarrow> None
        | Some (q', P') \<Rightarrow> Some (P'\<lparr>plThreads := (plThreads P')(t \<mapsto> q')\<rparr>)))"

fun pool_exec :: "Env \<Rightarrow> pool_action list \<Rightarrow> Pool \<Rightarrow> Pool option" where
  "pool_exec E [] P = Some P"
| "pool_exec E (a # xs) P = (case act E a P of None \<Rightarrow> None | Some P' \<Rightarrow> pool_exec E xs P')"

lemma pool_exec_append:
  "pool_exec E (xs @ ys) P = (case pool_exec E xs P of None \<Rightarrow> None | Some P' \<Rightarrow> pool_exec E ys P')"
  by (induction xs arbitrary: P) (simp_all split: option.split)

lemma pool_exec_invariant:
  assumes "J P" "pool_exec E xs P = Some P'"
    and "\<And>a Q Q'. J Q \<Longrightarrow> act E a Q = Some Q' \<Longrightarrow> J Q'"
  shows "J P'"
  using assms(1,2)
proof (induction xs arbitrary: P)
  case (Cons a xs)
  then obtain Q where "act E a P = Some Q" "pool_exec E xs Q = Some P'"
    by (auto split: option.splits)
  with Cons assms(3) show ?case by blast
qed simp

end
