(* ===== verification/PoolRaces.thy ===== *)
theory PoolRaces
  imports PoolThreads
begin

text \<open>
  What the interleaving of the pool's goroutines cannot break, and what it can: an instance is
  started once and stopped at most once, a runner is handed to the callers of its partition only,
  and no goroutine waits for ever; but a start that is under way when its instance is dropped from
  the pool is never undone.
\<close>

section \<open>The steps of a goroutine\<close>

fun refers :: "pool_pc \<Rightarrow> (Identity \<times> inst_ref) option" where
  "refers (ForOnce i c) = Some (i, c)"
| "refers (ForStarting i c _) = Some (i, c)"
| "refers (ForCheck i c) = Some (i, c)"
| "refers _ = None"

text \<open>The instances a goroutine has taken out of the pool and still has to stop.\<close>

fun pending :: "pool_pc \<Rightarrow> inst_ref list" where
  "pending (EvictStops cs _) = cs"
| "pending (CloseStops cs _) = map snd cs"
| "pending _ = []"

fun handed :: "pool_pc \<Rightarrow> (Identity \<times> runner_id) option" where
  "handed (ForReturn i (Inr r)) = Some (i, r)"
| "handed _ = None"

fun is_starting :: "pool_pc \<Rightarrow> bool" where
  "is_starting (ForStarting _ _ _) = True"
| "is_starting _ = False"

lemma set_inst_sel [simp]:
  "plBackend (set_inst c f P) = plBackend P" "plShareSafe (set_inst c f P) = plShareSafe P"
  "plInstances (set_inst c f P) = plInstances P" "plClosed (set_inst c f P) = plClosed P"
  "plWorld (set_inst c f P) = plWorld P" "plThreads (set_inst c f P) = plThreads P"
  "plHeap (set_inst c f P) = (plHeap P)[c := f (plHeap P ! c)]"
  by (simp_all add: set_inst_def)

lemma pool_key_cong:
  "plBackend Q = plBackend P \<Longrightarrow> plShareSafe Q = plShareSafe P \<Longrightarrow> pool_key Q = pool_key P"
  by (simp add: pool_key_def)

text \<open>The record of a pool without its backing, mode and threads, which no step of a method changes.\<close>

definition view :: "Pool \<Rightarrow> Instance list \<times> inst_ref gomap \<times> World" where
  "view P = (plHeap P, plInstances P, plWorld P)"

text \<open>What a start leaves of an instance.\<close>

definition settled :: "Instance \<Rightarrow> Instance set" where
  "settled I = insert (I\<lparr>inOnce := Fired, inStarted := True\<rparr>)
    (range (\<lambda>e. I\<lparr>inOnce := Fired, inStartErr := Some e\<rparr>))"

text \<open>A section under the lock: refused, the instance that is there, or a new one.\<close>

lemma for_locked_cases:
  obtains
    (refused) e where "for_locked E P i = (ForReturn i (Inl e), P)"
  | (known) c now where "map_of (plInstances P) (pool_key P i) = Some c"
      "for_locked E P i = (ForOnce i c, set_inst c (\<lambda>I. I\<lparr>inLastUsed := now\<rparr>)
        (P\<lparr>plWorld := (plWorld P)\<lparr>wClock := wClock (plWorld P) + 1\<rparr>\<rparr>))"
  | (fresh) x now where "map_of (plInstances P) (pool_key P i) = None"
      "for_locked E P i = (ForOnce i (length (plHeap P)), P\<lparr>
        plHeap := plHeap P @ [(built (wNext (plWorld P)))\<lparr>inLastUsed := now\<rparr>],
        plInstances := map_set (pool_key P i) (length (plHeap P)) (plInstances P),
        plWorld := (emit (EvBuild (wNext (plWorld P)) x) ((plWorld P)\<lparr>wNext := wNext (plWorld P) + 1\<rparr>))
          \<lparr>wClock := wClock (plWorld P) + 1\<rparr>\<rparr>)"
proof (cases "plClosed P")
  case True
  then show thesis by (intro refused) (simp add: for_locked_def)
next
  case False
  show thesis
  proof (cases "map_of (plInstances P) (pool_key P i)")
    case (Some c)
    with False show thesis by (intro known) (simp_all add: for_locked_def Now_def Let_def)
  next
    case None
    show thesis
    proof (cases rule: Build_cases [of E "plWorld P" "plBackend P"])
      case (err msg)
      with None False show thesis by (intro refused) (simp add: for_locked_def Let_def)
    next
      case (ok x)
      with None False show thesis
        by (intro fresh [of x "envClock E (wClock (plWorld P))"])
          (simp_all add: for_locked_def Now_def Let_def set_inst_def emit_def)
    qed
  qed
qed

lemma thread_step_cases:
  assumes "thread_step E P q = Some (q', P')"
  obtains
    (quiet) "view P' = view P" "refers q = None" "refers q' = None" "pending q' = []" "pending q = []" "handed q' = None"
  | (known) i c now where "q = ForBegin i" "q' = ForOnce i c" "map_of (plInstances P) (pool_key P i) = Some c"
      "view P' = ((plHeap P)[c := (plHeap P ! c)\<lparr>inLastUsed := now\<rparr>], plInstances P,
        (plWorld P)\<lparr>wClock := wClock (plWorld P) + 1\<rparr>)"
  | (fresh) i x now where "q = ForBegin i" "q' = ForOnce i (length (plHeap P))"
      "map_of (plInstances P) (pool_key P i) = None"
      "view P' = (plHeap P @ [(built (wNext (plWorld P)))\<lparr>inLastUsed := now\<rparr>],
        map_set (pool_key P i) (length (plHeap P)) (plInstances P),
        (emit (EvBuild (wNext (plWorld P)) x) ((plWorld P)\<lparr>wNext := wNext (plWorld P) + 1\<rparr>))
          \<lparr>wClock := wClock (plWorld P) + 1\<rparr>)"
  | (fired) i c where "q = ForOnce i c" "q' = ForCheck i c" "inOnce (plHeap P ! c) = Fired" "view P' = view P"
  | (fire) i c a where "q = ForOnce i c" "q' = ForStarting i c a" "inOnce (plHeap P ! c) = Unfired"
      "view P' = ((plHeap P)[c := (plHeap P ! c)\<lparr>inOnce := Busy\<rparr>], plInstances P,
        emit (EvStart (inRunner (plHeap P ! c))) (plWorld P))"
  | (finish) i c a I where "q = ForStarting i c a" "q' = ForCheck i c" "I \<in> settled (plHeap P ! c)"
      "view P' = ((plHeap P)[c := I], plInstances P, plWorld P)"
  | (check) i c where "q = ForCheck i c" "view P' = view P"
      "q' = ForReturn i (case inStartErr (plHeap P ! c) of Some e \<Rightarrow> Inl e | None \<Rightarrow> Inr (inRunner (plHeap P ! c)))"
  | (collect) keep where "refers q = None" "refers q' = None" "handed q' = None" "pending q = []"
      "pending q' = map snd (filter (\<lambda>e. \<not> keep e) (plInstances P))"
      "view P' = (plHeap P, filter keep (plInstances P), plWorld P)"
  | (skip) c where "refers q' = None" "handed q' = None" "pending q = c # pending q'"
      "\<not> inStarted (plHeap P ! c)" "view P' = view P"
  | (stop) c where "refers q' = None" "handed q' = None" "pending q = c # pending q'"
      "inStarted (plHeap P ! c)"
      "view P' = (plHeap P, plInstances P, emit (EvStop (inRunner (plHeap P ! c))) (plWorld P))"
proof (cases q)
  case (ForBegin i)
  with assms have s: "for_locked E P i = (q', P')" by (simp add: thread_step_def)
  show thesis
  proof (cases rule: for_locked_cases [of E P i])
    case (refused e)
    with s ForBegin show thesis by (intro quiet) auto
  next
    case (known c now)
    with s ForBegin show thesis by (intro that(2) [of i c now]) (auto simp: view_def)
  next
    case (fresh x now)
    with s ForBegin show thesis by (intro that(3) [of i now x]) (auto simp: view_def)
  qed
next
  case (ForOnce i c)
  with assms fired fire show thesis
    by (cases "inOnce (plHeap P ! c)") (auto simp: thread_step_def view_def runner_Start_def)
next
  case (ForStarting i c a)
  let ?I = "case a of
      Inl e \<Rightarrow> (plHeap P ! c)\<lparr>inOnce := Fired, inStartErr := Some e\<rparr>
    | Inr _ \<Rightarrow> (plHeap P ! c)\<lparr>inOnce := Fired, inStarted := True\<rparr>"
  from ForStarting assms show thesis
    by (intro finish [of i c a ?I])
      (auto simp: thread_step_def view_def settled_def split: sum.splits)
next
  case (ForCheck i c)
  with assms check show thesis by (auto simp: thread_step_def)
next
  case (EvictBegin cutoff)
  let ?cold = "\<lambda>(key, c). key \<noteq> sharedKey \<and> inLastUsed (plHeap P ! c) < cutoff"
  show thesis
  proof (cases "plClosed P")
    case True
    with assms EvictBegin quiet show thesis by (auto simp: thread_step_def)
  next
    case False
    with assms EvictBegin show thesis
      by (intro collect [of "\<lambda>e. \<not> ?cold e"]) (auto simp: thread_step_def view_def Let_def)
  qed
next
  case (EvictStops cs n)
  show thesis
  proof (cases cs)
    case Nil
    with assms EvictStops show thesis by (intro quiet) (auto simp: thread_step_def)
  next
    case (Cons c rest)
    show thesis
    proof (cases "inStarted (plHeap P ! c)")
      case False
      with assms EvictStops Cons show thesis by (intro skip [of c]) (auto simp: thread_step_def)
    next
      case True
      with assms EvictStops Cons show thesis
        by (intro stop [of c]) (auto simp: thread_step_def view_def stop_one_def case_prod_beta)
    qed
  qed
next
  case CloseBegin
  show thesis
  proof (cases "plClosed P")
    case True
    with assms CloseBegin quiet show thesis by (auto simp: thread_step_def)
  next
    case False
    with assms CloseBegin show thesis
      by (intro collect [of "\<lambda>_. False"]) (auto simp: thread_step_def view_def)
  qed
next
  case (CloseStops kcs err)
  show thesis
  proof (cases kcs)
    case Nil
    with assms CloseStops show thesis by (intro quiet) (auto simp: thread_step_def)
  next
    case (Cons kc rest)
    show thesis
    proof (cases "inStarted (plHeap P ! snd kc)")
      case False
      with assms CloseStops Cons show thesis
        by (intro skip [of "snd kc"]) (cases kc, auto simp: thread_step_def)+
    next
      case True
      with assms CloseStops Cons show thesis
        by (intro stop [of "snd kc"])
          (cases kc, auto simp: thread_step_def view_def stop_one_def case_prod_beta Let_def)+
    qed
  qed
qed (use assms in \<open>simp_all add: thread_step_def\<close>)

lemma thread_step_frame:
  assumes "thread_step E P q = Some (q', P')"
  shows "plThreads P' = plThreads P" "plBackend P' = plBackend P" "plShareSafe P' = plShareSafe P"
    "plClosed P \<Longrightarrow> plClosed P'"
proof -
  let ?F = "plThreads P' = plThreads P \<and> plBackend P' = plBackend P \<and> plShareSafe P' = plShareSafe P
      \<and> (plClosed P \<longrightarrow> plClosed P')"
  have "for_locked E P i = (q', P') \<Longrightarrow> ?F" for i
    by (cases rule: for_locked_cases [of E P i]) auto
  then have "for_thread E P q = Some (q', P') \<Longrightarrow> ?F"
    by (cases q) (auto simp: runner_Start_def split: once.splits sum.splits)
  moreover have "evict_thread E P q = Some (q', P') \<Longrightarrow> ?F"
    by (cases rule: evict_thread.cases [of "(E, P, q)"])
      (auto simp: stop_one_def case_prod_beta Let_def split: if_splits)
  moreover have "close_thread E P q = Some (q', P') \<Longrightarrow> ?F"
    by (cases rule: close_thread.cases [of "(E, P, q)"])
      (auto simp: stop_one_def case_prod_beta Let_def split: if_splits)
  ultimately have ?F using assms by (auto simp: thread_step_def split: option.splits)
  then show "plThreads P' = plThreads P" "plBackend P' = plBackend P" "plShareSafe P' = plShareSafe P"
    "plClosed P \<Longrightarrow> plClosed P'" by blast+
qed

section \<open>The invariant\<close>

text \<open>An instance has been started when its \<^verbatim>\<open>sync.Once\<close> has been entered, and not before.\<close>

definition inst_sound :: "World \<Rightarrow> Instance \<Rightarrow> bool" where
  "inst_sound w I \<longleftrightarrow> inRunner I < wNext w
    \<and> starts (inRunner I) (wTrace w) = (if inOnce I = Unfired then 0 else 1)
    \<and> (inOnce I \<noteq> Fired \<longrightarrow> inStartErr I = None)
    \<and> (inStarted I \<longleftrightarrow> inOnce I = Fired \<and> inStartErr I = None)"

definition heap_sound :: "Instance list \<times> inst_ref gomap \<times> World \<Rightarrow> bool" where
  "heap_sound v \<longleftrightarrow> (let (heap, m, w) = v in
    world_ok w \<and> (\<forall>r. starts r (wTrace w) \<le> 1) \<and> distinct (map inRunner heap)
    \<and> (\<forall>I \<in> set heap. inst_sound w I))"

text \<open>\<open>own\<close> says for which partition an instance was built.\<close>

definition map_sound :: "(inst_ref \<Rightarrow> bytes) \<Rightarrow> Instance list \<times> inst_ref gomap \<times> World \<Rightarrow> bool" where
  "map_sound own v \<longleftrightarrow> (let (heap, m, w) = v in
    wf_map m \<and> (\<forall>(k, c) \<in> set m. c < length heap \<and> own c = k))"

definition thread_sound :: "(Identity \<Rightarrow> bytes) \<Rightarrow> (inst_ref \<Rightarrow> bytes) \<Rightarrow> Instance list \<Rightarrow> pool_pc \<Rightarrow> bool" where
  "thread_sound key own heap q \<longleftrightarrow>
    (\<forall>i c. refers q = Some (i, c) \<longrightarrow> c < length heap \<and> own c = key i)
    \<and> (\<forall>c \<in> set (pending q). c < length heap)
    \<and> (\<forall>i c a. q = ForStarting i c a \<longrightarrow> inOnce (heap ! c) = Busy)
    \<and> (\<forall>i c. q = ForCheck i c \<longrightarrow> inOnce (heap ! c) = Fired)
    \<and> (\<forall>i r. handed q = Some (i, r) \<longrightarrow>
         (\<exists>c < length heap. own c = key i \<and> inRunner (heap ! c) = r \<and> inStarted (heap ! c)))"

definition one_starter :: "(nat \<Rightarrow> pool_pc option) \<Rightarrow> bool" where
  "one_starter ths \<longleftrightarrow> (\<forall>t t' i i' c a a'.
    ths t = Some (ForStarting i c a) \<longrightarrow> ths t' = Some (ForStarting i' c a') \<longrightarrow> t = t')"

definition pool_ok :: "(inst_ref \<Rightarrow> bytes) \<Rightarrow> Pool \<Rightarrow> bool" where
  "pool_ok own P \<longleftrightarrow> heap_sound (view P) \<and> map_sound own (view P) \<and> one_starter (plThreads P)
    \<and> (\<forall>t q. plThreads P t = Some q \<longrightarrow> thread_sound (pool_key P) own (plHeap P) q)"

text \<open>How a heap may change under the other goroutines.\<close>

definition grows :: "Instance list \<Rightarrow> Instance list \<Rightarrow> bool" where
  "grows hp hp' \<longleftrightarrow> length hp \<le> length hp'
    \<and> (\<forall>c < length hp. inRunner (hp' ! c) = inRunner (hp ! c)
         \<and> (inOnce (hp ! c) = Fired \<longrightarrow> inOnce (hp' ! c) = Fired)
         \<and> (inStarted (hp ! c) \<longrightarrow> inStarted (hp' ! c)))"

lemma grows_refl [simp]: "grows hp hp"
  by (simp add: grows_def)

lemma grows_append [simp]: "grows hp (hp @ x)"
  by (simp add: grows_def nth_append)

lemma grows_update:
  assumes "inRunner x = inRunner (hp ! c)" "inOnce (hp ! c) = Fired \<longrightarrow> inOnce x = Fired"
    "inStarted (hp ! c) \<longrightarrow> inStarted x"
  shows "grows hp (hp[c := x])"
  using assms by (cases "c < length hp") (auto simp: grows_def nth_list_update list_update_beyond)

lemma thread_sound_grows:
  assumes "thread_sound key own hp q" "grows hp hp'" "\<And>c. c < length hp \<Longrightarrow> own' c = own c"
    "\<And>i c a. q = ForStarting i c a \<Longrightarrow> inOnce (hp' ! c) = inOnce (hp ! c)"
  shows "thread_sound key own' hp' q"
  unfolding thread_sound_def
proof (intro conjI allI impI ballI)
  fix i c
  note ts = assms(1) [unfolded thread_sound_def]
  show "c < length hp'" if "c \<in> set (pending q)"
    using that ts assms(2) by (fastforce simp: grows_def)
  show "c < length hp'" "own' c = key i" if "refers q = Some (i, c)"
    using that ts assms(2,3) by (auto simp: grows_def)
  show "inOnce (hp' ! c) = Busy" if "q = ForStarting i c a" for a
    using that ts assms(4) [OF that] by simp
  show "inOnce (hp' ! c) = Fired" if "q = ForCheck i c"
  proof -
    have "c < length hp" "inOnce (hp ! c) = Fired" using that ts by simp_all
    with assms(2) show ?thesis by (simp add: grows_def)
  qed
  show "\<exists>c < length hp'. own' c = key i \<and> inRunner (hp' ! c) = r \<and> inStarted (hp' ! c)"
    if "handed q = Some (i, r)" for r
  proof -
    from that ts obtain d where "d < length hp" "own d = key i" "inRunner (hp ! d) = r" "inStarted (hp ! d)"
      by blast
    with assms(2,3) show ?thesis by (intro exI [of _ d]) (auto simp: grows_def)
  qed
qed

lemma inst_sound_world:
  assumes "inst_sound w I" "wNext w \<le> wNext w'"
    "starts (inRunner I) (wTrace w') = starts (inRunner I) (wTrace w)"
  shows "inst_sound w' I"
  using assms by (simp add: inst_sound_def)

lemma map_update_same:
  "inRunner x = inRunner (hp ! c) \<Longrightarrow> map inRunner (hp[c := x]) = map inRunner hp"
proof (cases "c < length hp")
  case True
  assume "inRunner x = inRunner (hp ! c)"
  then have "map inRunner (hp[c := x]) = (map inRunner hp)[c := map inRunner hp ! c]"
    using True by (simp add: map_update)
  then show ?thesis by (simp only: list_update_id)
qed (simp add: list_update_beyond)

lemma heap_sound_update:
  assumes "heap_sound (hp, m, w)" "inRunner x = inRunner (hp ! c)" "inst_sound w x"
  shows "heap_sound (hp[c := x], m', w)"
proof -
  have "map inRunner (hp[c := x]) = map inRunner hp" by (rule map_update_same [OF assms(2)])
  moreover have "\<forall>I \<in> set (hp[c := x]). inst_sound w I"
    using assms(1,3) set_update_subset_insert [of hp c x] by (auto simp: heap_sound_def)
  ultimately show ?thesis using assms(1) by (simp only: heap_sound_def Let_def prod.case) simp
qed

text \<open>A change of the world that starts nothing.\<close>

lemma heap_sound_world:
  assumes "heap_sound (hp, m, w)" "world_ok w'" "wNext w \<le> wNext w'"
    "\<And>r. starts r (wTrace w') = starts r (wTrace w)"
  shows "heap_sound (hp, m', w')"
  using assms by (auto simp: heap_sound_def intro: inst_sound_world)

lemma heap_sound_started:
  assumes "heap_sound (hp, m, w)" "c < length hp" "inOnce (hp ! c) = Unfired"
  shows "heap_sound (hp[c := (hp ! c)\<lparr>inOnce := Busy\<rparr>], m', emit (EvStart (inRunner (hp ! c))) w)"
proof -
  let ?r = "inRunner (hp ! c)"
  let ?w = "emit (EvStart ?r) w"
  have dist: "distinct (map inRunner hp)" and all: "\<forall>I \<in> set hp. inst_sound w I"
    and w: "world_ok w" "\<forall>r. starts r (wTrace w) \<le> 1"
    using assms(1) by (simp_all add: heap_sound_def)
  have c: "inst_sound w (hp ! c)" using all assms(2) by simp
  then have zero: "starts ?r (wTrace w) = 0" "?r < wNext w" using assms(3) by (simp_all add: inst_sound_def)
  have new: "inst_sound ?w ((hp ! c)\<lparr>inOnce := Busy\<rparr>)"
    using c assms(3) by (simp add: inst_sound_def)
  have "inst_sound ?w I" if "I \<in> set (hp[c := (hp ! c)\<lparr>inOnce := Busy\<rparr>])" for I
  proof -
    from that obtain d where d: "d < length hp" "I = hp[c := (hp ! c)\<lparr>inOnce := Busy\<rparr>] ! d"
      by (auto simp: in_set_conv_nth)
    show ?thesis
    proof (cases "d = c")
      case True
      with d new show ?thesis by simp
    next
      case False
      then have ne: "inRunner (hp ! d) \<noteq> ?r"
        using nth_eq_iff_index_eq [OF dist, of d c] d(1) assms(2) by simp
      have "inst_sound w (hp ! d)" using all d(1) nth_mem by blast
      from inst_sound_world [OF this, of ?w] ne have "inst_sound ?w (hp ! d)" by simp
      then show ?thesis using False d(2) by simp
    qed
  qed
  moreover have "map inRunner (hp[c := (hp ! c)\<lparr>inOnce := Busy\<rparr>]) = map inRunner hp"
    by (rule map_update_same) simp
  moreover have "world_ok ?w" using w(1) zero(2) by (intro world_ok_emit) simp_all
  ultimately show ?thesis using w(2) dist zero by (simp only: heap_sound_def Let_def prod.case) simp
qed

lemma heap_sound_built:
  assumes "heap_sound (hp, m, w)"
  shows "heap_sound (hp @ [(built (wNext w))\<lparr>inLastUsed := now\<rparr>], m',
    (emit (EvBuild (wNext w) x) (w\<lparr>wNext := wNext w + 1\<rparr>))\<lparr>wClock := k\<rparr>)"
proof -
  have h: "world_ok w" "\<forall>r. starts r (wTrace w) \<le> 1" "distinct (map inRunner hp)"
    "\<forall>I \<in> set hp. inst_sound w I"
    using assms by (simp_all add: heap_sound_def)
  have "EvStart (wNext w) \<notin> set (wTrace w)" using h(1) by (auto simp: world_ok_def)
  then have "starts (wNext w) (wTrace w) = 0" by (simp add: starts_0_iff)
  moreover have "wNext w \<notin> inRunner ` set hp" using h(4) by (auto simp: inst_sound_def)
  moreover have "world_ok ((emit (EvBuild (wNext w) x) (w\<lparr>wNext := wNext w + 1\<rparr>))\<lparr>wClock := k\<rparr>)"
    using h(1) by (auto simp: world_ok_def less_Suc_eq)
  ultimately show ?thesis
    using h by (auto simp: heap_sound_def inst_sound_def built_def)
qed

text \<open>The heap and the map stay sound, and the heap only grows, with a starter of its own.\<close>

definition advances :: "Pool \<Rightarrow> pool_pc \<Rightarrow> Pool \<Rightarrow> bool" where
  "advances P q' P' \<longleftrightarrow> heap_sound (view P') \<and> grows (plHeap P) (plHeap P')
    \<and> (\<forall>c < length (plHeap P). inOnce (plHeap P' ! c) \<noteq> inOnce (plHeap P ! c) \<longrightarrow>
         (\<exists>i a. q' = ForStarting i c a \<or> q' = ForCheck i c))"

lemma settled_sound:
  assumes "I \<in> settled J" "inst_sound w J" "inOnce J = Busy"
  shows "inst_sound w I" "inRunner I = inRunner J" "inOnce I = Fired" "inStarted J \<longrightarrow> inStarted I"
  using assms by (auto simp: settled_def inst_sound_def)

lemma thread_step_advances:
  assumes "heap_sound (view P)" "map_sound own (view P)" "thread_sound key own (plHeap P) q"
    "thread_step E P q = Some (q', P')"
  shows "advances P q' P'"
proof -
  let ?hp = "plHeap P" and ?w = "plWorld P"
  have hs: "heap_sound (?hp, plInstances P, ?w)" using assms(1) by (simp add: view_def)
  have wo: "world_ok ?w" using hs by (simp add: heap_sound_def)
  have insts: "c < length ?hp \<Longrightarrow> inst_sound ?w (?hp ! c)" for c using hs by (simp add: heap_sound_def)
  show ?thesis
    using assms(4)
  proof (cases rule: thread_step_cases)
    case (known i c now)
    have c: "c < length ?hp"
      using assms(2) map_of_SomeD [OF known(3)] by (auto simp: map_sound_def view_def)
    then have "inst_sound ?w ((?hp ! c)\<lparr>inLastUsed := now\<rparr>)"
      using insts by (simp add: inst_sound_def)
    from heap_sound_update [OF hs _ this] have "heap_sound (?hp[c := (?hp ! c)\<lparr>inLastUsed := now\<rparr>], plInstances P, ?w)"
      by simp
    from heap_sound_world [OF this, of "?w\<lparr>wClock := wClock ?w + 1\<rparr>"] have
      "heap_sound (?hp[c := (?hp ! c)\<lparr>inLastUsed := now\<rparr>], plInstances P, ?w\<lparr>wClock := wClock ?w + 1\<rparr>)"
      using wo by (simp add: world_ok_def)
    with known(4) c show ?thesis
      by (auto simp: advances_def view_def nth_list_update intro: grows_update)
  next
    case (fresh i x now)
    from heap_sound_built [OF hs] fresh(4) show ?thesis
      by (simp add: advances_def view_def nth_append)
  next
    case (fire i c a)
    have c: "c < length ?hp" using assms(3) fire(1) by (simp add: thread_sound_def)
    from heap_sound_started [OF hs c fire(3)] fire c insts [OF c] show ?thesis
      by (auto simp: advances_def view_def nth_list_update inst_sound_def intro!: grows_update)
  next
    case (finish i c a I)
    have c: "c < length ?hp" "inOnce (?hp ! c) = Busy"
      using assms(3) finish(1) by (simp_all add: thread_sound_def)
    note I = settled_sound [OF finish(3) insts [OF c(1)] c(2)]
    from heap_sound_update [OF hs I(2,1)] finish I c show ?thesis
      by (auto simp: advances_def view_def nth_list_update intro!: grows_update)
  next
    case (collect keep)
    from heap_sound_world [OF hs wo] collect(6) show ?thesis by (simp add: advances_def view_def)
  next
    case (stop c)
    have "c < length ?hp" using assms(3) stop(3) by (simp add: thread_sound_def)
    then have "inRunner (?hp ! c) < wNext ?w" using insts by (simp add: inst_sound_def)
    then have "heap_sound (?hp, plInstances P, emit (EvStop (inRunner (?hp ! c))) ?w)"
      using wo by (intro heap_sound_world [OF hs] world_ok_emit) simp_all
    with stop(5) show ?thesis by (simp add: advances_def view_def)
  qed (use hs in \<open>simp_all add: advances_def view_def\<close>)
qed

lemma map_sound_filter: "map_sound own (hp, m, w) \<Longrightarrow> map_sound own (hp, filter P m, w')"
  by (auto simp: map_sound_def wf_map_filter)

lemma map_sound_length:
  "map_sound own (hp, m, w) \<Longrightarrow> length hp' = length hp \<Longrightarrow> map_sound own (hp', m, w')"
  by (simp add: map_sound_def)

lemma map_sound_fresh:
  assumes "map_sound own (hp, m, w)"
  shows "map_sound (own(length hp := k)) (hp @ [I], map_set k (length hp) m, w')"
proof -
  have wf: "wf_map m" and old: "(k', c) \<in> set m \<Longrightarrow> c < length hp \<and> own c = k'" for k' c
    using assms by (auto simp: map_sound_def)
  have "c < length (hp @ [I]) \<and> (own(length hp := k)) c = k'" if "(k', c) \<in> set (map_set k (length hp) m)" for k' c
  proof -
    have "map_of (map_set k (length hp) m) k' = Some c"
      using that wf_map_set [OF wf, of k "length hp"]
      unfolding wf_map_def by (rule map_of_is_SomeI [rotated])
    then have "k' = k \<and> c = length hp \<or> map_of m k' = Some c" by (auto split: if_splits)
    then show ?thesis using old [OF map_of_SomeD] by fastforce
  qed
  then have "\<forall>(k', c) \<in> set (map_set k (length hp) m). c < length (hp @ [I]) \<and> (own(length hp := k)) c = k'"
    by blast
  then show ?thesis using wf unfolding map_sound_def by simp
qed

lemma stepped_thread_sound:
  assumes hs: "heap_sound (view P)" and ms: "map_sound own (view P)"
    and ts: "thread_sound (pool_key P) own (plHeap P) q" and st: "thread_step E P q = Some (q', P')"
  shows "\<exists>own'. (\<forall>c < length (plHeap P). own' c = own c) \<and> map_sound own' (view P')
    \<and> thread_sound (pool_key P) own' (plHeap P') q'"
proof -
  let ?hp = "plHeap P" and ?m = "plInstances P" and ?w = "plWorld P"
  have map: "map_sound own (?hp, ?m, ?w)" using ms by (simp add: view_def)
  have in_map: "(k, c) \<in> set ?m \<Longrightarrow> c < length ?hp \<and> own c = k" for k c
    using map by (auto simp: map_sound_def)
  note len = map_sound_length [OF map]
  show ?thesis
    using st
  proof (cases rule: thread_step_cases)
    case (known i c now)
    from in_map [OF map_of_SomeD [OF known(3)]] known len show ?thesis
      by (intro exI [of _ own]) (simp add: view_def thread_sound_def)
  next
    case (fresh i x now)
    from map_sound_fresh [OF map] fresh show ?thesis
      by (intro exI [of _ "own(length ?hp := pool_key P i)"]) (simp add: view_def thread_sound_def)
  next
    case (fire i c a)
    with ts len show ?thesis by (intro exI [of _ own]) (simp add: view_def thread_sound_def)
  next
    case (finish i c a I)
    then have "inOnce I = Fired" by (auto simp: settled_def)
    with finish ts len show ?thesis by (intro exI [of _ own]) (simp add: view_def thread_sound_def)
  next
    case (check i c)
    have c: "c < length ?hp" "own c = pool_key P i" "inOnce (?hp ! c) = Fired"
      using ts check(1) by (simp_all add: thread_sound_def)
    then have "inStartErr (?hp ! c) = None \<longrightarrow> inStarted (?hp ! c)"
      using hs by (auto simp: heap_sound_def inst_sound_def view_def)
    with c check ms show ?thesis
      by (intro exI [of _ own]) (auto simp: view_def thread_sound_def split: option.splits)
  next
    case (collect keep)
    from collect in_map map_sound_filter [OF map] show ?thesis
      by (intro exI [of _ own]) (cases q', auto simp: view_def thread_sound_def)
  next
    case (skip c)
    with ts ms show ?thesis
      by (intro exI [of _ own]) (cases q', auto simp: view_def thread_sound_def)
  next
    case (stop c)
    with ts len show ?thesis
      by (intro exI [of _ own]) (cases q', auto simp: view_def thread_sound_def)
  next
    case quiet
    with ms show ?thesis
      by (intro exI [of _ own]) (cases q', auto simp: view_def thread_sound_def)
  next
    case (fired i c)
    with ts ms show ?thesis by (intro exI [of _ own]) (simp add: view_def thread_sound_def)
  qed
qed

lemma pool_ok_run:
  assumes ok: "pool_ok own P" and t: "plThreads P t = Some q" and st: "thread_step E P q = Some (q', P')"
  shows "\<exists>own'. pool_ok own' (P'\<lparr>plThreads := (plThreads P')(t \<mapsto> q')\<rparr>)"
proof -
  let ?hp = "plHeap P" and ?Q = "P'\<lparr>plThreads := (plThreads P')(t \<mapsto> q')\<rparr>"
  have hs: "heap_sound (view P)" and ms: "map_sound own (view P)" and os: "one_starter (plThreads P)"
    and ts: "\<And>s x. plThreads P s = Some x \<Longrightarrow> thread_sound (pool_key P) own ?hp x"
    using ok by (simp_all add: pool_ok_def)
  note fr = thread_step_frame [OF st]
  have key: "pool_key ?Q = pool_key P" using fr(2,3) by (intro pool_key_cong) simp_all
  have v: "view ?Q = view P'" by (simp add: view_def)
  from thread_step_advances [OF hs ms ts [OF t] st] have
    hs': "heap_sound (view P')" and gr: "grows ?hp (plHeap P')"
    and ch: "\<And>c. c < length ?hp \<Longrightarrow> inOnce (plHeap P' ! c) \<noteq> inOnce (?hp ! c) \<Longrightarrow>
      \<exists>i a. q' = ForStarting i c a \<or> q' = ForCheck i c"
    by (simp_all add: advances_def)
  from stepped_thread_sound [OF hs ms ts [OF t] st] obtain own' where
    own: "\<And>c. c < length ?hp \<Longrightarrow> own' c = own c" and ms': "map_sound own' (view P')"
    and ts': "thread_sound (pool_key P) own' (plHeap P') q'" by blast
  have busy: "inOnce (?hp ! c) = Busy" "c < length ?hp" if "plThreads P s = Some (ForStarting i c a)" for s i c a
    using ts [OF that] by (simp_all add: thread_sound_def)
  have alone: "s = t" if s: "plThreads P s = Some (ForStarting i c a)" and q': "q' = ForStarting j c b \<or>
      q' = ForCheck j c \<and> inOnce (plHeap P' ! c) \<noteq> inOnce (?hp ! c)" for s i j c a b
    using st
  proof (cases rule: thread_step_cases)
    case (fire i' c' a')
    with q' busy [OF s] show ?thesis by auto
  next
    case (finish i' c' a' I)
    with q' os s t show ?thesis unfolding one_starter_def by blast
  next
    case (check i' c')
    with q' show ?thesis by (auto split: option.splits)
  qed (use q' in \<open>auto simp: view_def\<close>)
  have "one_starter ((plThreads P)(t \<mapsto> q'))"
    unfolding one_starter_def
  proof (intro allI impI)
    fix s s' i i' c a a'
    assume s: "((plThreads P)(t \<mapsto> q')) s = Some (ForStarting i c a)"
      "((plThreads P)(t \<mapsto> q')) s' = Some (ForStarting i' c a')"
    show "s = s'"
    proof (cases "s = t \<or> s' = t")
      case True
      with s show ?thesis using alone by (auto split: if_splits)
    next
      case False
      with s have "plThreads P s = Some (ForStarting i c a)" "plThreads P s' = Some (ForStarting i' c a')" by simp_all
      with os show ?thesis unfolding one_starter_def by blast
    qed
  qed
  moreover have "thread_sound (pool_key P) own' (plHeap P') x"
    if "((plThreads P)(t \<mapsto> q')) s = Some x" for s x
  proof (cases "s = t")
    case True
    with that ts' show ?thesis by simp
  next
    case False
    with that have x: "plThreads P s = Some x" by simp
    have "inOnce (plHeap P' ! c) = inOnce (?hp ! c)" if "x = ForStarting i c a" for i c a
      using ch [of c] busy(2) [of s i c] alone [of s i c] x that False by blast
    then show ?thesis by (intro thread_sound_grows [OF ts [OF x] gr own])
  qed
  ultimately have "pool_ok own' ?Q"
    using hs' ms' unfolding pool_ok_def v key by (simp add: fr(1))
  then show ?thesis by blast
qed

lemma entry_sound [simp]: "thread_sound key own hp (pool_entry x)"
  by (cases x) (simp_all add: thread_sound_def)

lemma entry_not_starting: "pool_entry x \<noteq> ForStarting i c a"
  by (cases x) simp_all

lemma pool_ok_act:
  assumes "pool_ok own P" "act E a P = Some P'"
  shows "\<exists>own'. pool_ok own' P'"
proof (cases a)
  case (Spawn t x)
  let ?Q = "P\<lparr>plThreads := (plThreads P)(t \<mapsto> pool_entry x)\<rparr>"
  have v: "view ?Q = view P" "pool_key ?Q = pool_key P" by (simp_all add: view_def pool_key_def)
  have os: "one_starter (plThreads P)" using assms(1) by (simp add: pool_ok_def)
  then have "one_starter ((plThreads P)(t \<mapsto> pool_entry x))"
    using entry_not_starting [of x] unfolding one_starter_def by (auto split: if_splits)
  with assms(1) have "pool_ok own ?Q" unfolding pool_ok_def v by simp
  with Spawn assms(2) show ?thesis by (auto split: if_splits)
next
  case (Advance t)
  with assms(2) obtain q q' Q where "plThreads P t = Some q" "thread_step E P q = Some (q', Q)"
    "P' = Q\<lparr>plThreads := (plThreads Q)(t \<mapsto> q')\<rparr>" by (auto split: option.splits)
  with pool_ok_run [OF assms(1)] show ?thesis by blast
qed

lemma pool_ok_exec:
  assumes "pool_ok own P" "pool_exec E xs P = Some P'"
  shows "\<exists>own'. pool_ok own' P'"
proof -
  have "\<exists>own. pool_ok own P" using assms(1) by blast
  then show ?thesis
    by (rule pool_exec_invariant [where J = "\<lambda>P. \<exists>own. pool_ok own P", OF _ assms(2)])
      (use pool_ok_act in blast)
qed

text \<open>A pool that has been warmed up is sound.\<close>

lemma pool_ok_warmed:
  assumes "warmed E b share w0 p w"
  shows "\<exists>own. pool_ok own (threaded p w)" "pool_key (threaded p w) = PartitionKey (NewRunnerPool b share)"
    "plThreads (threaded p w) = (\<lambda>_. None)"
proof -
  have "pool_ok (\<lambda>_. sharedKey) (threaded p w)"
    using assms
    by (elim warmed_cases)
      (auto simp: pool_ok_def threaded_def view_def heap_sound_def map_sound_def one_starter_def
        inst_sound_def instance_of_def world_ok_def wf_map_def)
  then show "\<exists>own. pool_ok own (threaded p w)" by blast
  show "pool_key (threaded p w) = PartitionKey (NewRunnerPool b share)"
    using assms by (elim warmed_cases) (simp add: pool_key_def threaded_def)
qed (simp add: threaded_def)

lemma pool_key_exec:
  assumes "pool_exec E xs P = Some P'"
  shows "pool_key P' = pool_key P"
proof (rule pool_exec_invariant [where J = "\<lambda>Q. pool_key Q = pool_key P", OF refl assms])
  fix a Q Q' assume q: "pool_key Q = pool_key P" and "act E a Q = Some Q'"
  then have "plBackend Q' = plBackend Q \<and> plShareSafe Q' = plShareSafe Q"
    using thread_step_frame(2,3) by (cases a) (fastforce split: option.splits if_splits)+
  with q show "pool_key Q' = pool_key P" by (simp add: pool_key_def)
qed

section \<open>Starts and hand-outs\<close>

text \<open>C17. Under any interleaving of lookups, evictions and a close, every runner is started at most
  once; one that a lookup has returned was started, exactly once, and its start has succeeded before the
  return; and in isolate mode two lookups that returned the same runner were for the same subject.\<close>

theorem interleaved_handout:
  assumes "warmed E b share w0 p w" "pool_exec E xs (threaded p w) = Some P"
  shows "(\<forall>r. starts r (wTrace (plWorld P)) \<le> 1)
    \<and> (\<forall>t i r. plThreads P t = Some (ForReturn i (Inr r)) \<longrightarrow> starts r (wTrace (plWorld P)) = 1
         \<and> (\<exists>I \<in> set (plHeap P). inRunner I = r \<and> inStarted I))
    \<and> (\<forall>t t' i j r. plThreads P t = Some (ForReturn i (Inr r)) \<longrightarrow>
         plThreads P t' = Some (ForReturn j (Inr r)) \<longrightarrow> share \<or> idSubject i = idSubject j)"
proof -
  from pool_ok_warmed(1) [OF assms(1)] pool_ok_exec [OF _ assms(2)] obtain own where ok: "pool_ok own P" by blast
  have key: "pool_key P = PartitionKey (NewRunnerPool b share)"
    using pool_key_exec [OF assms(2)] pool_ok_warmed(2) [OF assms(1)] by simp
  have hs: "\<forall>r. starts r (wTrace (plWorld P)) \<le> 1" "distinct (map inRunner (plHeap P))"
    "\<forall>I \<in> set (plHeap P). inst_sound (plWorld P) I"
    using ok by (simp_all add: pool_ok_def heap_sound_def view_def)
  have got: "\<exists>c < length (plHeap P). own c = pool_key P i \<and> inRunner (plHeap P ! c) = r \<and> inStarted (plHeap P ! c)"
    if "plThreads P t = Some (ForReturn i (Inr r))" for t i r
    using ok that unfolding pool_ok_def thread_sound_def by fastforce
  show ?thesis
  proof (intro conjI allI impI)
    show "starts r (wTrace (plWorld P)) \<le> 1" for r using hs(1) by blast
  next
    fix t i r assume "plThreads P t = Some (ForReturn i (Inr r))"
    from got [OF this] obtain c where c: "c < length (plHeap P)" "inRunner (plHeap P ! c) = r"
      "inStarted (plHeap P ! c)" by blast
    with hs(3) have "inst_sound (plWorld P) (plHeap P ! c)" by simp
    with c show "starts r (wTrace (plWorld P)) = 1" by (simp add: inst_sound_def)
    show "\<exists>I \<in> set (plHeap P). inRunner I = r \<and> inStarted I" using c nth_mem by blast
  next
    fix t t' i j r assume "plThreads P t = Some (ForReturn i (Inr r))" "plThreads P t' = Some (ForReturn j (Inr r))"
    from got [OF this(1)] got [OF this(2)] obtain c d where
      c: "c < length (plHeap P)" "own c = pool_key P i" "inRunner (plHeap P ! c) = r" and
      d: "d < length (plHeap P)" "own d = pool_key P j" "inRunner (plHeap P ! d) = r" by blast
    then have "c = d" using nth_eq_iff_index_eq [OF hs(2), of c d] by simp
    with c d have same: "pool_key P i = pool_key P j" by simp
    show "share \<or> idSubject i = idSubject j"
    proof (cases share)
      case False
      with same isolate.key_iff [of b i j] show ?thesis by (simp add: key)
    qed simp
  qed
qed

end
