(* ===== verification/PoolStops.thy ===== *)
theory PoolStops
  imports PoolRaces
begin

text \<open>
  Who stops what: an instance is held by the pool's map or by the one goroutine that took it out to
  stop it, so it is stopped at most once, and when the pool is closed and every goroutine is done,
  everything that had started in it has been stopped. A start under way when its instance is taken
  out is the exception.
\<close>

section \<open>Holders\<close>

definition stops :: "runner_id \<Rightarrow> trace \<Rightarrow> nat" where
  "stops r tr = length (filter (\<lambda>e. e = EvStop r) tr)"

lemma stops_simps [simp]:
  "stops r [] = 0"
  "stops r (e # tr) = (if e = EvStop r then Suc (stops r tr) else stops r tr)"
  by (simp_all add: stops_def)

lemma stops_0_iff: "stops r tr = 0 \<longleftrightarrow> EvStop r \<notin> set tr"
  by (induction tr) auto

text \<open>\<open>None\<close> is the pool's map, \<open>Some t\<close> the goroutine \<open>t\<close>.\<close>

definition holds :: "Pool \<Rightarrow> nat option \<Rightarrow> inst_ref list" where
  "holds P h = (case h of
      None \<Rightarrow> map snd (plInstances P)
    | Some t \<Rightarrow> (case plThreads P t of None \<Rightarrow> [] | Some q \<Rightarrow> pending q))"

definition held_ok :: "Instance list \<Rightarrow> trace \<Rightarrow> (nat option \<Rightarrow> inst_ref list) \<Rightarrow> bool" where
  "held_ok hp tr H \<longleftrightarrow>
    (\<forall>h. distinct (H h) \<and> (\<forall>c \<in> set (H h). c < length hp \<and> EvStop (inRunner (hp ! c)) \<notin> set tr))
    \<and> (\<forall>h h' c. c \<in> set (H h) \<longrightarrow> c \<in> set (H h') \<longrightarrow> h = h')
    \<and> (\<forall>r. stops r tr \<le> 1)"

definition same_runners :: "Instance list \<Rightarrow> Instance list \<Rightarrow> bool" where
  "same_runners hp hp' \<longleftrightarrow> length hp \<le> length hp' \<and> (\<forall>c < length hp. inRunner (hp' ! c) = inRunner (hp ! c))"

lemma grows_runners: "grows hp hp' \<Longrightarrow> same_runners hp hp'"
  by (simp add: grows_def same_runners_def)

lemma held_okI:
  assumes "\<And>h. distinct (H h)" "\<And>h c. c \<in> set (H h) \<Longrightarrow> c < length hp"
    "\<And>h c. c \<in> set (H h) \<Longrightarrow> EvStop (inRunner (hp ! c)) \<notin> set tr"
    "\<And>g h c. c \<in> set (H g) \<Longrightarrow> c \<in> set (H h) \<Longrightarrow> g = h" "\<And>r. stops r tr \<le> 1"
  shows "held_ok hp tr H"
  using assms unfolding held_ok_def by blast

lemma held_okD:
  assumes "held_ok hp tr H"
  shows "distinct (H h)" "stops r tr \<le> 1"
    "c \<in> set (H h) \<Longrightarrow> c < length hp" "c \<in> set (H h) \<Longrightarrow> EvStop (inRunner (hp ! c)) \<notin> set tr"
    "c \<in> set (H h) \<Longrightarrow> c \<in> set (H g) \<Longrightarrow> h = g"
  using assms unfolding held_ok_def by blast+

lemma held_ok_mono:
  assumes "held_ok hp tr H" "same_runners hp hp'" "\<And>r. stops r tr' = stops r tr"
    "\<And>h. distinct (H' h)" "\<And>h. set (H' h) \<subseteq> set (H h)"
  shows "held_ok hp' tr' H'"
proof (rule held_okI)
  note old = held_okD [OF assms(1)]
  fix h c assume "c \<in> set (H' h)"
  then have c: "c \<in> set (H h)" using assms(5) by blast
  with old(3) assms(2) show "c < length hp'" by (fastforce simp: same_runners_def)
  have "inRunner (hp' ! c) = inRunner (hp ! c)" using old(3) [OF c] assms(2) by (simp add: same_runners_def)
  then show "EvStop (inRunner (hp' ! c)) \<notin> set tr'"
    using old(4) [OF c] assms(3) stops_0_iff by metis
  show "h = g" if "c \<in> set (H' g)" for g using that c assms(5) old(5) by blast
qed (use assms(3,4) held_okD(2) [OF assms(1)] in simp_all)

text \<open>The goroutine \<open>h\<close> takes over some of what \<open>g\<close> holds.\<close>

lemma held_ok_move:
  assumes "held_ok hp tr H" "H h = []" "g \<noteq> h"
    "H' g = map snd (filter P m)" "H' h = map snd (filter (\<lambda>e. \<not> P e) m)" "H g = map snd m"
    "\<And>k. k \<noteq> g \<Longrightarrow> k \<noteq> h \<Longrightarrow> H' k = H k"
  shows "held_ok hp tr H'"
proof -
  note old = held_okD [OF assms(1)]
  have dist: "distinct (map snd m)" using old(1) [of g] by (simp add: assms(6))
  have src: "c \<in> set (H k) \<or> k = h \<and> c \<in> set (H g)" if "c \<in> set (H' k)" for c k
    using that assms(4-7) by (cases "k = g"; cases "k = h") auto
  have apart: "set (H' g) \<inter> set (H' h) = {}"
    using dist by (auto simp: assms(4,5) distinct_map inj_on_def)
  show ?thesis
  proof (rule held_okI)
    show "distinct (H' k)" for k
      using dist old(1) [of k] assms(4,5,7)
      by (cases "k = g"; cases "k = h") (simp_all add: distinct_map_filter)
    fix k c assume c: "c \<in> set (H' k)"
    from src [OF c] old(3,4) show "c < length hp" "EvStop (inRunner (hp ! c)) \<notin> set tr" by blast+
    show "k = l" if l: "c \<in> set (H' l)" for l
    proof (rule ccontr)
      assume ne: "k \<noteq> l"
      from src [OF c] src [OF l] ne have "k = h \<and> c \<in> set (H g) \<or> l = h \<and> c \<in> set (H g)"
        using old(5) by blast
      then show False
      proof
        assume "k = h \<and> c \<in> set (H g)"
        with src [OF l] ne old(5) have "l = g" by blast
        with c l apart \<open>k = h \<and> c \<in> set (H g)\<close> show False by blast
      next
        assume "l = h \<and> c \<in> set (H g)"
        with src [OF c] ne old(5) have "k = g" by blast
        with c l apart \<open>l = h \<and> c \<in> set (H g)\<close> show False by blast
      qed
    qed
  qed (rule old(2))
qed

lemma held_ok_stop:
  assumes "held_ok hp tr H" "H h = c # H' h" "distinct (map inRunner hp)"
    "\<And>k. k \<noteq> h \<Longrightarrow> H' k = H k"
  shows "held_ok hp (EvStop (inRunner (hp ! c)) # tr) H'"
proof -
  note old = held_okD [OF assms(1)]
  have ch: "c \<in> set (H h)" using assms(2) by simp
  have sub: "set (H' k) \<subseteq> set (H k)" for k using assms(2,4) by (cases "k = h") auto
  have notc: "d \<noteq> c" if "d \<in> set (H' k)" for d k
  proof (cases "k = h")
    case True
    then show ?thesis using that old(1) [of h] by (auto simp: assms(2))
  next
    case False
    then show ?thesis using that old(5) [OF ch, of k] sub by blast
  qed
  have zero: "stops (inRunner (hp ! c)) tr = 0" using old(4) [OF ch] by (simp add: stops_0_iff)
  show ?thesis
  proof (rule held_okI)
    show "distinct (H' k)" for k using old(1) [of k] assms(2,4) by (cases "k = h") auto
    fix k d assume d: "d \<in> set (H' k)"
    then show "d < length hp" using old(3) sub by blast
    then have "inRunner (hp ! d) \<noteq> inRunner (hp ! c)"
      using nth_eq_iff_index_eq [OF assms(3), of d c] old(3) [OF ch] notc [OF d] by simp
    moreover have "EvStop (inRunner (hp ! d)) \<notin> set tr" using old(4) sub d by blast
    ultimately show "EvStop (inRunner (hp ! d)) \<notin> set (EvStop (inRunner (hp ! c)) # tr)" by simp
    show "k = l" if "d \<in> set (H' l)" for l using that d sub old(5) by blast
  qed (use zero old(2) in auto)
qed

lemma held_ok_new:
  assumes "held_ok hp tr H" "EvStop (inRunner I) \<notin> set tr"
    "H' g = H g @ [length hp]" "\<And>h. h \<noteq> g \<Longrightarrow> H' h = H h"
  shows "held_ok (hp @ [I]) tr H'"
proof -
  note old = held_okD [OF assms(1)]
  have mem: "c \<in> set (H h) \<or> h = g \<and> c = length hp" if "c \<in> set (H' h)" for c h
    using that assms(3,4) by (cases "h = g") auto
  show ?thesis
  proof (rule held_okI)
    show "distinct (H' h)" for h
      using old(1) [of h] old(3) [of _ g] assms(3,4) by (cases "h = g") force+
    fix h c assume c: "c \<in> set (H' h)"
    then show "c < length (hp @ [I])" using mem old(3) by fastforce
    from mem [OF c] show "EvStop (inRunner ((hp @ [I]) ! c)) \<notin> set tr"
      using old(3,4) assms(2) by (auto simp: nth_append)
    show "h = k" if "c \<in> set (H' k)" for k
      using mem [OF c] mem [OF that] old(3,5) by fastforce
  qed (rule old(2))
qed

definition all_held :: "Pool \<Rightarrow> bool" where
  "all_held P \<longleftrightarrow> held_ok (plHeap P) (wTrace (plWorld P)) (holds P)"

lemma holds_sel [simp]:
  "holds P None = map snd (plInstances P)"
  "holds (P\<lparr>plThreads := (plThreads P)(t \<mapsto> q)\<rparr>) (Some s) = (if s = t then pending q else holds P (Some s))"
  "plThreads P t = Some q \<Longrightarrow> holds P (Some t) = pending q"
  by (simp_all add: holds_def)

text \<open>What a step leaves to its goroutine and to the map, and all others what they hold.\<close>

lemma holds_after:
  assumes "thread_step E P q = Some (q', P')"
  shows "holds (P'\<lparr>plThreads := (plThreads P')(t \<mapsto> q')\<rparr>) (Some t) = pending q'"
    "holds (P'\<lparr>plThreads := (plThreads P')(t \<mapsto> q')\<rparr>) None = map snd (plInstances P')"
    "h \<noteq> None \<Longrightarrow> h \<noteq> Some t \<Longrightarrow> holds (P'\<lparr>plThreads := (plThreads P')(t \<mapsto> q')\<rparr>) h = holds P h"
  using thread_step_frame(1) [OF assms] by (cases h; simp add: holds_def)+

lemma all_held_run:
  assumes ok: "pool_ok own P" and held: "all_held P" and t: "plThreads P t = Some q"
    and st: "thread_step E P q = Some (q', P')"
  shows "all_held (P'\<lparr>plThreads := (plThreads P')(t \<mapsto> q')\<rparr>)"
proof -
  let ?hp = "plHeap P" and ?tr = "wTrace (plWorld P)" and ?Q = "P'\<lparr>plThreads := (plThreads P')(t \<mapsto> q')\<rparr>"
  have h: "held_ok ?hp ?tr (holds P)" using held by (simp add: all_held_def)
  have ht: "holds P (Some t) = pending q" using t by simp
  note after = holds_after [OF st, where t = t]
  have hs: "world_ok (plWorld P)" "distinct (map inRunner ?hp)"
    using ok by (simp_all add: pool_ok_def heap_sound_def view_def)
  have gr: "same_runners ?hp (plHeap P')"
    using thread_step_advances [OF _ _ _ st] ok t
    by (intro grows_runners) (auto simp: pool_ok_def advances_def)
  have stay: "all_held ?Q" if "pending q' = pending q \<or> pending q = c # pending q'"
    "plInstances P' = plInstances P" "\<And>r. stops r (wTrace (plWorld P')) = stops r ?tr" for c
    unfolding all_held_def
  proof -
    have each: "distinct (holds ?Q k) \<and> set (holds ?Q k) \<subseteq> set (holds P k)" for k
    proof -
      consider "k = None" | "k = Some t" | "k \<noteq> None" "k \<noteq> Some t" by blast
      then show ?thesis
      proof cases
        case 1
        with that(2) after(2) held_okD(1) [OF h, of None] show ?thesis by simp
      next
        case 2
        with that(1) after(1) ht held_okD(1) [OF h, of "Some t"] show ?thesis by auto
      next
        case 3
        with after(3) [of k] held_okD(1) [OF h, of k] show ?thesis by simp
      qed
    qed
    have "same_runners ?hp (plHeap ?Q)" using gr by simp
    from held_ok_mono [OF h this, of "wTrace (plWorld ?Q)" "holds ?Q"] each that(3)
    show "held_ok (plHeap ?Q) (wTrace (plWorld ?Q)) (holds ?Q)" by simp
  qed
  show ?thesis
    using st
  proof (cases rule: thread_step_cases)
    case (fresh i x now)
    have "EvStop (wNext (plWorld P)) \<notin> set ?tr" using hs(1) by (auto simp: world_ok_def)
    then have ev: "EvStop (inRunner ((built (wNext (plWorld P)))\<lparr>inLastUsed := now\<rparr>)) \<notin> set ?tr"
      by (simp add: built_def)
    have "holds ?Q None = holds P None @ [length ?hp]"
      using fresh after(2) by (simp add: view_def map_set_new)
    moreover have "holds ?Q k = holds P k" if "k \<noteq> None" for k
      using after(1) after(3) [OF that] ht fresh(1,2) by (cases "k = Some t") simp_all
    ultimately have "held_ok (?hp @ [(built (wNext (plWorld P)))\<lparr>inLastUsed := now\<rparr>]) ?tr (holds ?Q)"
      by (rule held_ok_new [OF h ev])
    then have new: "held_ok (plHeap P') ?tr (holds ?Q)" using fresh by (simp add: view_def)
    have "held_ok (plHeap P') (wTrace (plWorld P')) (holds ?Q)"
      by (rule held_ok_mono [OF new _ _ held_okD(1) [OF new]])
        (use fresh in \<open>simp_all add: view_def same_runners_def\<close>)
    then show ?thesis by (simp add: all_held_def)
  next
    case (collect keep)
    have "holds P (Some t) = []" "holds ?Q None = map snd (filter keep (plInstances P))"
      "holds ?Q (Some t) = map snd (filter (\<lambda>e. \<not> keep e) (plInstances P))"
      using collect after(1,2) ht by (simp_all add: view_def)
    from held_ok_move [OF h this(1) _ this(2,3) holds_sel(1) after(3)]
    have "held_ok ?hp ?tr (holds ?Q)" by simp
    with collect show ?thesis by (simp add: all_held_def view_def)
  next
    case (stop c)
    have "holds P (Some t) = c # holds ?Q (Some t)" using stop(3) after(1) ht by simp
    moreover have "holds ?Q k = holds P k" if "k \<noteq> Some t" for k
      using after(2) after(3) [OF _ that] stop(5) by (cases "k = None") (simp_all add: view_def)
    ultimately have "held_ok ?hp (EvStop (inRunner (?hp ! c)) # ?tr) (holds ?Q)"
      by (rule held_ok_stop [OF h _ hs(2)])
    with stop show ?thesis by (simp add: all_held_def view_def)
  next
    case quiet
    then show ?thesis by (intro stay) (simp_all add: view_def)
  next
    case known
    then show ?thesis by (intro stay) (simp_all add: view_def)
  next
    case fired
    then show ?thesis by (intro stay) (simp_all add: view_def)
  next
    case fire
    then show ?thesis by (intro stay) (simp_all add: view_def)
  next
    case finish
    then show ?thesis by (intro stay) (simp_all add: view_def)
  next
    case check
    then show ?thesis by (intro stay) (simp_all add: view_def)
  next
    case (skip c)
    then show ?thesis by (intro stay [of c]) (simp_all add: view_def)
  qed
qed

section \<open>Reachable pools\<close>

definition closed_empty :: "Pool \<Rightarrow> bool" where
  "closed_empty P \<longleftrightarrow> (plClosed P \<longrightarrow> plInstances P = [])"

lemma thread_step_closed:
  assumes "closed_empty P" "thread_step E P q = Some (q', P')"
  shows "closed_empty P'"
proof -
  have "for_locked E P i = (q', P') \<Longrightarrow> closed_empty P'" for i
  proof (cases rule: for_locked_cases [of E P i])
    case (fresh x now)
    assume "for_locked E P i = (q', P')"
    moreover have "\<not> plClosed P"
    proof
      assume "plClosed P"
      with fresh(2) show False by (simp add: for_locked_def)
    qed
    ultimately show ?thesis using fresh by (auto simp: closed_empty_def)
  qed (use assms(1) in \<open>auto simp: closed_empty_def\<close>)
  then have "for_thread E P q = Some (q', P') \<Longrightarrow> closed_empty P'"
    using assms(1)
    by (cases q) (auto simp: closed_empty_def runner_Start_def split: once.splits sum.splits)
  moreover have "evict_thread E P q = Some (q', P') \<Longrightarrow> closed_empty P'"
    using assms(1) by (cases rule: evict_thread.cases [of "(E, P, q)"])
      (auto simp: closed_empty_def stop_one_def case_prod_beta Let_def split: if_splits)
  moreover have "close_thread E P q = Some (q', P') \<Longrightarrow> closed_empty P'"
    using assms(1) by (cases rule: close_thread.cases [of "(E, P, q)"])
      (auto simp: closed_empty_def stop_one_def case_prod_beta Let_def split: if_splits)
  ultimately show ?thesis using assms(2) by (auto simp: thread_step_def split: option.splits)
qed

text \<open>An instance whose start is under way has a goroutine in that start.\<close>

definition busy_started :: "Pool \<Rightarrow> bool" where
  "busy_started P \<longleftrightarrow> (\<forall>c < length (plHeap P). inOnce (plHeap P ! c) = Busy \<longrightarrow>
    (\<exists>t i a. plThreads P t = Some (ForStarting i c a)))"

definition reach_ok :: "Pool \<Rightarrow> bool" where
  "reach_ok P \<longleftrightarrow> (\<exists>own. pool_ok own P) \<and> all_held P \<and> closed_empty P \<and> busy_started P"

lemma busy_started_run:
  assumes ok: "pool_ok own P" and busy: "busy_started P" and t: "plThreads P t = Some q"
    and st: "thread_step E P q = Some (q', P')"
  shows "busy_started (P'\<lparr>plThreads := (plThreads P')(t \<mapsto> q')\<rparr>)"
  unfolding busy_started_def
proof (intro allI impI)
  let ?Q = "P'\<lparr>plThreads := (plThreads P')(t \<mapsto> q')\<rparr>"
  fix c assume c: "c < length (plHeap ?Q)" "inOnce (plHeap ?Q ! c) = Busy"
  have pend: "d < length (plHeap P)" if "refers q = Some (i, d)" for i d
    using ok t that by (auto simp: pool_ok_def thread_sound_def)
  have old: "\<exists>s i a. plThreads ?Q s = Some (ForStarting i c a)" if "c < length (plHeap P)" "inOnce (plHeap P ! c) = Busy" "\<And>i a. q \<noteq> ForStarting i c a"
  proof -
    from busy that(1,2) obtain s i a where s: "plThreads P s = Some (ForStarting i c a)"
      unfolding busy_started_def by blast
    with that(3) [of i a] t have "s \<noteq> t" by auto
    with s show ?thesis using thread_step_frame(1) [OF st] by (intro exI [of _ s]) auto
  qed
  have other: "\<exists>s i a. plThreads ?Q s = Some (ForStarting i c a)"
    if "plHeap P' = plHeap P" "\<And>i a. q \<noteq> ForStarting i c a"
    using c that by (intro old) simp_all
  show "\<exists>s i a. plThreads ?Q s = Some (ForStarting i c a)"
    using st
  proof (cases rule: thread_step_cases)
    case (known i d now)
    with c have "c < length (plHeap P) \<and> inOnce (plHeap P ! c) = Busy"
      by (cases "c = d") (auto simp: view_def)
    with old known(1) show ?thesis by simp
  next
    case (fresh i x now)
    with c have "c < length (plHeap P) \<and> inOnce (plHeap P ! c) = Busy"
      by (cases "c = length (plHeap P)") (auto simp: view_def built_def nth_append)
    with old fresh(1) show ?thesis by simp
  next
    case (fire i d a)
    show ?thesis
    proof (cases "c = d")
      case True
      with fire(2) show ?thesis by (intro exI [of _ t]) simp
    next
      case False
      with fire c old show ?thesis by (simp add: view_def)
    qed
  next
    case (finish i d a I)
    show ?thesis
    proof (cases "c = d")
      case True
      with finish c have "inOnce I = Busy" by (simp add: view_def)
      with finish(3) show ?thesis by (auto simp: settled_def)
    next
      case False
      with finish c old show ?thesis by (simp add: view_def)
    qed
  next
    case quiet
    show ?thesis by (rule other) (use quiet in \<open>auto simp: view_def\<close>)
  next
    case (collect keep)
    show ?thesis by (rule other) (use collect in \<open>auto simp: view_def\<close>)
  next
    case (skip d)
    show ?thesis by (rule other) (use skip in \<open>auto simp: view_def\<close>)
  next
    case (stop d)
    show ?thesis by (rule other) (use stop in \<open>auto simp: view_def\<close>)
  next
    case fired
    show ?thesis by (rule other) (use fired in \<open>auto simp: view_def\<close>)
  next
    case check
    show ?thesis by (rule other) (use check in \<open>auto simp: view_def\<close>)
  qed
qed

lemma spawn_holds:
  assumes "plThreads P t = None"
  shows "holds (P\<lparr>plThreads := (plThreads P)(t \<mapsto> pool_entry x)\<rparr>) = holds P"
proof
  fix h show "holds (P\<lparr>plThreads := (plThreads P)(t \<mapsto> pool_entry x)\<rparr>) h = holds P h"
    using assms by (cases h; cases x) (auto simp: holds_def)
qed

lemma act_cases:
  assumes "act E a P = Some P'"
  obtains (spawn) t x where "plThreads P t = None"
      "P' = P\<lparr>plThreads := (plThreads P)(t \<mapsto> pool_entry x)\<rparr>"
  | (run) t q q' Q where "a = Advance t" "plThreads P t = Some q" "thread_step E P q = Some (q', Q)"
      "P' = Q\<lparr>plThreads := (plThreads Q)(t \<mapsto> q')\<rparr>"
  using assms by (cases a) (auto split: if_splits option.splits)

lemma reach_ok_act:
  assumes "reach_ok P" "act E a P = Some P'"
  shows "reach_ok P'"
proof -
  from assms(1) obtain own where ok: "pool_ok own P" and rest: "all_held P" "closed_empty P" "busy_started P"
    by (auto simp: reach_ok_def)
  have 1: "\<exists>own. pool_ok own P'" by (rule pool_ok_act [OF ok assms(2)])
  show ?thesis
    using assms(2)
  proof (cases rule: act_cases)
    case (spawn t x)
    with rest(1) have "all_held P'" by (simp add: all_held_def spawn_holds)
    moreover have "busy_started P'"
      unfolding busy_started_def
    proof (intro allI impI)
      fix c assume "c < length (plHeap P')" "inOnce (plHeap P' ! c) = Busy"
      with spawn(2) rest(3) obtain s i b where "plThreads P s = Some (ForStarting i c b)"
        by (auto simp: busy_started_def)
      with spawn show "\<exists>s i b. plThreads P' s = Some (ForStarting i c b)"
        by (intro exI [of _ s]) auto
    qed
    ultimately show ?thesis using 1 rest(2) spawn(2) by (simp add: reach_ok_def closed_empty_def)
  next
    case (run t q q' Q)
    from all_held_run [OF ok rest(1) run(2,3)] busy_started_run [OF ok rest(3) run(2,3)]
      thread_step_closed [OF rest(2) run(3)] 1 run(4)
    show ?thesis by (simp add: reach_ok_def closed_empty_def)
  qed
qed

lemma reach_ok_exec: "reach_ok P \<Longrightarrow> pool_exec E xs P = Some P' \<Longrightarrow> reach_ok P'"
  by (rule pool_exec_invariant [where J = reach_ok], assumption+) (rule reach_ok_act)

lemma reach_ok_warmed:
  assumes "warmed E b share w0 p w"
  shows "reach_ok (threaded p w)"
proof -
  have "all_held (threaded p w) \<and> closed_empty (threaded p w) \<and> busy_started (threaded p w)"
    using assms
  proof (cases rule: warmed_cases)
    case (1 c caps)
    then show ?thesis
      by (auto simp: all_held_def closed_empty_def busy_started_def threaded_def instance_of_def
          holds_def held_ok_def split: option.splits)
  qed
  with pool_ok_warmed(1) [OF assms] show ?thesis by (simp add: reach_ok_def)
qed

section \<open>What is stopped and what is not\<close>

text \<open>How the holders of an instance change: it stays held, or its holder has dealt with it.\<close>

lemma held_step:
  assumes t: "plThreads P t = Some q" and st: "thread_step E P q = Some (q', P')" and c: "c \<in> set (holds P h)"
  shows "(\<exists>g. c \<in> set (holds (P'\<lparr>plThreads := (plThreads P')(t \<mapsto> q')\<rparr>) g))
    \<or> \<not> inStarted (plHeap P ! c) \<or> EvStop (inRunner (plHeap P ! c)) \<in> set (wTrace (plWorld P'))"
proof -
  let ?Q = "P'\<lparr>plThreads := (plThreads P')(t \<mapsto> q')\<rparr>"
  note after = holds_after [OF st, where t = t]
  have ht: "holds P (Some t) = pending q" using t by simp
  consider (other) "h \<noteq> None" "h \<noteq> Some t" | (pool) "h = None" | (mine) "h = Some t" by blast
  then show ?thesis
  proof cases
    case other
    from after(3) [OF other] have "holds ?Q h = holds P h" .
    with c have "c \<in> set (holds ?Q h)" by (rule ssubst [rotated])
    then show ?thesis by blast
  next
    case pool
    have same: ?thesis if "plInstances P' = plInstances P"
    proof -
      have "c \<in> set (holds ?Q None)" using that c pool after(2) by simp
      then show ?thesis by blast
    qed
    show ?thesis
      using st
    proof (cases rule: thread_step_cases)
      case (collect keep)
      with c pool have "c \<in> set (holds ?Q None) \<or> c \<in> set (holds ?Q (Some t))"
        using after(1,2) by (auto simp: view_def)
      then show ?thesis by blast
    next
      case (fresh i x now)
      with c pool have "c \<in> set (holds ?Q None)" using after(2) by (auto simp: view_def map_set_new)
      then show ?thesis by blast
    qed (use same in \<open>simp_all add: view_def\<close>)
  next
    case mine
    have keep: ?thesis if "pending q' = pending q"
    proof -
      have "c \<in> set (holds ?Q (Some t))" using that c mine ht after(1) by simp
      then show ?thesis by blast
    qed
    have pop: "c = d \<or> ?thesis" if "pending q = d # pending q'" for d
    proof (cases "c = d")
      case False
      then have "c \<in> set (holds ?Q (Some t))" using that c mine ht after(1) by simp
      then show ?thesis by blast
    qed simp
    have none: "pending q \<noteq> []" using c mine ht by auto
    show ?thesis
      using st
    proof (cases rule: thread_step_cases)
      case (skip d)
      with pop [of d] show ?thesis by auto
    next
      case (stop d)
      with pop [of d] show ?thesis by (auto simp: view_def)
    qed (use keep none in auto)
  qed
qed

text \<open>An instance that has started and is held, or has been stopped: every step keeps it so.\<close>

definition tracked :: "inst_ref \<Rightarrow> runner_id \<Rightarrow> Pool \<Rightarrow> bool" where
  "tracked c r P \<longleftrightarrow> c < length (plHeap P) \<and> inRunner (plHeap P ! c) = r \<and> inStarted (plHeap P ! c)
    \<and> ((\<exists>h. c \<in> set (holds P h)) \<or> EvStop r \<in> set (wTrace (plWorld P)))"

lemma run_advances:
  assumes "reach_ok P" "plThreads P t = Some q" "thread_step E P q = Some (q', P')"
  shows "advances P q' P'"
  using assms(1,2) thread_step_advances [OF _ _ _ assms(3)] by (auto simp: reach_ok_def pool_ok_def)

lemma trace_grows:
  assumes "thread_step E P q = Some (q', P')"
  shows "set (wTrace (plWorld P)) \<subseteq> set (wTrace (plWorld P'))"
  using assms by (cases rule: thread_step_cases) (auto simp: view_def)

lemma act_trace_grows:
  assumes "act E a P = Some P'"
  shows "set (wTrace (plWorld P)) \<subseteq> set (wTrace (plWorld P'))"
  using assms
proof (cases rule: act_cases)
  case (run t q q' Q)
  with trace_grows [OF run(3)] show ?thesis by simp
qed auto

lemma tracked_act:
  assumes "reach_ok P" "tracked c r P" "act E a P = Some P'"
  shows "tracked c r P'"
  using assms(3)
proof (cases rule: act_cases)
  case (spawn t x)
  with assms(2) show ?thesis by (simp add: tracked_def spawn_holds)
next
  case (run t q q' Q)
  note tr = assms(2) [unfolded tracked_def]
  have gr: "grows (plHeap P) (plHeap Q)"
    using run_advances [OF assms(1) run(2,3)] by (simp add: advances_def)
  have "c < length (plHeap Q)" "inRunner (plHeap Q ! c) = r" "inStarted (plHeap Q ! c)"
    using gr tr by (auto simp: grows_def)
  moreover have "(\<exists>h. c \<in> set (holds P' h)) \<or> EvStop r \<in> set (wTrace (plWorld Q))"
  proof (cases "EvStop r \<in> set (wTrace (plWorld P))")
    case True
    then show ?thesis using trace_grows [OF run(3)] by blast
  next
    case False
    with tr obtain h where "c \<in> set (holds P h)" by blast
    from held_step [OF run(2,3) this] tr show ?thesis unfolding run(4) by blast
  qed
  ultimately show ?thesis unfolding tracked_def run(4) by simp
qed

text \<open>An instance nobody holds any more, which has not been stopped, never will be.\<close>

definition dropped :: "inst_ref \<Rightarrow> runner_id \<Rightarrow> Pool \<Rightarrow> bool" where
  "dropped c r P \<longleftrightarrow> c < length (plHeap P) \<and> inRunner (plHeap P ! c) = r
    \<and> (\<forall>h. c \<notin> set (holds P h)) \<and> EvStop r \<notin> set (wTrace (plWorld P))"

lemma dropped_act:
  assumes "reach_ok P" "dropped c r P" "act E a P = Some P'"
  shows "dropped c r P'"
  using assms(3)
proof (cases rule: act_cases)
  case (spawn t x)
  with assms(2) show ?thesis by (simp add: dropped_def spawn_holds)
next
  case (run t q q' Q)
  note dr = assms(2) [unfolded dropped_def]
  note after = holds_after [OF run(3), where t = t]
  have ht: "holds P (Some t) = pending q" using run(2) by simp
  have gr: "grows (plHeap P) (plHeap Q)"
    using run_advances [OF assms(1) run(2,3)] by (simp add: advances_def)
  have none: "c \<notin> set (holds P h)" for h using dr by blast
  have free: "c \<notin> set (pending q)" "c \<notin> set (map snd (plInstances P))"
      "EvStop r \<notin> set (wTrace (plWorld P))"
    using none [of "Some t"] none [of None] dr ht by simp_all
  have own: "c \<notin> set (pending q') \<and> c \<notin> set (map snd (plInstances Q)) \<and> EvStop r \<notin> set (wTrace (plWorld Q))"
    using run(3)
  proof (cases rule: thread_step_cases)
    case (stop d)
    have "d \<in> set (holds P (Some t))" using stop(3) ht by simp
    moreover from assms(1) have "held_ok (plHeap P) (wTrace (plWorld P)) (holds P)"
      by (simp add: reach_ok_def all_held_def)
    ultimately have d: "d < length (plHeap P)" "d \<noteq> c" using held_okD(3) dr by blast+
    moreover have "distinct (map inRunner (plHeap P))"
      using assms(1) by (auto simp: reach_ok_def pool_ok_def heap_sound_def view_def)
    ultimately have "inRunner (plHeap P ! d) \<noteq> r"
      using nth_eq_iff_index_eq [of "map inRunner (plHeap P)" d c] dr by simp
    then show ?thesis using stop free by (simp add: view_def)
  next
    case (collect keep)
    with free show ?thesis by (auto simp: view_def)
  next
    case (fresh i x now)
    with free dr show ?thesis by (auto simp: view_def map_set_new)
  qed (use free in \<open>auto simp: view_def\<close>)
  have "c \<notin> set (holds P' h)" for h
  proof -
    consider "h = None" | "h = Some t" | "h \<noteq> None" "h \<noteq> Some t" by blast
    then show ?thesis
    proof cases
      case 3
      from after(3) [OF 3] dr show ?thesis by (simp only: run(4)) simp
    qed (use own after(1,2) run(4) in simp_all)
  qed
  with gr dr own show ?thesis unfolding dropped_def by (simp add: run(4) grows_def)
qed

text \<open>C18. No process is stopped twice, whatever lookups, evictions and closes interleave; and when the pool
  has been closed and every eviction and close has come to its end, each runner that was at some
  moment kept in the pool with its start completed has been stopped.\<close>

theorem interleaved_stops:
  assumes "warmed E b share w0 p w" "pool_exec E xs (threaded p w) = Some P" "pool_exec E ys P = Some P'"
  shows "stops r (wTrace (plWorld P')) \<le> 1
    \<and> ((k, c) \<in> set (plInstances P) \<and> inStarted (plHeap P ! c) \<and> plClosed P'
        \<and> (\<forall>t q. plThreads P' t = Some q \<longrightarrow> pending q = [])
      \<longrightarrow> stops (inRunner (plHeap P ! c)) (wTrace (plWorld P')) = 1)"
proof -
  have P: "reach_ok P" by (rule reach_ok_exec [OF reach_ok_warmed [OF assms(1)] assms(2)])
  then have P': "reach_ok P'" by (rule reach_ok_exec [OF _ assms(3)])
  then have le: "stops r (wTrace (plWorld P')) \<le> 1" for r
    using held_okD(2) by (auto simp: reach_ok_def all_held_def)
  have "EvStop (inRunner (plHeap P ! c)) \<in> set (wTrace (plWorld P'))"
    if m: "(k, c) \<in> set (plInstances P)" "inStarted (plHeap P ! c)" "plClosed P'"
      "\<forall>t q. plThreads P' t = Some q \<longrightarrow> pending q = []"
  proof -
    let ?J = "\<lambda>Q. reach_ok Q \<and> tracked c (inRunner (plHeap P ! c)) Q"
    have "c \<in> set (holds P None)" using m(1) by force
    moreover have "c < length (plHeap P)"
      using P m(1) by (auto simp: reach_ok_def pool_ok_def map_sound_def view_def)
    ultimately have "?J P" using P m(2) unfolding tracked_def by blast
    then have "?J P'"
      by (rule pool_exec_invariant [where J = ?J, OF _ assms(3)]) (use reach_ok_act tracked_act in blast)
    moreover have "holds P' h = []" for h
      using m(3,4) P' by (cases h) (auto simp: holds_def reach_ok_def closed_empty_def split: option.splits)
    ultimately show ?thesis by (simp add: tracked_def)
  qed
  then have "stops (inRunner (plHeap P ! c)) (wTrace (plWorld P')) = 1"
    if "(k, c) \<in> set (plInstances P) \<and> inStarted (plHeap P ! c) \<and> plClosed P'
      \<and> (\<forall>t q. plThreads P' t = Some q \<longrightarrow> pending q = [])"
    using that le stops_0_iff by (metis le_antisym less_one linorder_not_less)
  with le show ?thesis by blast
qed

text \<open>C21. A start that is under way when its instance leaves the pool leaks its process: if no map entry and
  no eviction or close still holds the instance whose runner a goroutine is starting, then the runner
  has been started and, in every continuation, is never stopped; and when the start succeeds the
  goroutine's next two steps hand it out, even from a closed pool.\<close>

theorem start_in_flight_leaks:
  assumes "warmed E b share w0 p w" "pool_exec E xs (threaded p w) = Some P"
    "plThreads P t = Some (ForStarting i c (Inr caps))" "\<forall>h. c \<notin> set (holds P h)"
    "EvStop (inRunner (plHeap P ! c)) \<notin> set (wTrace (plWorld P))"
    "pool_exec E ys P = Some P'"
  shows "EvStart (inRunner (plHeap P ! c)) \<in> set (wTrace (plWorld P'))
    \<and> EvStop (inRunner (plHeap P ! c)) \<notin> set (wTrace (plWorld P'))
    \<and> (\<exists>P''. pool_exec E [Advance t, Advance t] P = Some P''
        \<and> plThreads P'' t = Some (ForReturn i (Inr (inRunner (plHeap P ! c)))))"
proof -
  let ?r = "inRunner (plHeap P ! c)"
  have P: "reach_ok P" by (rule reach_ok_exec [OF reach_ok_warmed [OF assms(1)] assms(2)])
  then obtain own where ok: "pool_ok own P" by (auto simp: reach_ok_def)
  then have c: "c < length (plHeap P)" "inOnce (plHeap P ! c) = Busy"
    using assms(3) by (auto simp: pool_ok_def thread_sound_def)
  have sound: "inst_sound (plWorld P) (plHeap P ! c)"
    using ok c(1) by (simp add: pool_ok_def heap_sound_def view_def)
  then have "starts ?r (wTrace (plWorld P)) = 1" "inStartErr (plHeap P ! c) = None"
    using c(2) by (simp_all add: inst_sound_def)
  then have ev: "EvStart ?r \<in> set (wTrace (plWorld P))" using starts_0_iff by (metis zero_neq_one)
  let ?J = "\<lambda>Q. reach_ok Q \<and> dropped c ?r Q \<and> EvStart ?r \<in> set (wTrace (plWorld Q))"
  have start: "?J P" using P c(1) assms(4,5) ev by (simp add: dropped_def)
  have step: "?J Q'" if "?J Q" "act E a Q = Some Q'" for a Q Q'
  proof -
    have "EvStart ?r \<in> set (wTrace (plWorld Q'))"
      using that(1) act_trace_grows [OF that(2)] by blast
    with that reach_ok_act dropped_act show ?thesis by blast
  qed
  have "?J P'"
    by (rule pool_exec_invariant [where J = ?J, OF start assms(6)]) (rule step)
  moreover have "\<exists>P''. pool_exec E [Advance t, Advance t] P = Some P''
      \<and> plThreads P'' t = Some (ForReturn i (Inr ?r))"
    using assms(3) c(1) \<open>inStartErr (plHeap P ! c) = None\<close> by (simp add: thread_step_def)
  ultimately show ?thesis by (simp add: dropped_def)
qed

text \<open>No goroutine waits for ever on another that waits: in every reachable state a goroutine whose method
  has not returned can take its next step, or it waits for a start of its instance and the goroutine
  in that start can take its own.\<close>

theorem pool_never_deadlocks:
  assumes "warmed E b share w0 p w" "pool_exec E xs (threaded p w) = Some P"
    "plThreads P t = Some q" "\<forall>i res n err. q \<notin> {ForReturn i res, EvictReturn n, CloseReturn err}"
  shows "act E (Advance t) P \<noteq> None
    \<or> (\<exists>i c s j a. q = ForOnce i c \<and> plThreads P s = Some (ForStarting j c a) \<and> act E (Advance s) P \<noteq> None)"
proof -
  have P: "reach_ok P" by (rule reach_ok_exec [OF reach_ok_warmed [OF assms(1)] assms(2)])
  have starting: "act E (Advance s) P \<noteq> None" if "plThreads P s = Some (ForStarting j c a)" for s j c a
    using that by (cases a) (simp_all add: thread_step_def)
  have "thread_step E P q \<noteq> None \<or> (\<exists>i c s j a. q = ForOnce i c \<and> plThreads P s = Some (ForStarting j c a))"
  proof (cases q)
    case (ForOnce i c)
    show ?thesis
    proof (cases "inOnce (plHeap P ! c)")
      case Busy
      have "c < length (plHeap P)" using P assms(3) ForOnce
        by (auto simp: reach_ok_def pool_ok_def thread_sound_def)
      with P Busy ForOnce show ?thesis by (auto simp: reach_ok_def busy_started_def)
    qed (use ForOnce in \<open>simp_all add: thread_step_def case_prod_beta\<close>)
  next
    case (ForStarting i c a)
    then show ?thesis by (cases a) (simp_all add: thread_step_def)
  next
    case (EvictStops cs n)
    then show ?thesis by (cases cs) (simp_all add: thread_step_def)
  next
    case (CloseStops kcs e)
    then show ?thesis by (cases kcs) (auto simp: thread_step_def case_prod_beta Let_def)
  qed (use assms(4) in \<open>auto simp: thread_step_def Let_def\<close>)
  then show ?thesis
  proof
    assume "thread_step E P q \<noteq> None"
    then show ?thesis using assms(3) by auto
  next
    assume "\<exists>i c s j a. q = ForOnce i c \<and> plThreads P s = Some (ForStarting j c a)"
    with starting show ?thesis by blast
  qed
qed

end
