(* ===== verification/PoolAlone.thy ===== *)
theory PoolAlone
  imports PoolStops
begin

text \<open>
  The machine of goroutines against the methods as \<open>RunnerPool\<close> has them: from any reachable state
  in which no start is under way in the pool, a method whose goroutine runs to its end without
  another one in between does exactly what the one-step method does.
\<close>

section \<open>The sequential pool of a state\<close>

definition pooled :: "Instance \<Rightarrow> pooledInstance" where
  "pooled I = \<lparr>piRunner = inRunner I, piFired = (inOnce I \<noteq> Unfired), piStartErr = inStartErr I,
     piStarted = inStarted I, piLastUsed = inLastUsed I\<rparr>"

definition unthread :: "Pool \<Rightarrow> RunnerPool" where
  "unthread P = \<lparr>poBackend = plBackend P, poShareSafe = plShareSafe P,
     poInstances = map (\<lambda>(k, c). (k, pooled (plHeap P ! c))) (plInstances P),
     poCachedCaps = None, poClosed = plClosed P\<rparr>"

lemma pooled_sel [simp]:
  "piRunner (pooled I) = inRunner I" "piFired (pooled I) = (inOnce I \<noteq> Unfired)"
  "piStartErr (pooled I) = inStartErr I" "piStarted (pooled I) = inStarted I"
  "piLastUsed (pooled I) = inLastUsed I"
  by (simp_all add: pooled_def)

lemma unthread_sel [simp]:
  "poBackend (unthread P) = plBackend P" "poShareSafe (unthread P) = plShareSafe P"
  "poInstances (unthread P) = map (\<lambda>(k, c). (k, pooled (plHeap P ! c))) (plInstances P)"
  "poClosed (unthread P) = plClosed P"
  "unthread (P\<lparr>plThreads := ths\<rparr>) = unthread P"
  by (simp_all add: unthread_def)

lemma PartitionKey_unthread [simp]: "PartitionKey (unthread P) = pool_key P"
  using PartitionKey_mode [of "unthread P"] by (simp add: pool_key_def)

text \<open>Writing one instance of the heap is writing its entry in the map.\<close>

lemmas unthread_write = map_write [where f = pooled]

section \<open>Alone\<close>

text \<open>A method's result, its pool and its world, as the one-step methods have them.\<close>

fun pool_method :: "Env \<Rightarrow> RunnerPool \<Rightarrow> World \<Rightarrow> pool_op \<Rightarrow> pool_pc \<times> RunnerPool \<times> World" where
  "pool_method E p w (ForOp i) = (let (res, p', w') = RunnerFor E w (Some p) i in (ForReturn i res, the p', w'))"
| "pool_method E p w (EvictOp t) = (let (n, p', w') = EvictIdle E w (Some p) t in (EvictReturn n, the p', w'))"
| "pool_method E p w CloseOp = (let (e, p', w') = pool_Close E w (Some p) in (CloseReturn e, the p', w'))"

definition ends_as :: "Env \<Rightarrow> nat \<Rightarrow> Pool \<Rightarrow> pool_pc \<times> RunnerPool \<times> World \<Rightarrow> bool" where
  "ends_as E t P res \<longleftrightarrow> (\<exists>n P'. pool_exec E (replicate n (Advance t)) P = Some P'
    \<and> plThreads P' t = Some (fst res) \<and> unthread P' = fst (snd res) \<and> plWorld P' = snd (snd res))"

lemma ends_as_done:
  "plThreads P t = Some (fst res) \<Longrightarrow> unthread P = fst (snd res) \<Longrightarrow> plWorld P = snd (snd res)
    \<Longrightarrow> ends_as E t P res"
  unfolding ends_as_def by (intro exI [of _ 0] exI [of _ P]) simp

lemma ends_as_step:
  assumes "plThreads P t = Some q" "thread_step E P q = Some (q', P')"
    "ends_as E t (P'\<lparr>plThreads := (plThreads P')(t \<mapsto> q')\<rparr>) res"
  shows "ends_as E t P res"
proof -
  from assms(3) obtain n Q where "pool_exec E (replicate n (Advance t)) (P'\<lparr>plThreads := (plThreads P')(t \<mapsto> q')\<rparr>) = Some Q"
    "plThreads Q t = Some (fst res)" "unthread Q = fst (snd res)" "plWorld Q = snd (snd res)"
    unfolding ends_as_def by blast
  with assms(1,2) show ?thesis
    unfolding ends_as_def by (intro exI [of _ "Suc n"] exI [of _ Q]) simp
qed

lemma evict_alone:
  assumes "plThreads P t = Some (EvictStops cs n)"
  shows "ends_as E t P (EvictReturn n, unthread P,
    stop_started E (plWorld P) (map (\<lambda>c. pooled (plHeap P ! c)) cs))"
  using assms
proof (induction cs arbitrary: P)
  case Nil
  then show ?case
    by (intro ends_as_step [OF Nil]) (auto simp: thread_step_def intro: ends_as_done)
next
  case (Cons c cs)
  let ?P = "if inStarted (plHeap P ! c) then snd (stop_one E P c) else P"
  let ?Q = "?P\<lparr>plThreads := (plThreads ?P)(t \<mapsto> EvictStops cs n)\<rparr>"
  have step: "thread_step E P (EvictStops (c # cs) n) = Some (EvictStops cs n, ?P)"
    by (simp add: thread_step_def)
  have same: "plHeap ?Q = plHeap P" "unthread ?Q = unthread P"
    "plWorld ?Q = (if inStarted (plHeap P ! c) then snd (runner_Stop E (plWorld P) (inRunner (plHeap P ! c)))
      else plWorld P)"
    by (simp_all add: stop_one_def case_prod_beta unthread_def)
  have "plThreads ?Q t = Some (EvictStops cs n)" by simp
  from Cons.IH [OF this] have "ends_as E t ?Q (EvictReturn n, unthread P,
      stop_started E (plWorld P) (map (\<lambda>c. pooled (plHeap P ! c)) (c # cs)))"
    by (simp only: same list.map stop_started.simps pooled_sel)
  then show ?case by (rule ends_as_step [OF Cons.prems step])
qed

lemma close_alone:
  assumes "plThreads P t = Some (CloseStops kcs err)"
  shows "ends_as E t P (case close_loop E (plWorld P) (map (\<lambda>(k, c). (k, pooled (plHeap P ! c))) kcs) err of
    (e, w) \<Rightarrow> (CloseReturn e, unthread P, w))"
  using assms
proof (induction kcs arbitrary: P err)
  case Nil
  then show ?case
    by (intro ends_as_step [OF Nil]) (auto simp: thread_step_def intro: ends_as_done)
next
  case (Cons kc kcs)
  obtain k c where kc: "kc = (k, c)" by (cases kc)
  show ?case
  proof (cases "inStarted (plHeap P ! c)")
    case False
    let ?Q = "P\<lparr>plThreads := (plThreads P)(t \<mapsto> CloseStops kcs err)\<rparr>"
    have step: "thread_step E P (CloseStops (kc # kcs) err) = Some (CloseStops kcs err, P)"
      using False by (simp add: thread_step_def kc)
    have "plThreads ?Q t = Some (CloseStops kcs err)" by simp
    from Cons.IH [OF this] False show ?thesis
      by (intro ends_as_step [OF Cons.prems step]) (simp add: kc)
  next
    case True
    obtain e w where st: "runner_Stop E (plWorld P) (inRunner (plHeap P ! c)) = (e, w)"
      by (cases "runner_Stop E (plWorld P) (inRunner (plHeap P ! c))")
    let ?err = "case (e, err) of (Some e, None) \<Rightarrow> Some (''stop '' @ k @ '': '' @ e) | _ \<Rightarrow> err"
    let ?P = "P\<lparr>plWorld := w\<rparr>"
    let ?Q = "?P\<lparr>plThreads := (plThreads ?P)(t \<mapsto> CloseStops kcs ?err)\<rparr>"
    have step: "thread_step E P (CloseStops (kc # kcs) err) = Some (CloseStops kcs ?err, ?P)"
      using True st by (simp add: thread_step_def kc stop_one_def)
    have "plThreads ?Q t = Some (CloseStops kcs ?err)" by simp
    from Cons.IH [OF this] True st show ?thesis
      by (intro ends_as_step [OF Cons.prems step]) (simp add: kc unthread_def)
  qed
qed

text \<open>The parts of \<^verbatim>\<open>RunnerFor\<close> after the lock.\<close>

lemma check_alone:
  assumes "plThreads P t = Some (ForCheck i c)"
  shows "ends_as E t P (ForReturn i (case inStartErr (plHeap P ! c) of
    Some e \<Rightarrow> Inl e | None \<Rightarrow> Inr (inRunner (plHeap P ! c))), unthread P, plWorld P)"
  by (intro ends_as_step [OF assms]) (auto simp: thread_step_def intro: ends_as_done)

lemma once_alone:
  assumes t: "plThreads P t = Some (ForOnce i c)" and m: "map_of (plInstances P) k = Some c"
    and d: "distinct (map snd (plInstances P))" "wf_map (plInstances P)" and c: "c < length (plHeap P)"
    and nb: "inOnce (plHeap P ! c) \<noteq> Busy"
  shows "ends_as E t P (case start_once E (plWorld P) (pooled (plHeap P ! c)) of (inst, w) \<Rightarrow>
    (ForReturn i (case piStartErr inst of Some e \<Rightarrow> Inl e | None \<Rightarrow> Inr (piRunner inst)),
     (unthread P)\<lparr>poInstances := map_set k inst (poInstances (unthread P))\<rparr>, w))"
proof -
  have wr: "unthread (set_inst c f P') = (unthread P')\<lparr>poInstances := map_set k (pooled (f (plHeap P' ! c))) (poInstances (unthread P'))\<rparr>"
    if "plInstances P' = plInstances P" "length (plHeap P') = length (plHeap P)" for f P'
    using unthread_write [of "plInstances P'" k c "plHeap P'"] m d c that by (simp add: unthread_def)
  show ?thesis
  proof (cases "inOnce (plHeap P ! c)")
    case Fired
    let ?Q = "P\<lparr>plThreads := (plThreads P)(t \<mapsto> ForCheck i c)\<rparr>"
    have step: "thread_step E P (ForOnce i c) = Some (ForCheck i c, P)"
      using Fired by (simp add: thread_step_def)
    have "set_inst c (\<lambda>I. I) P = P" by (simp add: set_inst_def)
    with wr [of P "\<lambda>I. I"] have "unthread P = (unthread P)\<lparr>poInstances := map_set k (pooled (plHeap P ! c)) (poInstances (unthread P))\<rparr>"
      by simp
    with check_alone [of ?Q t i c] Fired show ?thesis
      by (intro ends_as_step [OF t step]) (simp add: start_once_def cong: option.case_cong)
  next
    case Busy
    with nb show ?thesis ..
  next
    case Unfired
    obtain ans w where st: "runner_Start E (plWorld P) (inRunner (plHeap P ! c)) = (ans, w)"
      by (cases "runner_Start E (plWorld P) (inRunner (plHeap P ! c))")
    define g :: "Instance \<Rightarrow> Instance" where "g = (\<lambda>I. case ans of Inl e \<Rightarrow> I\<lparr>inOnce := Fired, inStartErr := Some e\<rparr>
      | Inr _ \<Rightarrow> I\<lparr>inOnce := Fired, inStarted := True\<rparr>)"
    let ?P1 = "set_inst c (\<lambda>I. I\<lparr>inOnce := Busy\<rparr>) (P\<lparr>plWorld := w\<rparr>)"
    let ?Q1 = "?P1\<lparr>plThreads := (plThreads ?P1)(t \<mapsto> ForStarting i c ans)\<rparr>"
    let ?P2 = "set_inst c g ?Q1"
    let ?Q2 = "?P2\<lparr>plThreads := (plThreads ?P2)(t \<mapsto> ForCheck i c)\<rparr>"
    let ?I = "g ((plHeap P ! c)\<lparr>inOnce := Busy\<rparr>)"
    have step1: "thread_step E P (ForOnce i c) = Some (ForStarting i c ans, ?P1)"
      using Unfired st by (simp add: thread_step_def)
    have step2: "thread_step E ?Q1 (ForStarting i c ans) = Some (ForCheck i c, ?P2)"
      by (cases ans) (simp_all add: thread_step_def g_def)
    have I: "plHeap ?Q2 ! c = ?I" using c by simp
    have inst: "start_once E (plWorld P) (pooled (plHeap P ! c)) = (pooled ?I, w)"
      using Unfired st by (cases ans) (simp_all add: start_once_def g_def pooled_def)
    have u: "unthread ?Q2 = (unthread P)\<lparr>poInstances := map_set k (pooled ?I) (poInstances (unthread P))\<rparr>"
    proof -
      have "unthread ?Q2 = unthread (set_inst c (\<lambda>I. g (I\<lparr>inOnce := Busy\<rparr>)) P)"
        using c by (simp add: unthread_def set_inst_def)
      with wr [of P "\<lambda>I. g (I\<lparr>inOnce := Busy\<rparr>)"] show ?thesis by simp
    qed
    have "ends_as E t ?Q2 (ForReturn i (case inStartErr ?I of Some e \<Rightarrow> Inl e | None \<Rightarrow> Inr (inRunner ?I)),
        unthread ?Q2, w)"
      using check_alone [of ?Q2 t i c] unfolding I by simp
    then have "ends_as E t ?Q1 (ForReturn i (case inStartErr ?I of Some e \<Rightarrow> Inl e | None \<Rightarrow> Inr (inRunner ?I)),
        unthread ?Q2, w)"
      by (intro ends_as_step [OF _ step2]) simp_all
    then show ?thesis
      unfolding inst u by (intro ends_as_step [OF t step1]) (simp cong: option.case_cong)
  qed
qed

definition settled_pool :: "Pool \<Rightarrow> bool" where
  "settled_pool P \<longleftrightarrow> (\<forall>(k, c) \<in> set (plInstances P). inOnce (plHeap P ! c) \<noteq> Busy)"

lemma for_alone:
  assumes ok: "pool_ok own P" and held: "all_held P" and settled: "settled_pool P"
    and t: "plThreads P t = Some (ForBegin i)"
  shows "ends_as E t P (pool_method E (unthread P) (plWorld P) (ForOp i))"
proof -
  let ?p = "unthread P" and ?w = "plWorld P" and ?hp = "plHeap P" and ?m = "plInstances P" and ?k = "pool_key P i"
  have wf: "wf_map ?m" and dist: "distinct (map snd ?m)"
    and len: "(k, c) \<in> set ?m \<Longrightarrow> c < length ?hp" for k c
    using ok held held_okD(1) [of ?hp "wTrace ?w" "holds P" None]
    by (auto simp: pool_ok_def map_sound_def view_def all_held_def)
  show ?thesis
  proof (cases "plClosed P")
    case True
    then have step: "thread_step E P (ForBegin i) = Some (ForReturn i (Inl ''runner pool closed''), P)"
      by (simp add: thread_step_def for_locked_def)
    show ?thesis using True by (intro ends_as_step [OF t step] ends_as_done) (simp_all add: RunnerFor_def Let_def)
  next
    case op: False
    obtain now w1 where now: "Now E ?w = (now, w1)" by (cases "Now E ?w")
    show ?thesis
    proof (cases "map_of ?m ?k")
      case (Some c)
      note c = len [OF map_of_SomeD [OF Some]]
      let ?P = "set_inst c (\<lambda>I. I\<lparr>inLastUsed := now\<rparr>) (P\<lparr>plWorld := w1\<rparr>)"
      let ?Q = "?P\<lparr>plThreads := (plThreads ?P)(t \<mapsto> ForOnce i c)\<rparr>"
      have step: "thread_step E P (ForBegin i) = Some (ForOnce i c, ?P)"
        using Some op now by (simp add: thread_step_def for_locked_def)
      have "inOnce (?hp ! c) \<noteq> Busy" using settled map_of_SomeD [OF Some] by (auto simp: settled_pool_def)
      then have nb: "inOnce (plHeap ?Q ! c) \<noteq> Busy" using c by simp
      have u: "unthread ?Q = ?p\<lparr>poInstances := map_set ?k (pooled (?hp ! c)\<lparr>piLastUsed := now\<rparr>) (poInstances ?p)\<rparr>"
        using unthread_write [OF Some dist wf c, of "(?hp ! c)\<lparr>inLastUsed := now\<rparr>"]
        by (simp add: unthread_def pooled_def)
      have old: "map_of (poInstances ?p) ?k = Some (pooled (?hp ! c))" by (simp add: map_of_values Some)
      have I: "pooled (plHeap ?Q ! c) = (pooled (?hp ! c))\<lparr>piLastUsed := now\<rparr>"
        using c by (simp add: pooled_def)
      obtain inst w2 where so: "start_once E w1 ((pooled (?hp ! c))\<lparr>piLastUsed := now\<rparr>) = (inst, w2)"
        by (cases "start_once E w1 ((pooled (?hp ! c))\<lparr>piLastUsed := now\<rparr>)")
      have "ends_as E t ?Q (case start_once E (plWorld ?Q) (pooled (plHeap ?Q ! c)) of (inst, w) \<Rightarrow>
          (ForReturn i (case piStartErr inst of Some e \<Rightarrow> Inl e | None \<Rightarrow> Inr (piRunner inst)),
           (unthread ?Q)\<lparr>poInstances := map_set ?k inst (poInstances (unthread ?Q))\<rparr>, w))"
        by (rule once_alone [of ?Q]) (use Some dist wf c nb in simp_all)
      then have "ends_as E t ?Q (pool_method E ?p ?w (ForOp i))"
        unfolding I u using so
        by (cases "piStartErr inst")
          (simp_all add: RunnerFor_def find_or_build_def op old now Let_def map_of_values Some)
      then show ?thesis by (rule ends_as_step [OF t step])
    next
      case None
      then have old: "map_of (poInstances ?p) ?k = None" by (simp add: map_of_values)
      show ?thesis
      proof (cases rule: Build_cases [of E ?w "plBackend P"])
        case (err msg)
        then have step: "thread_step E P (ForBegin i) = Some (ForReturn i (Inl (''backend build: '' @ msg)), P)"
          using None op by (simp add: thread_step_def for_locked_def Let_def)
        show ?thesis
          using err None op by (intro ends_as_step [OF t step] ends_as_done)
            (simp_all add: RunnerFor_def find_or_build_def Let_def map_of_values)
      next
        case (ok x)
        let ?r = "wNext ?w" and ?c = "length ?hp"
        let ?w' = "(emit (EvBuild ?r x) (?w\<lparr>wNext := ?r + 1\<rparr>))\<lparr>wClock := wClock ?w + 1\<rparr>"
        let ?now = "envClock E (wClock ?w)"
        let ?I = "(built ?r)\<lparr>inLastUsed := ?now\<rparr>" and ?J = "(new_instance ?r)\<lparr>piLastUsed := ?now\<rparr>"
        let ?P = "P\<lparr>plWorld := ?w', plHeap := ?hp @ [?I], plInstances := ?m @ [(?k, ?c)]\<rparr>"
        let ?Q = "?P\<lparr>plThreads := (plThreads ?P)(t \<mapsto> ForOnce i ?c)\<rparr>"
        have step: "thread_step E P (ForBegin i) = Some (ForOnce i ?c, ?P)"
          using None op ok
          by (simp add: thread_step_def for_locked_def Let_def Now_def set_inst_def map_set_new)
        have I: "pooled (plHeap ?Q ! ?c) = ?J" by (simp add: pooled_def built_def new_instance_def)
        have "map (\<lambda>(k, c). (k, pooled ((?hp @ [?I]) ! c))) ?m = poInstances ?p"
          using len by (auto simp: nth_append)
        then have u: "unthread ?Q = ?p\<lparr>poInstances := map_set ?k ?J (poInstances ?p)\<rparr>"
          using I by (simp add: unthread_def map_set_new map_of_values None)
        have Q: "map_of (plInstances ?Q) ?k = Some ?c" "distinct (map snd (plInstances ?Q))"
          "wf_map (plInstances ?Q)" "?c < length (plHeap ?Q)" "inOnce (plHeap ?Q ! ?c) \<noteq> Busy"
          using None dist len wf_map_set [OF wf, of ?k ?c]
          by (auto simp: map_add_def map_set_new built_def dest: len)
        obtain inst w2 where so: "start_once E ?w' ?J = (inst, w2)" by (cases "start_once E ?w' ?J")
        have "ends_as E t ?Q (case start_once E (plWorld ?Q) (pooled (plHeap ?Q ! ?c)) of (inst, w) \<Rightarrow>
            (ForReturn i (case piStartErr inst of Some e \<Rightarrow> Inl e | None \<Rightarrow> Inr (piRunner inst)),
             (unthread ?Q)\<lparr>poInstances := map_set ?k inst (poInstances (unthread ?Q))\<rparr>, w))"
          by (rule once_alone [of ?Q, OF _ Q]) simp
        moreover have "plWorld ?Q = ?w'" by simp
        moreover have "pool_method E ?p ?w (ForOp i)
          = (ForReturn i (case piStartErr inst of Some e \<Rightarrow> Inl e | None \<Rightarrow> Inr (piRunner inst)),
             ?p\<lparr>poInstances := map_set ?k inst (poInstances ?p)\<rparr>, w2)"
          using so by (cases "piStartErr inst")
            (simp_all add: RunnerFor_def find_or_build_def op old ok Now_def Let_def map_of_values None)
        ultimately have "ends_as E t ?Q (pool_method E ?p ?w (ForOp i))"
          unfolding I u using so by (simp del: map_set.simps)
        then show ?thesis by (rule ends_as_step [OF t step])
      qed
    qed
  qed
qed

lemma evict_begin_alone:
  assumes t: "plThreads P t = Some (EvictBegin cutoff)"
  shows "ends_as E t P (pool_method E (unthread P) (plWorld P) (EvictOp cutoff))"
proof (cases "plClosed P")
  case True
  then have step: "thread_step E P (EvictBegin cutoff) = Some (EvictReturn 0, P)"
    by (simp add: thread_step_def)
  show ?thesis
    using True by (intro ends_as_step [OF t step] ends_as_done) (simp_all add: EvictIdle_def)
next
  case False
  let ?e = "\<lambda>(k, c). (k, pooled (plHeap P ! c))"
  let ?cold = "\<lambda>(key, c). key \<noteq> sharedKey \<and> inLastUsed (plHeap P ! c) < cutoff"
  let ?cold' = "\<lambda>(key, inst). key \<noteq> sharedKey \<and> piLastUsed inst < cutoff"
  let ?v = "filter ?cold (plInstances P)" and ?m = "filter (\<lambda>e. \<not> ?cold e) (plInstances P)"
  let ?P = "P\<lparr>plInstances := ?m\<rparr>"
  let ?Q = "?P\<lparr>plThreads := (plThreads ?P)(t \<mapsto> EvictStops (map snd ?v) (length ?v))\<rparr>"
  have step: "thread_step E P (EvictBegin cutoff) = Some (EvictStops (map snd ?v) (length ?v), ?P)"
    using False by (simp add: thread_step_def Let_def)
  have cold: "?cold' (?e x) = ?cold x" for x by (cases x) simp
  then have v: "filter ?cold' (map ?e (plInstances P)) = map ?e ?v"
    and m: "filter (\<lambda>x. \<not> ?cold' x) (map ?e (plInstances P)) = map ?e ?m"
    by (simp_all only: filter_map comp_def cold)
  have stops: "map snd (map ?e ?v) = map (\<lambda>c. pooled (plHeap P ! c)) (map snd ?v)" by auto
  have "EvictIdle E (plWorld P) (Some (unthread P)) cutoff = (length (map ?e ?v),
      Some ((unthread P)\<lparr>poInstances := map ?e ?m\<rparr>), stop_started E (plWorld P) (map snd (map ?e ?v)))"
    unfolding EvictIdle_def option.case Let_def unthread_sel v m using False by simp
  then have "pool_method E (unthread P) (plWorld P) (EvictOp cutoff) = (EvictReturn (length ?v),
      unthread ?Q, stop_started E (plWorld P) (map (\<lambda>c. pooled (plHeap P ! c)) (map snd ?v)))"
    unfolding stops by (simp add: unthread_def)
  moreover have "plThreads ?Q t = Some (EvictStops (map snd ?v) (length ?v))" by simp
  from evict_alone [OF this, of E] have "ends_as E t ?Q (EvictReturn (length ?v), unthread ?Q,
      stop_started E (plWorld P) (map (\<lambda>c. pooled (plHeap P ! c)) (map snd ?v)))" by simp
  ultimately show ?thesis by (intro ends_as_step [OF t step]) simp
qed

lemma close_begin_alone:
  assumes t: "plThreads P t = Some CloseBegin"
  shows "ends_as E t P (pool_method E (unthread P) (plWorld P) CloseOp)"
proof (cases "plClosed P")
  case True
  then have step: "thread_step E P CloseBegin = Some (CloseReturn None, P)" by (simp add: thread_step_def)
  show ?thesis
    using True by (intro ends_as_step [OF t step] ends_as_done) (simp_all add: pool_Close_def)
next
  case False
  let ?P = "P\<lparr>plClosed := True, plInstances := []\<rparr>"
  let ?Q = "?P\<lparr>plThreads := (plThreads ?P)(t \<mapsto> CloseStops (plInstances P) None)\<rparr>"
  have step: "thread_step E P CloseBegin = Some (CloseStops (plInstances P) None, ?P)"
    using False by (simp add: thread_step_def)
  obtain e w where c: "close_loop E (plWorld P) (poInstances (unthread P)) None = (e, w)"
    by (cases "close_loop E (plWorld P) (poInstances (unthread P)) None")
  have "plThreads ?Q t = Some (CloseStops (plInstances P) None)" by simp
  from close_alone [OF this, of E] c have "ends_as E t ?Q (CloseReturn e, unthread ?Q, w)" by simp
  moreover have "pool_method E (unthread P) (plWorld P) CloseOp = (CloseReturn e, unthread ?Q, w)"
    using False c by (simp add: pool_Close_def Let_def) (simp add: unthread_def)
  ultimately show ?thesis by (intro ends_as_step [OF t step]) simp
qed

text \<open>C23. The methods of \<open>RunnerPool\<close>, which take one step, are what the goroutines do when they do not
  interleave: from any reachable state with no start under way in the pool, a lookup, an eviction or
  a close that runs to its end alone returns what the one-step method returns and leaves the pool
  and the world that it leaves.\<close>

theorem pool_methods_refined:
  assumes "warmed E b share w0 p w" "pool_exec E xs (threaded p w) = Some P" "settled_pool P"
    "plThreads P t = None"
  shows "\<exists>n P'. pool_exec E (Spawn t x # replicate n (Advance t)) P = Some P'
    \<and> (case pool_method E (unthread P) (plWorld P) x of (q, p', w') \<Rightarrow>
        plThreads P' t = Some q \<and> unthread P' = p' \<and> plWorld P' = w')"
proof -
  have "reach_ok P" by (rule reach_ok_exec [OF reach_ok_warmed [OF assms(1)] assms(2)])
  then have P: "reach_ok (P\<lparr>plThreads := (plThreads P)(t \<mapsto> pool_entry x)\<rparr>)"
    using assms(4) reach_ok_act [of P E "Spawn t x"] by simp
  let ?Q = "P\<lparr>plThreads := (plThreads P)(t \<mapsto> pool_entry x)\<rparr>"
  from P obtain own where ok: "pool_ok own ?Q" "all_held ?Q" by (auto simp: reach_ok_def)
  have "settled_pool ?Q" using assms(3) by (simp add: settled_pool_def)
  have "ends_as E t ?Q (pool_method E (unthread ?Q) (plWorld ?Q) x)"
  proof (cases x)
    case (ForOp i)
    then have "plThreads ?Q t = Some (ForBegin i)" by simp
    from for_alone [OF ok \<open>settled_pool ?Q\<close> this] show ?thesis by (simp only: ForOp)
  next
    case (EvictOp cutoff)
    then have "plThreads ?Q t = Some (EvictBegin cutoff)" by simp
    from evict_begin_alone [OF this] show ?thesis by (simp only: EvictOp)
  next
    case CloseOp
    then have "plThreads ?Q t = Some CloseBegin" by simp
    from close_begin_alone [OF this] show ?thesis by (simp only: CloseOp)
  qed
  then obtain n P' where "pool_exec E (replicate n (Advance t)) ?Q = Some P'"
    "plThreads P' t = Some (fst (pool_method E (unthread P) (plWorld P) x))"
    "unthread P' = fst (snd (pool_method E (unthread P) (plWorld P) x))"
    "plWorld P' = snd (snd (pool_method E (unthread P) (plWorld P) x))"
    by (auto simp: ends_as_def simp del: pool_method.simps)
  with assms(4) show ?thesis
    by (intro exI [of _ n] exI [of _ P']) (simp add: case_prod_beta del: pool_method.simps)
qed

end
