(* ===== verification/Scene.thy ===== *)
theory Scene
  imports ServerMain
begin

text \<open>
  A concrete server to try the properties at: two identities, a catalog with one bundle, a backing
  MCP with two tools, and requests written as the bytes a client sends.
\<close>

section \<open>The scene\<close>

definition alice :: Identity where "alice = \<lparr>idSubject = ''alice'', idScopes = [''s'']\<rparr>"
definition bob :: Identity where "bob = \<lparr>idSubject = ''bob'', idScopes = []\<rparr>"

definition validate0 :: Validator where
  "validate0 token audience =
    (if audience = ''aud'' then
       if token = ''ta'' then Some alice else if token = ''tb'' then Some bob else None
     else None)"

definition bundle0 :: CapabilityBundle where
  "bundle0 = \<lparr>bTools = [''read''], bResources = [], bPrompts = []\<rparr>"

definition catalog0 :: Catalog where
  "catalog0 = \<lparr>cBundles = [(''s'', bundle0)]\<rparr>"

definition tool :: "bytes \<Rightarrow> json" where
  "tool n = JObj [(''name'', JStr n)]"

definition tools_result :: json where
  "tools_result = JObj [(''tools'', JArr [tool ''read'', tool ''drop''])]"

definition env0 :: Env where
  "env0 = \<lparr>envClock = (\<lambda>n. int n * Second), envRand = (\<lambda>n. Some (replicate 16 (CHR ''a''))),
     envLook = (\<lambda>_. Inr ''/usr/bin/bwrap''), envStart = (\<lambda>_ _. Inr [(''tools'', JObj [])]),
     envCall = (\<lambda>_ _ _ _. Inr (Some tools_result)), envNotify = (\<lambda>_ _ _ _. None),
     envStop = (\<lambda>_ _. None), envParseErr = (\<lambda>_. []), envDecodeErr = (\<lambda>_. []),
     envSandboxErr = (\<lambda>_. [])\<rparr>"

definition session_for :: "bytes \<Rightarrow> bytes \<Rightarrow> Session" where
  "session_for i subject = new_session i subject ''2025-11-25'' zero_impl 0"

definition store0 :: InMemorySessionStore where
  "store0 = fst (Create (fst (Create NewInMemorySessionStore ''sa'' ''alice'' ''2025-11-25'' zero_impl 0))
     ''sb'' ''bob'' ''2025-11-25'' zero_impl 0)"

definition backend0 :: Backend where
  "backend0 = \<lparr>beCommand = ''/bin/x'', beArgs = [], beEnv = Some [''K=v''], beSandbox = None,
     beClientInfo = zero_impl\<rparr>"

definition cfg0 :: Config where
  "cfg0 = \<lparr>cfgListenAddr = ''127.0.0.1:8443'', cfgAudience = ''aud'', cfgAllowedOrigins = [],
     cfgValidator = Some validate0, cfgServerVersion = ''1'', cfgSessions = Some store0,
     cfgRunner = None, cfgBackend = Some backend0, cfgBackendShareSafe = False,
     cfgCatalog = Some catalog0, cfgIdleTimeout = 0, cfgSweepInterval = 0,
     cfgRateLimit = \<lparr>rlRequestsPerSecond = 0, rlBurst = 0, rlEvictAfter = 0\<rparr>,
     cfgPoolIdleTimeout = 0\<rparr>"

text \<open>A server that uses the single runner 7, already started.\<close>

definition server0 :: Server where
  "server0 = (New cfg0 init_world)\<lparr>svRunner := Some 7, svBackendCaps := Some [(''tools'', JObj [])]\<rparr>"

definition post :: "bytes \<Rightarrow> bytes \<Rightarrow> bytes \<Rightarrow> Request" where
  "post auth sid body =
    \<lparr>rqHeaders = [(''Authorization'', auth), (session_header, sid)], rqBody = body, rqBodyFails = False,
     rqFlusher = True, rqWrites = [], rqIdentity = None, rqProtocolVersion = None\<rparr>"

definition call_body :: bytes where
  "call_body = ''{\"jsonrpc\":\"2.0\",\"id\":1,\"method\":\"tools/call\",\"params\":{\"name\":\"read\"}}''"

definition call_message :: JSONRPCMessage where
  "call_message = zero_message\<lparr>msgJSONRPC := jsonrpcVersion, msgID := Some (JNum ''1''),
     msgMethod := ''tools/call'', msgParams := Some (tool ''read'')\<rparr>"

definition init_body :: bytes where
  "init_body = ''{\"jsonrpc\":\"2.0\",\"id\":1,\"method\":\"initialize\",\"params\":{}}''"

definition init_message :: JSONRPCMessage where
  "init_message = zero_message\<lparr>msgJSONRPC := jsonrpcVersion, msgID := Some (JNum ''1''),
     msgMethod := ''initialize'', msgParams := Some (JObj [])\<rparr>"

lemma env0_sel [simp]:
  "envClock env0 n = int n * Second" "envRand env0 n = Some (replicate 16 (CHR ''a''))"
  "envLook env0 x = Inr ''/usr/bin/bwrap''" "envStart env0 tr r = Inr [(''tools'', JObj [])]"
  "envCall env0 tr r m ps = Inr (Some tools_result)" "envNotify env0 tr r m ps = None"
  "envStop env0 tr r = None"
  by (simp_all add: env0_def)

lemma parse_facts:
  "json_parse call_body = Some (JObj [(''jsonrpc'', JStr ''2.0''), (''id'', JNum ''1''),
     (''method'', JStr ''tools/call''), (''params'', tool ''read'')])"
  "json_parse init_body = Some (JObj [(''jsonrpc'', JStr ''2.0''), (''id'', JNum ''1''),
     (''method'', JStr ''initialize''), (''params'', JObj [])])"
  by code_simp+

lemma decode_facts:
  "DecodeJSONRPC call_body = (call_message, None)" "DecodeJSONRPC init_body = (init_message, None)"
  by (simp_all add: DecodeJSONRPC_def parse_facts set_message_member_def call_message_def
      init_message_def zero_message_def jsonrpcVersion_def)

lemma request_facts [simp]:
  "request_message (admitted_request (post a i call_body) x) = Some call_message"
  "request_message (admitted_request (post a i init_body) x) = Some init_message"
  using decode_facts
  by (simp_all add: request_message_def read_body_def admitted_request_def post_def call_body_def
      init_body_def maxMCPRequestBody_def)

lemma bearer_facts [simp]:
  "extractBearer ''Bearer ta'' = Some ''ta''" "extractBearer ''Bearer tb'' = Some ''tb''"
  using extractBearer_graphic [of "''ta''"] extractBearer_graphic [of "''tb''"]
  by (simp_all add: bearer_prefix_def graphic_def)

lemma message_facts [simp]:
  "is_initialize init_message" "\<not> is_initialize call_message" "\<not> IsNotification call_message"
  "IsRequest call_message" "msgMethod call_message = ''tools/call''"
  "msgParams call_message = Some (tool ''read'')" "msgParams init_message = Some (JObj [])"
  by (simp_all add: is_initialize_def init_message_def call_message_def IsRequest_def
      IsNotification_def zero_message_def)

lemma post_sel [simp]:
  "rqHeaders (post a i b) = [(''Authorization'', a), (session_header, i)]"
  "rqHeaders (admitted_request rq x) = rqHeaders rq"
  "IdentityFromContext (admitted_request rq x) = x"
  by (simp_all add: post_def admitted_request_def IdentityFromContext_def)

text \<open>What it takes a request of the scene to reach the handler.\<close>

lemma routes_post:
  assumes "svCfg s = cfg0" "svLimiter s = None" "extractBearer a = Some tok"
    "validate0 tok ''aud'' = Some i"
  shows "routes env0 ''POST'' ''/mcp'' s (post a sid b)
    = handleMCPPost env0 s (admitted_request (post a sid b) i)"
proof -
  have "authenticated (cfgValidator cfg0) (cfgAudience cfg0) (post a sid b) = Some i"
    using assms(3,4) by (simp add: authenticated_def cfg0_def header_get_def)
  moreover have "origin_ok (cfgAllowedOrigins cfg0) (post a sid b)"
    "version_of (post a sid b) \<in> set SupportedProtocolVersions"
    by (simp_all add: origin_ok_def version_of_def header_get_def session_header_def
        fallbackProtocolVersion_def SupportedProtocolVersions_def)
  moreover have "limited env0 s rq = (s, True)" for rq using assms(2) by (simp add: limited_def)
  ultimately show ?thesis by (simp add: routes_def assms(1) mcpChain_eq Let_def)
qed

lemma server0_sel [simp]:
  "svCfg server0 = cfg0" "svLimiter server0 = None" "svRunner server0 = Some 7"
  "svSessions server0 = store0" "svCatalog server0 = Some catalog0"
  "svWorld server0 = init_world" "traffic server0 = []"
  by (simp_all add: server0_def New_def Let_def cfg0_def NewRateLimiter_def traffic_def init_world_def)

lemma store0_get [simp]:
  "Get store0 ''sa'' = Some (session_for ''sa'' ''alice'')"
  "Get store0 ''sb'' = Some (session_for ''sb'' ''bob'')"
  by code_simp+

lemma alice_may_read [simp]:
  "AllowsTool (Resolve (Some catalog0) (idScopes alice)) ''read''"
  by code_simp

lemma tool_facts [simp]:
  "unmarshal_rawmap (tool n) = Some [(''name'', JStr n)]" "param_ident [(''name'', JStr n)] ''name'' = n"
  by (simp_all add: tool_def map_of_members_def param_ident_def)

lemma alice_sel [simp]: "idSubject alice = ''alice''" "idScopes alice = [''s'']"
  by (simp_all add: alice_def)

lemma session_for_sel [simp]: "sessSubject (session_for i s) = s" "sessID (session_for i s) = i"
  by (simp_all add: session_for_def new_session_def)


section \<open>Requests\<close>

abbreviation call_request :: Request where
  "call_request \<equiv> post ''Bearer ta'' ''sa'' call_body"

lemma session_alice [simp]:
  "session_of server0 (admitted_request call_request alice) = Some (session_for ''sa'' ''alice'')"
  "session_of server0 (admitted_request (post a ''sa'' b) i) = Some (session_for ''sa'' ''alice'')"
  by (simp_all add: session_of_def header_get_def session_header_def)

lemma session_header_post [simp]:
  "header_get [(''Authorization'', a), (session_header, i)] session_header = i"
  by (simp add: header_get_def session_header_def)

lemma server0_call:
  "routes env0 ''POST'' ''/mcp'' server0 call_request
    = handleRequest env0 server0 (admitted_request call_request alice) (session_for ''sa'' ''alice'') call_message"
proof -
  have "routes env0 ''POST'' ''/mcp'' server0 call_request
      = handleMCPPost env0 server0 (admitted_request call_request alice)"
    by (rule routes_post [where tok = "''ta''"]) (simp_all add: validate0_def)
  then show ?thesis by (simp add: post_decoded)
qed

lemma server0_call_traffic:
  "traffic (snd (routes env0 ''POST'' ''/mcp'' server0 call_request))
    = [EvCall 7 ''tools/call'' (Some (tool ''read''))]"
proof -
  have "gate_of (access_of server0 (admitted_request call_request alice)) (msgMethod call_message)
      = Some (''name'', AllowsTool (access_of server0 (admitted_request call_request alice)))"
    by (simp add: gate_of_def)
  then show ?thesis
    by (simp add: server0_call handleRequest_dispatch Let_def forwardWithNameGate_def resolveRunner_def
        runnerForRequest_def touched_def access_of_def call_through_def runner_Call_def
        traffic_def init_world_def alice_may_read [simplified])
qed

end
