(* ===== verification/StdioExamples.thy ===== *)
theory StdioExamples
  imports StdioStop
begin

text \<open>
  Runs of the stdio runner on concrete lines, at which the properties of its theories hold with all
  their hypotheses: a start that completes, a process that closes its output, a stop, a start that
  fails, and a process that answers twice.
\<close>

section \<open>Lines and runs\<close>

definition init_line :: bytes where
  "init_line = ''{\"jsonrpc\":\"2.0\",\"id\":1,\"result\":{\"capabilities\":{\"tools\":{}}}}''"

definition init_value :: json where
  "init_value = JObj [(''jsonrpc'', JStr ''2.0''), (''id'', JNum ''1''),
     (''result'', JObj [(''capabilities'', JObj [(''tools'', JObj [])])])]"

definition answer_line :: bytes where
  "answer_line = ''{\"id\":2,\"result\":7}''"

definition answer_value :: json where
  "answer_value = JObj [(''id'', JNum ''2''), (''result'', JNum ''7'')]"

definition cmd0 :: Cmd where
  "cmd0 = \<lparr>cmdPath = ''/bin/x'', cmdArgs = [''x''], cmdEnv = None\<rparr>"

definition no_text :: "json option \<Rightarrow> bytes" where
  "no_text _ = []"

abbreviation runner0 :: StdioRunner where
  "runner0 \<equiv> NewStdioRunner cmd0 zero_impl"

definition started_run :: "action list" where
  "started_run = [Invoke 0 DoStart, Step 0 Go, Step 0 Go, Step 0 Go, Step 0 Go, Step 0 Go, Step 0 Go]"

definition greeted_run :: "action list" where
  "greeted_run = started_run @ [Writes (init_line @ [CHR 0x0A]), ReadLoop, ReadLoop]"

definition ready_run :: "action list" where
  "ready_run = greeted_run @ [Step 0 Go, Step 0 Go, Step 0 Go, Step 0 Go]"

definition stop_run :: "action list" where
  "stop_run = ready_run @ [Invoke 1 DoStop, Step 1 Go, Step 1 Go]"

definition twice_run :: "action list" where
  "twice_run = ready_run @ [Invoke 2 (DoCall ''tools/list'' None), Step 2 Go, Step 2 Go,
     Writes (answer_line @ [CHR 0x0A] @ answer_line @ [CHR 0x0A]), ReadLoop, ReadLoop, ReadLoop,
     Step 2 (Cancelled ''context canceled''), Step 2 Go, Invoke 1 DoStop, Step 1 Go, Step 1 Go]"

lemma line_facts [simp]:
  "json_parse init_line = Some init_value" "response_id init_value = Some 1"
  "decode_response init_value = Inr (Some (JObj [(''capabilities'', JObj [(''tools'', JObj [])])]))"
  "set_result_member (''capabilities'', JObj [(''tools'', JObj [])]) (zero_result, True)
    = (zero_result\<lparr>irCapabilities := [(''tools'', JObj [])]\<rparr>, True)"
  "json_parse answer_line = Some answer_value" "response_id answer_value = Some 2"
  by code_simp+

lemma scan_facts [simp]:
  "scan_line stdioMaxLine e (init_line @ [CHR 0x0A]) = Token init_line []"
  "scan_line stdioMaxLine e (answer_line @ CHR 0x0A # answer_line @ [CHR 0x0A])
    = Token answer_line (answer_line @ [CHR 0x0A])"
  "scan_line stdioMaxLine e (answer_line @ [CHR 0x0A]) = Token answer_line []"
  "scan_line stdioMaxLine True [] = AtEOF" "scan_line stdioMaxLine False [] = More"
  by (simp_all add: scan_line_def stdioMaxLine_def init_line_def answer_line_def dropCR_def)

lemmas run_simps =
  NewStdioRunner_def method_step_def call_begin_def writeLine_def readLoop_def read_line_def
  call_leave_def Let_def no_text_def

text \<open>Where the runs get to.\<close>

lemma greeted_state:
  "\<exists>r. sr_exec no_text greeted_run runner0 = Some r
    \<and> srThreads r 0 = Some (CallWait 1 0, StartCall) \<and> srChans r 0 = Some init_value"
  by (simp add: greeted_run_def started_run_def run_simps)

lemma ready_state:
  "\<exists>r. sr_exec no_text ready_run runner0 = Some r
    \<and> srThreads r 0 = Some (StartReturn (Inr [(''tools'', JObj [])]), Direct)
    \<and> wire_ids (srWritten r) = [1]"
  by (simp add: ready_run_def greeted_run_def started_run_def run_simps wire_ids_def
      response_id_notification response_id_request [where i = 1, simplified])

lemma stop_state:
  "\<exists>r. sr_exec no_text stop_run runner0 = Some r \<and> srThreads r 1 = Some (StopDrain, Direct)
    \<and> srStopped r \<and> srReader r = Reading \<and> srOut r = [] \<and> srProc r = Running"
  by (simp add: stop_run_def ready_run_def greeted_run_def started_run_def run_simps)

lemma closed_state:
  "\<exists>r. sr_exec no_text (stop_run @ [ClosesOut]) runner0 = Some r
    \<and> srThreads r 1 = Some (StopDrain, Direct) \<and> srReader r = Reading \<and> srOut r = []
    \<and> srProc r = Running \<and> srEOF r"
  by (simp add: stop_run_def ready_run_def greeted_run_def started_run_def run_simps)

lemma waiting_state:
  "\<exists>r. sr_exec no_text (started_run @ [ClosesOut]) runner0 = Some r \<and> srReader r = Reading
    \<and> srEOF r \<and> srOut r = [] \<and> srThreads r 0 = Some (CallWait 1 0, StartCall) \<and> srChans r 0 = None"
  by (simp add: started_run_def run_simps)

lemma twice_state:
  "\<exists>r. sr_exec no_text twice_run runner0 = Some r \<and> srReader r = Sending 1 answer_value
    \<and> srChans r 1 = Some answer_value \<and> srNextChan r = 2 \<and> \<not> srReadDone r \<and> srProc r = Running
    \<and> srThreads r = [0 \<mapsto> (StartReturn (Inr [(''tools'', JObj [])]), Direct),
        2 \<mapsto> (CallReturn (internal_error ''context canceled''), Direct), 1 \<mapsto> (StopDrain, Direct)]"
  by (simp add: twice_run_def ready_run_def greeted_run_def started_run_def run_simps)

section \<open>The properties at these runs\<close>


lemma wire_ids_distinct_witness:
  "\<exists>r. sr_exec no_text ready_run runner0 = Some r \<and> wire_ids (srWritten r) = [1]
    \<and> distinct (wire_ids (srWritten r)) \<and> (\<exists>i \<le> srNextID r. 1 = sint i)"
proof -
  obtain r where r: "sr_exec no_text ready_run runner0 = Some r" "wire_ids (srWritten r) = [1]"
    using ready_state by blast
  have "length ready_run < 2 ^ 64" by (simp add: ready_run_def greeted_run_def started_run_def)
  from wire_ids_distinct [OF r(1) this] r show ?thesis by auto
qed


lemma stop_is_final_witness:
  "\<exists>r r'. sr_exec no_text stop_run runner0 = Some r \<and> sr_exec no_text [ClosesOut, Exits] r = Some r'
    \<and> srStopped r'
    \<and> method_step r' (CallBegin ''ping'' None) Go
        = Some (CallReturn (internal_error ''runner stopped''), r')"
proof -
  obtain r where r: "sr_exec no_text stop_run runner0 = Some r" "srStopped r" "srProc r = Running"
    using stop_state by blast
  then obtain r' where r': "sr_exec no_text [ClosesOut, Exits] r = Some r'" by simp
  from stop_is_final [OF r(2) r', of "''ping''" None] r(1) r' show ?thesis by blast
qed



lemma failed_spawn_hangs_stop_witness:
  "\<exists>r. sr_exec no_text ([Invoke 0 DoStart, Step 0 Go, Step 0 Go, Step 0 Go, Step 0 (Fails ''not found''),
      Invoke 1 DoStop, Step 1 Go, Step 1 Go] @ [Invoke 2 DoStop, Step 2 Go]) runner0 = Some r
    \<and> srThreads r 0 = Some (StartReturn (Inl ''start: not found''), StartCall)
    \<and> srThreads r 1 = Some (StopDrain, Direct)"
proof -
  obtain r where r: "sr_exec no_text ([Invoke 0 DoStart, Step 0 Go, Step 0 Go, Step 0 Go,
      Step 0 (Fails ''not found''), Invoke 1 DoStop, Step 1 Go, Step 1 Go] @ [Invoke 2 DoStop, Step 2 Go])
      runner0 = Some r"
    by (simp add: run_simps)
  from failed_spawn_hangs_stop [OF this] r show ?thesis by simp
qed


lemma answered_call_returns_witness:
  "\<exists>r r'. sr_exec no_text ready_run runner0 = Some r
    \<and> sr_exec no_text [Invoke 2 (DoCall ''tools/list'' None), Step 2 Go, Step 2 Go,
        Writes (answer_line @ [CHR 0x0A]), ReadLoop, ReadLoop, Step 2 Go, Step 2 Go] r = Some r'
    \<and> srThreads r' 2 = Some (CallReturn (Inr (Some (JNum ''7''))), Direct)"
proof -
  obtain r where r: "sr_exec no_text ready_run runner0 = Some r" "srThreads r 2 = None" "\<not> srStopped r"
    "srStdin r = Some Open" "srProc r \<noteq> NotStarted" "srReader r = Reading" "srOut r = []" "\<not> srEOF r"
    "srNextID r = 1"
    by (simp add: ready_run_def greeted_run_def started_run_def run_simps)
  have v: "json_parse answer_line = Some answer_value" "response_id answer_value = Some (sint (srNextID r + 1))"
    by (simp_all add: r(9))
  have l:
    "CHR 0x0A \<notin> set answer_line" "length answer_line < stdioMaxLine" "dropCR answer_line = answer_line"
    by (simp_all add: answer_line_def stdioMaxLine_def dropCR_def)
  have "decode_response answer_value = Inr (Some (JNum ''7''))" by code_simp
  with answered_call_returns [OF r(2-8) v l, of no_text "''tools/list''" None] r(1) show ?thesis by fastforce
qed
end
