(* ===== verification/LimiterThreads.thy ===== *)
theory LimiterThreads
  imports RateLimit
begin

text \<open>
  \<^verbatim>\<open>ratelimit.go\<close> as its goroutines run it. The map of buckets is under the lock of the limiter and
  each bucket under a lock of its own, so \<^verbatim>\<open>Allow\<close> has two parts, between which others run:
  it finds or makes the bucket, and it takes a token from it, wherever the bucket is by then.
  \<^verbatim>\<open>Cleanup\<close> holds the limiter's lock throughout and looks at one bucket after the other. A
  bucket is a cell of a store, since a goroutine can hold one that the map has dropped.
\<close>

section \<open>The machine\<close>

type_synonym bucket_ref = nat

datatype lim_pc =
    AllowBegin time bytes
  | AllowBucket time bytes bucket_ref
  | AllowReturn time bytes bool
  | CleanBegin time
  | CleanLoop time "(bytes \<times> bucket_ref) list" nat
  | CleanReturn nat

record Limiter =
  lmCfg :: RateLimit
  lmBuckets :: "bucket_ref gomap"
  lmHeap :: "bucket list"
  lmLock :: "nat option"
  lmThreads :: "nat \<Rightarrow> lim_pc option"

definition limiter_threaded :: "RateLimiter \<Rightarrow> Limiter" where
  "limiter_threaded l =
    \<lparr>lmCfg = limCfg l, lmBuckets = zip (map fst (limBuckets l)) [0..<length (limBuckets l)],
     lmHeap = map snd (limBuckets l), lmLock = None, lmThreads = (\<lambda>_. None)\<rparr>"

text \<open>The parts of \<^verbatim>\<open>Allow\<close>.\<close>

definition find_bucket :: "Limiter \<Rightarrow> time \<Rightarrow> bytes \<Rightarrow> bucket_ref \<times> Limiter" where
  "find_bucket L now s =
    (case map_of (lmBuckets L) s of
       Some c \<Rightarrow> (c, L)
     | None \<Rightarrow>
       (length (lmHeap L),
        L\<lparr>lmHeap := lmHeap L @ [new_bucket (lmCfg L) now],
          lmBuckets := map_set s (length (lmHeap L)) (lmBuckets L)\<rparr>))"

definition take_token :: "Limiter \<Rightarrow> time \<Rightarrow> bucket_ref \<Rightarrow> bool \<times> Limiter" where
  "take_token L now c =
    (let (b, ok) = allow (lmHeap L ! c) now in (ok, L\<lparr>lmHeap := (lmHeap L)[c := b]\<rparr>))"

text \<open>An iteration of \<^verbatim>\<open>Cleanup\<close>.\<close>

definition clean_one :: "Limiter \<Rightarrow> time \<Rightarrow> bytes \<Rightarrow> bucket_ref \<Rightarrow> nat \<Rightarrow> nat \<times> Limiter" where
  "clean_one L cutoff s c n =
    (if idleSince (lmHeap L ! c) < cutoff
     then (n + 1, L\<lparr>lmBuckets := map_del s (lmBuckets L)\<rparr>)
     else (n, L))"

fun lim_go :: "nat \<Rightarrow> Limiter \<Rightarrow> lim_pc \<Rightarrow> (lim_pc \<times> Limiter) option" where
  "lim_go t L (AllowBegin now s) =
    (if lmLock L \<noteq> None then None
     else let (c, L) = find_bucket L now s in Some (AllowBucket now s c, L))"
| "lim_go t L (AllowBucket now s c) =
    (let (ok, L) = take_token L now c in Some (AllowReturn now s ok, L))"
| "lim_go t L (CleanBegin cutoff) =
    (if lmLock L \<noteq> None then None
     else Some (CleanLoop cutoff (lmBuckets L) 0, L\<lparr>lmLock := Some t\<rparr>))"
| "lim_go t L (CleanLoop cutoff ((s, c) # es) n) =
    (let (n, L) = clean_one L cutoff s c n in Some (CleanLoop cutoff es n, L))"
| "lim_go t L (CleanLoop cutoff [] n) = Some (CleanReturn n, L\<lparr>lmLock := None\<rparr>)"
| "lim_go t L _ = None"

datatype lim_action = AllowCall nat time bytes | CleanupCall nat time | Proceed nat

definition set_lim :: "nat \<Rightarrow> lim_pc \<Rightarrow> Limiter \<Rightarrow> Limiter" where
  "set_lim t p L = L\<lparr>lmThreads := (lmThreads L)(t \<mapsto> p)\<rparr>"

fun lim_act :: "lim_action \<Rightarrow> Limiter \<Rightarrow> Limiter option" where
  "lim_act (AllowCall t now s) L =
    (if lmThreads L t = None then Some (set_lim t (AllowBegin now s) L) else None)"
| "lim_act (CleanupCall t cutoff) L =
    (if lmThreads L t = None then Some (set_lim t (CleanBegin cutoff) L) else None)"
| "lim_act (Proceed t) L =
    (case lmThreads L t of
       None \<Rightarrow> None
     | Some p \<Rightarrow> (case lim_go t L p of None \<Rightarrow> None | Some (p', M) \<Rightarrow> Some (set_lim t p' M)))"

fun lim_exec :: "lim_action list \<Rightarrow> Limiter \<Rightarrow> Limiter option" where
  "lim_exec [] L = Some L"
| "lim_exec (a # xs) L = (case lim_act a L of None \<Rightarrow> None | Some M \<Rightarrow> lim_exec xs M)"

lemma lim_exec_append:
  "lim_exec (xs @ ys) L = (case lim_exec xs L of None \<Rightarrow> None | Some M \<Rightarrow> lim_exec ys M)"
  by (induction xs arbitrary: L) (simp_all split: option.split)

lemma lim_exec_snoc:
  "lim_exec (xs @ [a]) L = Some M \<longleftrightarrow> (\<exists>K. lim_exec xs L = Some K \<and> lim_act a K = Some M)"
  by (auto simp: lim_exec_append split: option.splits)

lemma set_lim_sel [simp]:
  "lmCfg (set_lim t p L) = lmCfg L" "lmBuckets (set_lim t p L) = lmBuckets L"
  "lmHeap (set_lim t p L) = lmHeap L" "lmLock (set_lim t p L) = lmLock L"
  "lmThreads (set_lim t p L) = (lmThreads L)(t \<mapsto> p)"
  by (simp_all add: set_lim_def)

section \<open>Calls while nothing is evicted\<close>

fun caller :: "lim_pc \<Rightarrow> (time \<times> bytes) option" where
  "caller (AllowBegin now s) = Some (now, s)"
| "caller (AllowBucket now s c) = Some (now, s)"
| "caller (AllowReturn now s ok) = Some (now, s)"
| "caller _ = None"

fun called :: "bytes \<Rightarrow> lim_action list \<Rightarrow> time list" where
  "called s [] = []"
| "called s (AllowCall t now s' # xs) = (if s' = s then now # called s xs else called s xs)"
| "called s (_ # xs) = called s xs"

lemma called_append: "called s (xs @ ys) = called s xs @ called s ys"
  by (induction s xs rule: called.induct) simp_all

definition call_at :: "Limiter \<Rightarrow> nat \<Rightarrow> (time \<times> bytes) option" where
  "call_at L t = Option.bind (lmThreads L t) caller"

lemma find_bucket_sel [simp]:
  "lmCfg (snd (find_bucket L now s)) = lmCfg L" "lmLock (snd (find_bucket L now s)) = lmLock L"
  "lmThreads (snd (find_bucket L now s)) = lmThreads L"
  by (simp_all add: find_bucket_def split: option.split)

lemma take_token_sel [simp]:
  "lmCfg (snd (take_token L now c)) = lmCfg L" "lmLock (snd (take_token L now c)) = lmLock L"
  "lmThreads (snd (take_token L now c)) = lmThreads L"
  "lmBuckets (snd (take_token L now c)) = lmBuckets L"
  "lmHeap (snd (take_token L now c)) = (lmHeap L)[c := fst (allow (lmHeap L ! c) now)]"
  "fst (take_token L now c) = snd (allow (lmHeap L ! c) now)"
  by (simp_all add: take_token_def case_prod_beta)

lemma clean_one_sel [simp]:
  "lmCfg (snd (clean_one L cutoff s c n)) = lmCfg L" "lmLock (snd (clean_one L cutoff s c n)) = lmLock L"
  "lmThreads (snd (clean_one L cutoff s c n)) = lmThreads L" "lmHeap (snd (clean_one L cutoff s c n)) = lmHeap L"
  by (simp_all add: clean_one_def)

lemma lim_go_cases:
  assumes "lim_go t L p = Some (p', M)"
  obtains (find) now s where "p = AllowBegin now s" "lmLock L = None"
      "p' = AllowBucket now s (fst (find_bucket L now s))" "M = snd (find_bucket L now s)"
  | (take) now s c where "p = AllowBucket now s c" "p' = AllowReturn now s (snd (allow (lmHeap L ! c) now))"
      "M = snd (take_token L now c)"
  | (lock) cutoff where "p = CleanBegin cutoff" "lmLock L = None" "p' = CleanLoop cutoff (lmBuckets L) 0"
      "M = L\<lparr>lmLock := Some t\<rparr>"
  | (one) cutoff s c es n where "p = CleanLoop cutoff ((s, c) # es) n"
      "p' = CleanLoop cutoff es (fst (clean_one L cutoff s c n))" "M = snd (clean_one L cutoff s c n)"
  | (unlock) cutoff n where "p = CleanLoop cutoff [] n" "p' = CleanReturn n" "M = L\<lparr>lmLock := None\<rparr>"
  using assms
  by (cases "(t, L, p)" rule: lim_go.cases) (auto simp: case_prod_beta split: if_splits intro: that)

lemma lim_act_cases:
  assumes "lim_act a L = Some M"
  obtains (call) t now s where "a = AllowCall t now s" "lmThreads L t = None" "M = set_lim t (AllowBegin now s) L"
  | (clean) t cutoff where "a = CleanupCall t cutoff" "lmThreads L t = None" "M = set_lim t (CleanBegin cutoff) L"
  | (go) t p p' K where "a = Proceed t" "lmThreads L t = Some p" "lim_go t L p = Some (p', K)"
      "M = set_lim t p' K"
  using assms by (cases a) (auto split: if_splits option.splits)

lemma lim_go_frame:
  assumes "lim_go t L p = Some (p', M)"
  shows "lmCfg M = lmCfg L" "lmThreads M = lmThreads L" "caller p' = caller p"
  using assms by (cases rule: lim_go_cases; simp)+

text \<open>The calls of a run are the goroutines that make them.\<close>

lemma callers_run:
  assumes "lim_exec xs L = Some M" "lmThreads L = (\<lambda>_. None)"
  shows "finite {t. \<exists>now. call_at M t = Some (now, s)}
    \<and> card {t. \<exists>now. call_at M t = Some (now, s)} = length (called s xs)
    \<and> (\<forall>t now. call_at M t = Some (now, s) \<longrightarrow> now \<in> set (called s xs)) \<and> lmCfg M = lmCfg L"
  using assms(1)
proof (induction xs arbitrary: M rule: rev_induct)
  case (snoc a xs)
  then obtain K where K: "lim_exec xs L = Some K" "lim_act a K = Some M" unfolding lim_exec_snoc by blast
  note IH = snoc.IH [OF K(1)]
  from K(2) show ?case
  proof (cases rule: lim_act_cases)
    case (call t now s')
    have other: "call_at M u = (if u = t then Some (now, s') else call_at K u)" for u
      using call(3) by (simp add: call_at_def)
    have none: "call_at K t = None" using call(2) by (simp add: call_at_def)
    show ?thesis
    proof (cases "s' = s")
      case True
      then have "{u. \<exists>now. call_at M u = Some (now, s)} = insert t {u. \<exists>now. call_at K u = Some (now, s)}"
        by (auto simp: other)
      moreover have "lmCfg M = lmCfg K" using call(3) by simp
      ultimately show ?thesis using IH none True call(1) by (auto simp: called_append other)
    next
      case False
      then have "call_at M u = Some (now', s) \<longleftrightarrow> call_at K u = Some (now', s)" for u now'
        using none by (auto simp: other)
      moreover have "lmCfg M = lmCfg K" using call(3) by simp
      ultimately show ?thesis using IH False call(1) by (simp add: called_append)
    qed
  next
    case (clean t cutoff)
    then have "call_at M = call_at K" by (auto simp: call_at_def fun_eq_iff)
    with IH clean show ?thesis by (simp add: called_append)
  next
    case (go t p p' K')
    then have "call_at M = call_at K"
      using lim_go_frame [OF go(3)] by (auto simp: call_at_def fun_eq_iff)
    with IH go lim_go_frame(1) [OF go(3)] show ?thesis by (simp add: called_append)
  qed
qed (simp add: call_at_def assms(2))

text \<open>
  Without a cleanup every bucket stays where it was made, and has seen the calls of its subject in
  the order in which their goroutines came to it.
\<close>

fun cleaning :: "lim_pc \<Rightarrow> bool" where
  "cleaning (CleanBegin _) = True"
| "cleaning (CleanLoop _ _ _) = True"
| "cleaning _ = False"

definition steady :: "Limiter \<Rightarrow> bool" where
  "steady L \<longleftrightarrow> (\<forall>s c. map_of (lmBuckets L) s = Some c \<longrightarrow> c < length (lmHeap L))
    \<and> (\<forall>s s' c. map_of (lmBuckets L) s = Some c \<longrightarrow> map_of (lmBuckets L) s' = Some c \<longrightarrow> s = s')
    \<and> (\<forall>t p. lmThreads L t = Some p \<longrightarrow> \<not> cleaning p)
    \<and> (\<forall>t now s c. lmThreads L t = Some (AllowBucket now s c) \<longrightarrow> map_of (lmBuckets L) s = Some c)
    \<and> (\<forall>t now s ok. lmThreads L t = Some (AllowReturn now s ok) \<longrightarrow> map_of (lmBuckets L) s \<noteq> None)"

definition answers :: "Limiter \<Rightarrow> bytes \<Rightarrow> (nat \<times> time \<times> bool) list \<Rightarrow> bool" where
  "answers L s lg \<longleftrightarrow> distinct (map fst lg)
    \<and> (\<forall>t now ok. (t, now, ok) \<in> set lg \<longleftrightarrow> lmThreads L t = Some (AllowReturn now s ok))"

definition bucket_run :: "Limiter \<Rightarrow> bytes \<Rightarrow> bool" where
  "bucket_run L s \<longleftrightarrow>
    (case map_of (lmBuckets L) s of
       None \<Rightarrow> True
     | Some c \<Rightarrow> \<exists>lg t0 u. answers L s lg \<and> call_at L u = Some (t0, s)
         \<and> allow_run (new_bucket (lmCfg L) t0) (map (fst \<circ> snd) lg)
             = (lmHeap L ! c, map (snd \<circ> snd) lg))"

lemma allow_run_snoc:
  "fst (allow_run b (ts @ [t])) = fst (allow (fst (allow_run b ts)) t)"
  "snd (allow_run b (ts @ [t])) = snd (allow_run b ts) @ [snd (allow (fst (allow_run b ts)) t)]"
  by (induction ts arbitrary: b)
    (simp_all only: append_Cons append_Nil allow_run_Cons, simp_all add: case_prod_beta Let_def)

lemma steadyD:
  assumes "steady L"
  shows "map_of (lmBuckets L) s = Some c \<Longrightarrow> c < length (lmHeap L)"
    "map_of (lmBuckets L) s = Some c \<Longrightarrow> map_of (lmBuckets L) s' = Some c \<Longrightarrow> s' = s"
    "lmThreads L t = Some p \<Longrightarrow> \<not> cleaning p"
    "lmThreads L t = Some (AllowBucket now s c) \<Longrightarrow> map_of (lmBuckets L) s = Some c"
    "lmThreads L t = Some (AllowReturn now s ok) \<Longrightarrow> map_of (lmBuckets L) s \<noteq> None"
  using assms unfolding steady_def by blast+

lemma steady_step:
  assumes "steady L" "lim_act a L = Some M" "\<forall>t c. a \<noteq> CleanupCall t c"
  shows "steady M"
  using assms(2)
proof (cases rule: lim_act_cases)
  case (call t now s)
  with assms(1) show ?thesis by (auto simp: steady_def)
next
  case (go t p p' K)
  have nc: "\<not> cleaning p" using steadyD(3) [OF assms(1)] go(2) by blast
  from go(3) show ?thesis
  proof (cases rule: lim_go_cases)
    case (find now s)
    with assms(1) go show ?thesis
      by (fastforce simp: steady_def find_bucket_def split: option.splits if_splits)
  next
    case (take now s c)
    with assms(1) go show ?thesis by (fastforce simp: steady_def split: if_splits)
  qed (use nc in simp_all)
qed (use assms(3) in blast)

lemma call_at_stays:
  assumes "lim_act a L = Some M" "call_at L u = Some x"
  shows "call_at M u = Some x"
  using assms(1)
proof (cases rule: lim_act_cases)
  case (go t p p' K)
  with assms(2) lim_go_frame [OF go(3)] show ?thesis by (auto simp: call_at_def)
qed (use assms(2) in \<open>auto simp: call_at_def\<close>)

lemma answers_cong:
  assumes "\<And>t now ok. lmThreads M t = Some (AllowReturn now s ok) \<longleftrightarrow> lmThreads L t = Some (AllowReturn now s ok)"
  shows "answers M s lg \<longleftrightarrow> answers L s lg"
  by (simp add: answers_def assms)

lemma bucket_run_cong:
  assumes "bucket_run L s" "lim_act a L = Some M" "lmCfg M = lmCfg L"
    "\<And>t now ok. lmThreads M t = Some (AllowReturn now s ok) \<longleftrightarrow> lmThreads L t = Some (AllowReturn now s ok)"
    "map_of (lmBuckets M) s = map_of (lmBuckets L) s"
    "\<And>c. map_of (lmBuckets L) s = Some c \<Longrightarrow> lmHeap M ! c = lmHeap L ! c"
  shows "bucket_run M s"
proof (cases "map_of (lmBuckets L) s")
  case (Some c)
  with assms(1) obtain lg t0 u where "answers L s lg" "call_at L u = Some (t0, s)"
    "allow_run (new_bucket (lmCfg L) t0) (map (fst \<circ> snd) lg) = (lmHeap L ! c, map (snd \<circ> snd) lg)"
    by (auto simp: bucket_run_def)
  with Some assms(5,6) answers_cong [of M s L, OF assms(4)] call_at_stays [OF assms(2)] show ?thesis
    unfolding bucket_run_def assms(3) by fastforce
qed (simp add: bucket_run_def assms(5))

lemma bucket_run_made:
  assumes "steady L" "map_of (lmBuckets L) s = None" "lmThreads L t = Some (AllowBegin now s)"
    "M = set_lim t (AllowBucket now s (length (lmHeap L))) (snd (find_bucket L now s))"
  shows "bucket_run M s"
proof -
  have "lmThreads L u \<noteq> Some (AllowReturn now' s ok)" for u now' ok
    using steadyD(5) [OF assms(1)] assms(2) by blast
  then have "answers M s []" using assms(4) by (simp add: answers_def)
  moreover have "call_at M t = Some (now, s)" by (simp add: assms(4) call_at_def)
  ultimately show ?thesis
    using assms(2,4)
    by (auto simp: bucket_run_def find_bucket_def intro!: exI [of _ "[]"])
qed

lemma bucket_run_take:
  assumes "steady L" "bucket_run L s" "lmThreads L t = Some (AllowBucket now s c)"
    "M = set_lim t (AllowReturn now s (snd (allow (lmHeap L ! c) now))) (snd (take_token L now c))"
  shows "bucket_run M s"
proof -
  have c: "map_of (lmBuckets L) s = Some c" "c < length (lmHeap L)"
    using steadyD(1,4) [OF assms(1)] assms(3) by blast+
  with assms(2) obtain lg t0 u where lg: "answers L s lg" "call_at L u = Some (t0, s)"
    and run: "allow_run (new_bucket (lmCfg L) t0) (map (fst \<circ> snd) lg) = (lmHeap L ! c, map (snd \<circ> snd) lg)"
    by (auto simp: bucket_run_def)
  let ?e = "(t, now, snd (allow (lmHeap L ! c) now))"
  have "answers M s (lg @ [?e])"
    using lg(1) assms(3,4) by (auto simp: answers_def image_iff)
  moreover have "call_at M u = Some (t0, s)"
    using lg(2) assms(3,4) by (auto simp: call_at_def)
  moreover have "allow_run (new_bucket (lmCfg M) t0) (map (fst \<circ> snd) (lg @ [?e]))
      = (lmHeap M ! c, map (snd \<circ> snd) (lg @ [?e]))"
    using run c(2) by (simp add: prod_eq_iff allow_run_snoc assms(4) del: allow_run.simps)
  ultimately show ?thesis using c(1) assms(4) unfolding bucket_run_def by fastforce
qed

lemma find_bucket_other:
  "\<not> (s' = s \<and> map_of (lmBuckets L) s = None) \<Longrightarrow>
    map_of (lmBuckets (snd (find_bucket L now s'))) s = map_of (lmBuckets L) s"
  by (cases "map_of (lmBuckets L) s'"; cases "s' = s") (simp_all add: find_bucket_def)

lemma find_bucket_heap:
  "c < length (lmHeap L) \<Longrightarrow> lmHeap (snd (find_bucket L now s)) ! c = lmHeap L ! c"
  by (cases "map_of (lmBuckets L) s") (simp_all add: find_bucket_def nth_append)

lemma bucket_run_step:
  assumes "steady L" "bucket_run L s" "lim_act a L = Some M" "\<forall>t c. a \<noteq> CleanupCall t c"
  shows "bucket_run M s"
  using assms(3)
proof (cases rule: lim_act_cases)
  case (call t now s')
  with assms(2,3) show ?thesis by - (rule bucket_run_cong [of L s a M]; simp)
next
  case (go t p p' K)
  have nc: "\<not> cleaning p" using steadyD(3) [OF assms(1)] go(2) by blast
  from go(3) show ?thesis
  proof (cases rule: lim_go_cases)
    case (find now s')
    show ?thesis
    proof (cases "s' = s \<and> map_of (lmBuckets L) s = None")
      case True
      with assms(1) find go(2,4) show ?thesis
        by (intro bucket_run_made [of L s t now]) (simp_all add: find_bucket_def)
    next
      case False
      have M: "M = set_lim t (AllowBucket now s' (fst (find_bucket L now s'))) (snd (find_bucket L now s'))"
        using go(4) find(3,4) by simp
      show ?thesis
      proof (rule bucket_run_cong [OF assms(2,3)])
        show "lmCfg M = lmCfg L" by (simp add: M)
        show "map_of (lmBuckets M) s = map_of (lmBuckets L) s"
          using find_bucket_other [OF False] by (simp add: M)
        show "lmHeap M ! c = lmHeap L ! c" if "map_of (lmBuckets L) s = Some c" for c
          using find_bucket_heap [OF steadyD(1) [OF assms(1) that]] by (simp add: M)
      qed (use go(2) find(1) in \<open>simp add: M\<close>)
    qed
  next
    case (take now s' c)
    show ?thesis
    proof (cases "s' = s")
      case True
      then show ?thesis
        using assms(1,2) go(2,4) take by - (rule bucket_run_take [of L s t now c]; simp)
    next
      case False
      moreover have "map_of (lmBuckets L) s' = Some c" using steadyD(4) [OF assms(1)] take go(2) by simp
      ultimately have "map_of (lmBuckets L) s \<noteq> Some c" using steadyD(2) [OF assms(1)] False by blast
      then have ne: "d \<noteq> c" if "map_of (lmBuckets L) s = Some d" for d using that by blast
      have M: "M = set_lim t (AllowReturn now s' (snd (allow (lmHeap L ! c) now))) (snd (take_token L now c))"
        using go(4) take(2,3) by simp
      show ?thesis
      proof (rule bucket_run_cong [OF assms(2,3)])
        show "lmHeap M ! d = lmHeap L ! d" if "map_of (lmBuckets L) s = Some d" for d
          using ne [OF that] by (simp add: M)
      qed (use go(2) take(1) False in \<open>simp_all add: M\<close>)
    qed
  qed (use nc in simp_all)
qed (use assms(4) in blast)

section \<open>How much interleaved calls are granted\<close>

lemma allow_span_bound:
  assumes "limiter_ok l" "finite T" "t0 \<in> T" "set ts \<subseteq> T"
  shows "of_nat (count_list (snd (allow_run (new_bucket (limCfg l) t0) ts)) True)
    \<le> rlBurst (limCfg l)
      + rlRequestsPerSecond (limCfg l) * (1 + f64_eps) ^ 3 * (of_int (Max T - Min T) / 1000000000)
      + of_nat (length ts) * drift (rlRequestsPerSecond (limCfg l)) (rlBurst (limCfg l))"
proof -
  let ?b = "new_bucket (limCfg l) t0" and ?k = "rlRequestsPerSecond (limCfg l) * (1 + f64_eps) ^ 3"
  let ?b' = "fst (allow_run ?b ts)"
  have ok: "bucket_ok ?b" by (rule new_bucket_ok [OF assms(1)])
  have "0 \<le> bkTokens ?b'" using allow_run_ok [OF ok, of ts] by (simp add: bucket_ok_def)
  moreover have "?k * (of_int (bkLastFill ?b' - t0) / 1000000000) \<le> ?k * (of_int (Max T - Min T) / 1000000000)"
  proof (intro mult_left_mono divide_right_mono)
    have "bkLastFill ?b' \<in> T" using allow_run_lastFill [of ?b ts] assms(3,4) by auto
    then have "bkLastFill ?b' \<le> Max T" "Min T \<le> t0" using assms(2,3) by simp_all
    then have "bkLastFill ?b' - t0 \<le> Max T - Min T" by linarith
    then show "(of_int (bkLastFill ?b' - t0) :: rat) \<le> of_int (Max T - Min T)" by (simp only: of_int_le_iff)
    show "0 \<le> ?k" using assms(1) ieee.eps_pos by (simp add: limiter_ok_def)
  qed simp
  ultimately show ?thesis using allow_run_bound [OF ok, of ts] by (simp only: new_bucket_sel)
qed

lemma steady_run:
  assumes "lim_exec xs L = Some M" "steady L" "\<forall>s. bucket_run L s" "\<forall>t c. CleanupCall t c \<notin> set xs"
  shows "steady M \<and> (\<forall>s. bucket_run M s)"
  using assms(1,4)
proof (induction xs arbitrary: M rule: rev_induct)
  case (snoc a xs)
  then obtain K where K: "lim_exec xs L = Some K" "lim_act a K = Some M" unfolding lim_exec_snoc by blast
  have a: "\<forall>t c. a \<noteq> CleanupCall t c" using snoc.prems(2) by auto
  from snoc.IH [OF K(1)] snoc.prems(2) have "steady K" "\<forall>s. bucket_run K s" by simp_all
  with steady_step [OF _ K(2) a] bucket_run_step [OF _ _ K(2) a] show ?case by blast
qed (use assms(2,3) in simp)

lemma count_list_card:
  assumes "distinct (map fst lg)"
  shows "count_list (map (snd \<circ> snd) lg) v = card {t. \<exists>now. (t, now, v) \<in> set lg}"
  using assms
proof (induction lg)
  case (Cons e lg)
  obtain t now w where e: "e = (t, now, w)" by (cases e)
  have fin: "finite {t. \<exists>now. (t, now, v) \<in> set lg}"
    by (rule finite_subset [of _ "fst ` set lg"]) force+
  have new: "t \<notin> {t. \<exists>now. (t, now, v) \<in> set lg}" using Cons.prems e by force
  show ?case
  proof (cases "w = v")
    case True
    then have "{t. \<exists>now. (t, now, v) \<in> set (e # lg)} = insert t {t. \<exists>now. (t, now, v) \<in> set lg}"
      by (auto simp: e)
    with True fin new Cons show ?thesis by (simp add: e)
  next
    case False
    then have "{t. \<exists>now. (t, now, v) \<in> set (e # lg)} = {t. \<exists>now. (t, now, v) \<in> set lg}" by (auto simp: e)
    with False Cons show ?thesis by (simp add: e)
  qed
qed simp

lemma drift_nonneg: "0 < r \<Longrightarrow> 0 < c \<Longrightarrow> 0 \<le> drift r c"
  using ieee.eps_pos by (simp add: drift_def f64_tiny_def)

text \<open>The answers a subject has had are at most the calls made for it.\<close>

lemma answers_bounded:
  assumes "lim_exec xs (limiter_threaded l) = Some L" "answers L s lg"
  shows "length lg \<le> length (called s xs)" "set (map (fst \<circ> snd) lg) \<subseteq> set (called s xs)"
    "card {t. \<exists>now. lmThreads L t = Some (AllowReturn now s True)} = count_list (map (snd \<circ> snd) lg) True"
proof -
  let ?C = "{t. \<exists>now. call_at L t = Some (now, s)}"
  have C: "finite ?C" "card ?C = length (called s xs)"
    "call_at L t = Some (now, s) \<Longrightarrow> now \<in> set (called s xs)" for t now
    using callers_run [OF assms(1), of s] by (simp_all add: limiter_threaded_def)
  have at: "call_at L t = Some (now, s)" if "(t, now, ok) \<in> set lg" for t now ok
    using assms(2) that by (auto simp: answers_def call_at_def)
  have "length lg = card (set (map fst lg))"
    using assms(2) by (metis answers_def distinct_card length_map)
  also have "\<dots> \<le> card ?C" using at by (intro card_mono C(1)) force
  finally show "length lg \<le> length (called s xs)" by (simp add: C(2))
  show "set (map (fst \<circ> snd) lg) \<subseteq> set (called s xs)" using at C(3) by force
  show "card {t. \<exists>now. lmThreads L t = Some (AllowReturn now s True)} = count_list (map (snd \<circ> snd) lg) True"
    using assms(2) by (simp add: answers_def count_list_card)
qed

text \<open>C32. The admission bound under any interleaving: whatever goroutines call the limiter, find their bucket
  and take from it in whatever order, with readings of the clock that overtake each other, a subject
  is granted at most the burst plus the rate times the seconds between its earliest and its
  latest reading, up to an explicit rounding term per call, as long as nothing is evicted.\<close>

theorem interleaved_admission:
  assumes "NewRateLimiter cfg = Some l" "float_cfg cfg"
    "lim_exec xs (limiter_threaded l) = Some L" "\<forall>t c. CleanupCall t c \<notin> set xs" "called s xs \<noteq> []"
  shows "of_nat (card {t. \<exists>now. lmThreads L t = Some (AllowReturn now s True)})
    \<le> rlBurst (limCfg l)
      + rlRequestsPerSecond (limCfg l) * (1 + f64_eps) ^ 3
          * (of_int (Max (set (called s xs)) - Min (set (called s xs))) / 1000000000)
      + of_nat (length (called s xs)) * drift (rlRequestsPerSecond (limCfg l)) (rlBurst (limCfg l))"
proof -
  let ?T = "set (called s xs)" and ?d = "drift (rlRequestsPerSecond (limCfg l)) (rlBurst (limCfg l))"
  let ?k = "rlRequestsPerSecond (limCfg l) * (1 + f64_eps) ^ 3"
  have ok: "limiter_ok l" and new: "limBuckets l = []" using NewRateLimiter_ok [OF assms(1,2)] by simp_all
  have init: "steady (limiter_threaded l)" "\<forall>s. bucket_run (limiter_threaded l) s"
    by (simp_all add: steady_def bucket_run_def limiter_threaded_def new)
  from steady_run [OF assms(3) init assms(4)] have st: "steady L" and run: "bucket_run L s" by blast+
  have callers: "call_at L t = Some (now, s) \<Longrightarrow> now \<in> ?T" "lmCfg L = limCfg l" for t now
    using callers_run [OF assms(3), of s] by (simp_all add: limiter_threaded_def)
  have pos: "0 \<le> ?d" "0 \<le> ?k" "0 \<le> rlBurst (limCfg l)"
    using ok ieee.eps_pos by (auto simp: limiter_ok_def intro: drift_nonneg)
  show ?thesis
  proof (cases "map_of (lmBuckets L) s")
    case None
    then have "lmThreads L t \<noteq> Some (AllowReturn now s True)" for t now
      using steadyD(5) [OF st] by blast
    moreover have "Min ?T \<le> Max ?T" using assms(5) by simp
    ultimately show ?thesis using pos by simp
  next
    case (Some c)
    with run obtain lg t0 u where lg: "answers L s lg" "call_at L u = Some (t0, s)"
      and r: "allow_run (new_bucket (limCfg l) t0) (map (fst \<circ> snd) lg) = (lmHeap L ! c, map (snd \<circ> snd) lg)"
      by (auto simp: bucket_run_def callers(2))
    note b = answers_bounded [OF assms(3) lg(1)]
    from allow_span_bound [OF ok _ callers(1) [OF lg(2)] b(2)]
    have "of_nat (count_list (map (snd \<circ> snd) lg) True)
      \<le> rlBurst (limCfg l) + ?k * (of_int (Max ?T - Min ?T) / 1000000000) + of_nat (length lg) * ?d"
      by (simp add: r)
    moreover have "of_nat (length lg) * ?d \<le> of_nat (length (called s xs)) * ?d"
      using b(1) pos(1) by (intro mult_right_mono) simp_all
    ultimately show ?thesis unfolding b(3) by linarith
  qed
qed

section \<open>A goroutine that runs alone\<close>

text \<open>The limiter as it is while its lock is free.\<close>

definition resting :: "Limiter \<Rightarrow> RateLimiter" where
  "resting L = \<lparr>limCfg = lmCfg L, limBuckets = map (\<lambda>(s, c). (s, lmHeap L ! c)) (lmBuckets L)\<rparr>"

definition stored :: "Limiter \<Rightarrow> bool" where
  "stored L \<longleftrightarrow> wf_map (lmBuckets L) \<and> distinct (map snd (lmBuckets L))
    \<and> (\<forall>c \<in> snd ` set (lmBuckets L). c < length (lmHeap L))"

lemma stored_go:
  assumes "stored L" "lim_go t L p = Some (p', M)"
  shows "stored M"
  using assms(2)
proof (cases rule: lim_go_cases)
  case (find now s)
  show ?thesis
  proof (cases "map_of (lmBuckets L) s")
    case None
    have "length (lmHeap L) \<notin> snd ` set (lmBuckets L)" using assms(1) by (auto simp: stored_def)
    with None assms(1) find wf_map_set [of "lmBuckets L" s "length (lmHeap L)"] show ?thesis
      by (fastforce simp: stored_def find_bucket_def map_set_new)
  qed (use assms(1) find in \<open>simp add: find_bucket_def\<close>)
next
  case (one cutoff s c es n)
  have "stored (L\<lparr>lmBuckets := map_del s (lmBuckets L)\<rparr>)"
    using assms(1) wf_map_del [of "lmBuckets L" s] unfolding stored_def
    by (auto simp: map_del_def distinct_map_filter)
  with one assms(1) show ?thesis by (simp add: clean_one_def)
qed (use assms(1) in \<open>simp_all add: stored_def\<close>)

lemma stored_set [simp]: "stored (set_lim t p L) = stored L"
  by (simp add: stored_def)

lemma stored_run:
  assumes "lim_exec xs (limiter_threaded l) = Some L" "wf_map (limBuckets l)"
  shows "stored L"
  using assms(1)
proof (induction xs arbitrary: L rule: rev_induct)
  case Nil
  with assms(2) show ?case by (auto simp: stored_def limiter_threaded_def wf_map_def set_zip)
next
  case (snoc a xs)
  then obtain K where K: "lim_exec xs (limiter_threaded l) = Some K" "lim_act a K = Some L"
    unfolding lim_exec_snoc by blast
  from K(2) snoc.IH [OF K(1)] show ?case by (cases rule: lim_act_cases) (auto dest: stored_go)
qed

lemma allow_alone:
  assumes "stored L" "lmLock L = None" "lmThreads L t = None"
  shows "\<exists>M. lim_exec [AllowCall t now s, Proceed t, Proceed t] L = Some M
    \<and> lmThreads M t = Some (AllowReturn now s (snd (Allow (Some (resting L)) now s)))
    \<and> Some (resting M) = fst (Allow (Some (resting L)) now s)"
proof (cases "map_of (lmBuckets L) s")
  case (Some c)
  then have c: "c < length (lmHeap L)" using assms(1) by (force simp: stored_def dest: map_of_SomeD)
  have wr: "map (\<lambda>(s, c'). (s, (lmHeap L)[c := b] ! c')) (lmBuckets L)
      = map_set s b (map (\<lambda>(s, c). (s, lmHeap L ! c)) (lmBuckets L))" for b
    using map_write [OF Some _ _ c, of "\<lambda>b. b"] assms(1) by (simp add: stored_def)
  have "bucket_for (resting L) now s = lmHeap L ! c"
    using Some by (simp add: bucket_for_def resting_def map_of_values)
  then show ?thesis
    using assms(2,3) Some by (simp add: Allow_Some find_bucket_def take_token_def case_prod_beta resting_def wr)
next
  case None
  let ?c = "length (lmHeap L)" and ?b = "new_bucket (lmCfg L) now"
  have b: "bucket_for (resting L) now s = ?b"
    using None by (simp add: bucket_for_def resting_def map_of_values)
  have "map (\<lambda>(s, c'). (s, (lmHeap L @ [b]) ! c')) (lmBuckets L)
      = map (\<lambda>(s, c). (s, lmHeap L ! c)) (lmBuckets L)" for b
    using assms(1) by (fastforce simp: stored_def nth_append)
  with b show ?thesis
    using assms(2,3) None
    by (simp add: Allow_Some find_bucket_def take_token_def case_prod_beta resting_def map_set_new
        map_of_values list_update_append)
qed

lemma clean_loop_alone:
  assumes "lmThreads L t = Some (CleanLoop cutoff es n)"
  shows "\<exists>M. lim_exec (replicate (length es + 1) (Proceed t)) L = Some M
    \<and> lmThreads M t = Some (CleanReturn (n + length (filter (\<lambda>e. idleSince (lmHeap L ! snd e) < cutoff) es)))
    \<and> lmCfg M = lmCfg L \<and> lmHeap M = lmHeap L
    \<and> lmBuckets M = filter (\<lambda>e. \<forall>c. (fst e, c) \<in> set es \<longrightarrow> \<not> idleSince (lmHeap L ! c) < cutoff) (lmBuckets L)"
  using assms
proof (induction es arbitrary: n L)
  case (Cons e es)
  obtain s c where e: "e = (s, c)" by (cases e)
  let ?K = "snd (clean_one L cutoff s c n)" and ?n = "fst (clean_one L cutoff s c n)"
  let ?L = "set_lim t (CleanLoop cutoff es ?n) ?K"
  have step: "lim_act (Proceed t) L = Some ?L" using Cons.prems by (simp add: e case_prod_beta)
  obtain M where M: "lim_exec (replicate (length es + 1) (Proceed t)) ?L = Some M"
    "lmThreads M t = Some (CleanReturn (?n + length (filter (\<lambda>e. idleSince (lmHeap L ! snd e) < cutoff) es)))"
    "lmCfg M = lmCfg L" "lmHeap M = lmHeap L"
    "lmBuckets M = filter (\<lambda>e. \<forall>c. (fst e, c) \<in> set es \<longrightarrow> \<not> idleSince (lmHeap L ! c) < cutoff) (lmBuckets ?L)"
    using Cons.IH [of ?L ?n] by auto
  have 1: "lim_exec (replicate (length (e # es) + 1) (Proceed t)) L = Some M"
    using M(1) step by simp
  have 2: "lmBuckets M = filter (\<lambda>e'. \<forall>c'. (fst e', c') \<in> set (e # es) \<longrightarrow>
      \<not> idleSince (lmHeap L ! c') < cutoff) (lmBuckets L)"
    unfolding M(5) by (auto simp: clean_one_def map_del_def e intro!: filter_cong)
  have 3: "?n + length (filter (\<lambda>e. idleSince (lmHeap L ! snd e) < cutoff) es)
      = n + length (filter (\<lambda>e. idleSince (lmHeap L ! snd e) < cutoff) (e # es))"
    by (simp add: clean_one_def e)
  show ?case
    by (rule exI [of _ M]) (intro conjI 1 2 M(3,4) M(2) [unfolded 3])
qed simp

lemma cleanup_alone:
  assumes "stored L" "lmLock L = None" "lmThreads L t = None"
  shows "\<exists>k M. lim_exec (CleanupCall t cutoff # replicate k (Proceed t)) L = Some M
    \<and> lmThreads M t = Some (CleanReturn (snd (Cleanup (Some (resting L)) cutoff)))
    \<and> Some (resting M) = fst (Cleanup (Some (resting L)) cutoff)"
proof -
  let ?L = "(set_lim t (CleanLoop cutoff (lmBuckets L) 0) L)\<lparr>lmLock := Some t\<rparr>"
  let ?idle = "\<lambda>e. idleSince (lmHeap L ! snd e) < cutoff"
  have start: "lim_exec [CleanupCall t cutoff, Proceed t] L = Some ?L"
    using assms(2,3) by (simp add: set_lim_def)
  obtain M where M: "lim_exec (replicate (length (lmBuckets L) + 1) (Proceed t)) ?L = Some M"
    "lmThreads M t = Some (CleanReturn (length (filter ?idle (lmBuckets L))))"
    "lmCfg M = lmCfg L" "lmHeap M = lmHeap L"
    "lmBuckets M = filter (\<lambda>e. \<forall>c. (fst e, c) \<in> set (lmBuckets L) \<longrightarrow> \<not> idleSince (lmHeap L ! c) < cutoff) (lmBuckets L)"
    using clean_loop_alone [of ?L t cutoff "lmBuckets L" 0] by auto
  have "lmBuckets M = filter (\<lambda>e. \<not> ?idle e) (lmBuckets L)"
  proof -
    have "(fst e, c) \<in> set (lmBuckets L) \<Longrightarrow> e \<in> set (lmBuckets L) \<Longrightarrow> c = snd e" for e c
      using assms(1) eq_key_imp_eq_value [of "lmBuckets L" "fst e" c "snd e"]
      by (simp add: stored_def wf_map_def)
    then show ?thesis unfolding M(5) by (intro filter_cong) auto
  qed
  then have 1: "resting M = (resting L)\<lparr>limBuckets := map_purge (\<lambda>b. idleSince b < cutoff) (limBuckets (resting L))\<rparr>"
    by (simp add: resting_def M(3,4) map_purge_def filter_map comp_def case_prod_beta)
  have 2: "map_count (\<lambda>b. idleSince b < cutoff) (limBuckets (resting L)) = length (filter ?idle (lmBuckets L))"
    by (simp add: resting_def map_count_def filter_map comp_def case_prod_beta)
  have 3: "lim_exec (CleanupCall t cutoff # replicate (length (lmBuckets L) + 2) (Proceed t)) L = Some M"
  proof -
    have "CleanupCall t cutoff # replicate (length (lmBuckets L) + 2) (Proceed t)
        = [CleanupCall t cutoff, Proceed t] @ replicate (length (lmBuckets L) + 1) (Proceed t)" by simp
    then show ?thesis by (simp only: lim_exec_append start M(1) option.case)
  qed
  show ?thesis
    by (intro exI [of _ "length (lmBuckets L) + 2"] exI [of _ M]) (simp only: 3 M(2) Cleanup_Some 1 2 fst_conv snd_conv simp_thms)
qed

text \<open>The one-step methods of \<open>RateLimit\<close> are what a goroutine does that runs alone.\<close>

theorem limiter_methods_refined:
  assumes "wf_map (limBuckets l)" "lim_exec xs (limiter_threaded l) = Some L" "lmLock L = None"
    "lmThreads L t = None"
  shows "\<exists>M. lim_exec [AllowCall t now s, Proceed t, Proceed t] L = Some M
      \<and> lmThreads M t = Some (AllowReturn now s (snd (Allow (Some (resting L)) now s)))
      \<and> Some (resting M) = fst (Allow (Some (resting L)) now s)"
    "\<exists>k M. lim_exec (CleanupCall t cutoff # replicate k (Proceed t)) L = Some M
      \<and> lmThreads M t = Some (CleanReturn (snd (Cleanup (Some (resting L)) cutoff)))
      \<and> Some (resting M) = fst (Cleanup (Some (resting L)) cutoff)"
  using allow_alone [OF stored_run [OF assms(2,1)] assms(3,4)]
    cleanup_alone [OF stored_run [OF assms(2,1)] assms(3,4)] by blast+

text \<open>The lock is held by the goroutine of a cleanup, which never waits.\<close>

lemma lock_run:
  assumes "lim_exec xs (limiter_threaded l) = Some L" "lmLock L = Some u"
  shows "\<exists>cutoff es n. lmThreads L u = Some (CleanLoop cutoff es n)"
  using assms
proof (induction xs arbitrary: L rule: rev_induct)
  case (snoc a xs)
  then obtain K where K: "lim_exec xs (limiter_threaded l) = Some K" "lim_act a K = Some L"
    unfolding lim_exec_snoc by blast
  from K(2) show ?case
  proof (cases rule: lim_act_cases)
    case (go t p p' J)
    from go(3) show ?thesis
      by (cases rule: lim_go_cases) (use snoc.IH [OF K(1)] snoc.prems(2) go(2,4) in \<open>fastforce split: if_splits\<close>)+
  qed (use snoc.IH [OF K(1)] snoc.prems(2) in auto)
qed (simp add: limiter_threaded_def)

theorem limiter_never_stuck:
  assumes "lim_exec xs (limiter_threaded l) = Some L" "lmThreads L t = Some p"
    "\<forall>now s ok. p \<noteq> AllowReturn now s ok" "\<forall>n. p \<noteq> CleanReturn n"
  shows "lim_act (Proceed t) L \<noteq> None \<or> (\<exists>u. lmLock L = Some u \<and> lim_act (Proceed u) L \<noteq> None)"
proof (cases "lmLock L")
  case None
  with assms(2-4) show ?thesis by (cases "(t, L, p)" rule: lim_go.cases) (auto simp: case_prod_beta)
next
  case (Some u)
  from lock_run [OF assms(1) this] obtain cutoff es n where u: "lmThreads L u = Some (CleanLoop cutoff es n)"
    by blast
  then have "lim_act (Proceed u) L \<noteq> None" by (cases es) (auto simp: case_prod_beta)
  with Some show ?thesis by blast
qed

end
