(* ===== verification/Examples.thy ===== *)
theory Examples
  imports Scene StdioExamples LimiterThreads
begin

text \<open>
  The properties of the components at the concrete server of \<open>Scene\<close>, with all their hypotheses
  met.
\<close>

section \<open>The endpoint\<close>

lemma effects_need_authentication_witness:
  "\<not> same_core server0 (snd (routes env0 ''POST'' ''/mcp'' server0 call_request))
    \<and> extractBearer (header_get (rqHeaders call_request) ''Authorization'') = Some ''ta''
    \<and> (\<exists>validate token i. cfgValidator (svCfg server0) = Some validate
        \<and> extractBearer (header_get (rqHeaders call_request) ''Authorization'') = Some token
        \<and> validate token (cfgAudience (svCfg server0)) = Some i)"
proof -
  have n: "\<not> same_core server0 (snd (routes env0 ''POST'' ''/mcp'' server0 call_request))"
    using same_core_traffic server0_call_traffic by fastforce
  from effects_need_authentication [OF n] n show ?thesis by (simp add: header_get_def)
qed

text \<open>Bob comes with Alice's session.\<close>

definition stolen :: Request where
  "stolen = admitted_request (post ''Bearer tb'' ''sa'' call_body) bob"

lemma foreign_session_refused_witness:
  "handleMCPPost env0 server0 stolen = (fst (handleMCPDelete server0 stolen), server0)
    \<and> rsStatus (fst (handleMCPDelete server0 stolen)) = 403"
proof -
  have a: "header_get (rqHeaders stolen) session_header \<noteq> []" "\<not> owns_session server0 stolen"
    "request_message stolen = Some call_message" "session_of server0 stolen \<noteq> None"
    by (simp_all add: stolen_def owns_session_def bob_def)
  from foreign_session_refused [OF a(1,2), of env0] a(3,4) show ?thesis by simp
qed

definition alices :: Request where
  "alices = admitted_request call_request alice"


definition forbidden :: JSONRPCMessage where
  "forbidden = call_message\<lparr>msgParams := Some (tool ''drop'')\<rparr>"


definition nameless :: JSONRPCMessage where
  "nameless = call_message\<lparr>msgParams := Some (JObj [])\<rparr>"

lemma nameless_call_is_sent_witness:
  "traffic (snd (handleRequest env0 server0 alices (session_for ''sa'' ''alice'') nameless))
    = [EvCall 7 ''tools/call'' (Some (JObj []))]"
proof -
  have "gate_of (access_of server0 alices) (msgMethod nameless)
      = Some (''name'', AllowsTool (access_of server0 alices))"
    "msgParams nameless = Some (JObj [])" "unmarshal_rawmap (JObj []) = Some []"
    "param_ident [] ''name'' = []" "svRunner server0 = Some 7"
    by (simp_all add: gate_of_def nameless_def map_of_members_def param_ident_def)
  from nameless_call_is_sent [OF this] show ?thesis by (simp add: nameless_def)
qed

definition list_message :: JSONRPCMessage where
  "list_message = call_message\<lparr>msgMethod := ''tools/list'', msgParams := None\<rparr>"

lemma list_request_filtered_witness:
  "fst (handleRequest env0 server0 alices (session_for ''sa'' ''alice'') list_message)
    = reply_result list_message (marshal_raw
       (case filterListResult (Some tools_result) ''tools'' (AllowsTool (access_of server0 alices)) of
          None \<Rightarrow> Some tools_result | Some out \<Rightarrow> out))"
proof -
  have "list_of (access_of server0 alices) (msgMethod list_message)
      = Some (''tools'', AllowsTool (access_of server0 alices))" "svRunner server0 = Some 7"
    "envCall env0 (wTrace (svWorld server0)) 7 (msgMethod list_message) (msgParams list_message)
      = Inr (Some tools_result)"
    by (simp_all add: list_of_def list_message_def)
  from list_request_filtered [OF this] show ?thesis by simp
qed

lemma list_filter_exact_witness:
  "\<exists>out obj. filterListResult (Some tools_result) ''tools'' (\<lambda>n. n = ''read'') = Some (Some out)
    \<and> unmarshal_rawmap out = Some obj \<and> map_of obj ''tools'' = Some (JArr [tool ''read''])"
proof -
  have "unmarshal_rawmap tools_result = Some [(''tools'', JArr [tool ''read'', tool ''drop''])]"
    "map_of [(''tools'', JArr [tool ''read'', tool ''drop''])] ''tools''
      = Some (JArr [tool ''read'', tool ''drop''])"
    "unmarshal_rawlist (JArr [tool ''read'', tool ''drop'']) = Some [tool ''read'', tool ''drop'']"
    by (simp_all add: tools_result_def map_of_members_def)
  note f = list_filter_exact [OF this, of "\<lambda>n. n = ''read''"]
  have "item_ident (tool ''read'') = ''read''" "item_ident (tool ''drop'') = ''drop''" by code_simp+
  with f show ?thesis by auto
qed

lemma curated_capabilities_exact_witness:
  "map_of (curatedInitCapabilities (Some [(''tools'', JObj []), (''prompts'', JObj [])])
      (Resolve (Some catalog0) [])) ''tools'' = None"
proof -
  have "wf_map [(''tools'', JObj []), (''prompts'', JObj [])]" by (simp add: wf_map_def)
  moreover have "\<not> cap_visible (Resolve (Some catalog0) []) ''tools''" by code_simp
  ultimately show ?thesis using curated_capabilities_exact by simp
qed


section \<open>Sessions\<close>

definition minted :: bytes where
  "minted = ToLower_ascii (base32_encode (replicate 16 (CHR ''a'')))"

lemma minted_id [simp]: "NewSessionID (Some (replicate 16 (CHR ''a''))) = Some minted"
  by (simp add: NewSessionID_def minted_def)

definition init_request :: Request where
  "init_request = admitted_request (post ''Bearer ta'' [] init_body) alice"

lemma store0_ok: "store_ok store0"
  by (simp add: store0_def mem.ok_ops mem.ok_empty)

lemma initialize_creates_session_witness:
  "\<exists>resp s'. handleInitialize env0 server0 init_request init_message = (resp, s')
    \<and> header_get (rsHeaders resp) session_header = minted
    \<and> Get (svSessions s') minted = Some (new_session minted ''alice'' ''2025-11-25'' zero_impl 0)"
proof -
  obtain resp s' where r: "handleInitialize env0 server0 init_request init_message = (resp, s')"
    by (cases "handleInitialize env0 server0 init_request init_message")
  have "msgParams init_message = Some (JObj [])" "unmarshal_params (JObj []) = (zero_params, True)"
    "NewSessionID (envRand env0 (wRand (svWorld server0))) = Some minted" "store_ok (svSessions server0)"
    by (simp_all add: store0_ok)
  from initialize_creates_session [OF this r] r show ?thesis
    by (simp add: init_request_def negotiateProtocolVersion_def SupportedProtocolVersions_def
        preferredProtocolVersion_def zero_params_def init_world_def)
qed

definition cfg1 :: Config where
  "cfg1 = cfg0\<lparr>cfgSessions := None, cfgBackend := None\<rparr>"

lemma sessions_genuine_witness:
  "\<exists>s sess. serving env0 cfg1 init_world s \<and> Get (svSessions s) minted = Some sess
    \<and> sessSubject sess = ''alice'' \<and> sessID sess = minted"
proof -
  let ?new = "New cfg1 init_world"
  have started: "serving env0 cfg1 init_world ?new"
    by (rule serving.started) (simp add: run_start_def New_def Let_def cfg1_def cfg0_def)
  let ?rq = "post ''Bearer ta'' [] init_body"
  let ?s = "serve env0 ?new (HttpRequest ''POST'' ''/mcp'' ?rq)"
  have served: "serving env0 cfg1 init_world ?s"
    by (rule serving.served [OF started]) (simp add: post_def)
  have svc: "svCfg ?new = cfg1" "svLimiter ?new = None" "svWorld ?new = init_world"
    "svSessions ?new = NewInMemorySessionStore"
    by (simp_all add: New_def Let_def cfg1_def cfg0_def NewRateLimiter_def)
  have c: "cfgValidator cfg1 = Some validate0" "cfgAudience cfg1 = ''aud''" "cfgAllowedOrigins cfg1 = []"
    by (simp_all add: cfg1_def cfg0_def)
  have "authenticated (Some validate0) ''aud'' ?rq = Some alice"
    by (simp add: authenticated_def header_get_def validate0_def)
  moreover have "origin_ok [] ?rq" "version_of ?rq \<in> set SupportedProtocolVersions"
    by (simp_all add: origin_ok_def version_of_def header_get_def session_header_def
        fallbackProtocolVersion_def SupportedProtocolVersions_def)
  moreover have "limited env0 ?new rq = (?new, True)" for rq using svc by (simp add: limited_def)
  ultimately have "?s = snd (handleMCPPost env0 ?new init_request)"
    by (simp add: routes_def svc c mcpChain_eq Let_def init_request_def)
  then have "?s = snd (handleInitialize env0 ?new init_request init_message)"
    by (simp add: post_decoded init_request_def)
  moreover obtain resp s' where r: "handleInitialize env0 ?new init_request init_message = (resp, s')"
    by (cases "handleInitialize env0 ?new init_request init_message")
  ultimately have s: "?s = s'" by simp
  have "wRand init_world = 0" "wClock init_world = 0" by (simp_all add: init_world_def)
  then have "Get (svSessions s') minted = Some (new_session minted ''alice'' ''2025-11-25'' zero_impl 0)"
    using r by (auto simp: handleInitialize_def rand_Read_def Now_def Let_def svc init_request_def
        mem.get_after_create mem.ok_empty negotiateProtocolVersion_def
        SupportedProtocolVersions_def preferredProtocolVersion_def zero_params_def)
  with sessions_genuine [OF served, of minted] s served show ?thesis
    by (fastforce simp: cfg1_def new_session_def)
qed

lemma sweep_keeps_active_sessions_witness:
  "Get (svSessions (runSessionGC env0 server0 (1800 * Second))) ''sa'' = Some (session_for ''sa'' ''alice'')
    \<and> Get (svSessions (runSessionGC env0 server0 (1801 * Second))) ''sa'' = None"
proof -
  have "store_ok (svSessions server0)" by (simp add: store0_ok)
  note sw = sweep_keeps_active_sessions [OF this, of env0 _ "''sa''"]
  have "cfgIdleTimeout cfg0 = 0" by (simp add: cfg0_def)
  then show ?thesis
    using sw by (simp add: session_for_def new_session_def Second_def Let_def)
qed

section \<open>From the command line to the process\<close>

definition backend_file :: BackendConfig where
  "backend_file = zero_backend\<lparr>bcCommand := ''/bin/x'', bcEnv := [(''K'', ''v'')]\<rparr>"

definition file0 :: FileConfig where
  "file0 = zero_file_config\<lparr>fcBackend := Some backend_file\<rparr>"

definition keyless :: APIKeyValidator where
  "keyless = \<lparr>vKeys = [], vDecoded = []\<rparr>"


definition no_flags :: Flags where
  "no_flags = \<lparr>flShowVersion = False, flConfigPath = [], flListen = [], flHashToken = []\<rparr>"

lemma empty_audience_closes_server_witness:
  "\<exists>cfg. main ''1'' (\<lambda>_. None) no_flags = Serves cfg
    \<and> same_core (New cfg init_world)
        (snd (routes env0 ''POST'' ''/mcp'' (New cfg init_world) call_request))"
proof -
  obtain cfg where cfg: "main ''1'' (\<lambda>_. None) no_flags = Serves cfg"
    by (auto simp: main_def no_flags_def listen_addr_def zero_file_config_def NewAPIKeyValidator_def
        DefaultListenAddr_def)
  moreover have "flConfigPath no_flags = []" by (simp add: no_flags_def)
  ultimately show ?thesis using empty_audience_closes_server [OF cfg] by blast
qed

lemma timeout_seconds_range_witness:
  "seconds 60 = 60000000000
    \<and> (let s = New (runtime_config ''1'' (file0\<lparr>fcIdleTimeoutSeconds := 9223372037\<rparr>) keyless) init_world in
       runSessionGC env0 s 5 = s)"
  using timeout_seconds_range [of 60 "file0\<lparr>fcIdleTimeoutSeconds := 9223372037\<rparr>"
      "New (runtime_config ''1'' (file0\<lparr>fcIdleTimeoutSeconds := 9223372037\<rparr>) keyless) init_world"]
  by (simp add: Let_def)

definition typo_file :: bytes where
  "typo_file = ''{\"audience\":\"x\",\"backend\":{\"command\":\"c\",\"sandbox\":{\"disable\":true}}}''"

lemma unknown_settings_refused_witness:
  "LoadFileConfig (Some typo_file) = Inl ParseConfig"
proof -
  have "parse_value (2 * length typo_file + 2) maxNestingDepth typo_file
      = Some (JObj [(''audience'', JStr ''x''), (''backend'', JObj [(''command'', JStr ''c''),
          (''sandbox'', JObj [(''disable'', JBool True)])])], [])" (is "_ = Some (?v, _)")
    by code_simp
  moreover have "has_unknown config_schema ?v" by code_simp
  ultimately show ?thesis by (rule unknown_settings_refused)
qed


section \<open>The pool\<close>

definition wrapped0 :: Cmd where
  "wrapped0 = projr (WrapCommand (envLook env0)
     ((exec_Command (envLook env0) ''/bin/x'' [])\<lparr>cmdEnv := Some [''K=v'']\<rparr>) None)"

lemma wrap0: "WrapCommand (envLook env0)
    ((exec_Command (envLook env0) ''/bin/x'' [])\<lparr>cmdEnv := Some [''K=v'']\<rparr>) None = Inr wrapped0"
proof -
  have "\<not> isl (WrapCommand (envLook env0)
    ((exec_Command (envLook env0) ''/bin/x'' [])\<lparr>cmdEnv := Some [''K=v'']\<rparr>) None)" by code_simp
  then show ?thesis by (simp add: wrapped0_def)
qed

lemma build0:
  "Build env0 w backend0 = (Inr (wNext w), emit (EvBuild (wNext w) wrapped0) (w\<lparr>wNext := wNext w + 1\<rparr>))"
  by (simp add: Build_def backend0_def wrap0)

lemmas pool_simps =
  pool_Start_def NewRunnerPool_def runner_Start_def runner_Stop_def Let_def build0 new_instance_def
  RunnerFor_def find_or_build_def start_once_def Now_def PartitionKey_def

text \<open>The pool after its warm-up: process 0 was started and, unless it is shared, stopped.\<close>

definition pool0 :: "bool \<Rightarrow> RunnerPool" where
  "pool0 share = fst (snd (pool_Start env0 init_world (NewRunnerPool backend0 share)))"

definition world0 :: "bool \<Rightarrow> World" where
  "world0 share = snd (snd (pool_Start env0 init_world (NewRunnerPool backend0 share)))"

lemma warm0: "warmed env0 backend0 share init_world (pool0 share) (world0 share)"
proof -
  have "fst (pool_Start env0 init_world (NewRunnerPool backend0 share)) = None"
    by (simp add: pool_simps)
  then show ?thesis by (simp add: warmed_def pool0_def world0_def prod_eq_iff init_world_def)
qed

lemma alice_runs:
  "\<exists>p w. pool_run env0 (pool0 False) (world0 False) [ForOp alice] = (p, w, [(alice, 1)])
    \<and> (\<exists>pool w'. RunnerFor env0 w (Some p) alice = (Inr 1, pool, w'))"
  by (simp add: pool_run_def pool0_def world0_def pool_simps init_world_def)

lemma handed_runner_alive_witness:
  "\<exists>p w pool w'. RunnerFor env0 w (Some p) alice = (Inr 1, pool, w')
    \<and> starts 1 (wTrace w') = 1 \<and> EvStop 1 \<notin> set (wTrace w')"
proof -
  obtain p w pool w' where r: "pool_run env0 (pool0 False) (world0 False) [ForOp alice] = (p, w, [(alice, 1)])"
    "RunnerFor env0 w (Some p) alice = (Inr 1, pool, w')" using alice_runs by blast
  from handed_runner_alive [OF warm0 r] r(2) show ?thesis by blast
qed

lemma close_stops_all_witness:
  "\<exists>w' pool w''. pool_Close env0 w' pool = (None, pool, w'') \<and> EvStop 1 \<in> set (wTrace w'')
    \<and> RunnerFor env0 w'' pool bob = (Inl ''runner pool closed'', pool, w'')"
proof -
  obtain p w where r: "pool_run env0 (pool0 False) (world0 False) [ForOp alice] = (p, w, [(alice, 1)])"
    using alice_runs by blast
  obtain err pool w'' where c: "pool_Close env0 w (Some p) = (err, pool, w'')"
    by (cases "pool_Close env0 w (Some p)")
  have "(alice, 1) \<in> set [(alice, 1 :: nat)]" by simp
  from close_stops_all [OF warm0 r c this] show ?thesis by blast
qed

definition broken :: Env where
  "broken = env0\<lparr>envStart := (\<lambda>_ _. Inl ''exit 1'')\<rparr>"



section \<open>The limiter\<close>

definition limits0 :: RateLimit where
  "limits0 = \<lparr>rlRequestsPerSecond = 1, rlBurst = 2, rlEvictAfter = 0\<rparr>"

lemma limiter0: "NewRateLimiter limits0
    = Some \<lparr>limCfg = limits0\<lparr>rlEvictAfter := DefaultLimiterEviction\<rparr>, limBuckets = []\<rparr>"
  by (simp add: NewRateLimiter_def limits0_def Let_def)

lemma limits0_float: "float_cfg limits0"
  using f64_representable [of 1 0] f64_representable [of 2 0]
  by (simp add: float_cfg_def limits0_def)

lemma admission_bound_witness:
  "of_nat (count_list (decisions ''alice'' (snd (lim_run (NewRateLimiter limits0)
      [AllowOp 0 ''alice'', AllowOp 0 ''alice'', AllowOp 0 ''alice'']))) True)
    \<le> (2 :: rat) + 3 * drift 1 2"
proof -
  let ?ops = "[AllowOp 0 ''alice'', AllowOp 0 ''alice'', AllowOp 0 ''alice'']"
  have "\<forall>c. CleanupOp c \<notin> set ?ops" "calls_of ''alice'' ?ops = [0, 0, 0]" by simp_all
  from admission_bound [OF limiter0 limits0_float this] show ?thesis
    by (simp add: limiter0) (simp add: limits0_def)
qed

text \<open>Two calls of the limiter that overtake each other.\<close>

abbreviation overtaking :: "lim_action list" where
  "overtaking \<equiv>
    [AllowCall 0 5 ''alice'', AllowCall 1 3 ''alice'', Proceed 0, Proceed 1, Proceed 1, Proceed 0]"

lemma interleaved_admission_witness:
  "\<exists>l L. NewRateLimiter limits0 = Some l \<and> lim_exec overtaking (limiter_threaded l) = Some L
    \<and> of_nat (card {t. \<exists>now. lmThreads L t = Some (AllowReturn now ''alice'' True)})
      \<le> (2 :: rat) + (1 + f64_eps) ^ 3 * (2 / 1000000000) + 2 * drift 1 2"
proof -
  let ?l = "\<lparr>limCfg = limits0\<lparr>rlEvictAfter := DefaultLimiterEviction\<rparr>, limBuckets = []\<rparr>"
  obtain L where L: "lim_exec overtaking (limiter_threaded ?l) = Some L"
    by (simp add: limiter_threaded_def find_bucket_def take_token_def case_prod_beta)
  have "\<forall>t c. CleanupCall t c \<notin> set overtaking" "called ''alice'' overtaking \<noteq> []" by simp_all
  from interleaved_admission [OF limiter0 limits0_float L this]
  have "of_nat (card {t. \<exists>now. lmThreads L t = Some (AllowReturn now ''alice'' True)})
      \<le> (2 :: rat) + (1 + f64_eps) ^ 3 * (2 / 1000000000) + 2 * drift 1 2"
    by (simp add: limits0_def)
  with L limiter0 show ?thesis by blast
qed

lemma limiter_isolates_subjects_witness:
  "decisions ''bob'' (snd (lim_run (NewRateLimiter limits0)
      [AllowOp 0 ''alice'', AllowOp 0 ''alice'', AllowOp 0 ''alice'', AllowOp 0 ''bob'']))
    = decisions ''bob'' (snd (lim_run (NewRateLimiter limits0) [AllowOp 0 ''bob'']))"
  using limiter_isolates_subjects [OF limiter0 limits0_float, of "''bob''"
      "[AllowOp 0 ''alice'', AllowOp 0 ''alice'', AllowOp 0 ''alice'', AllowOp 0 ''bob'']"]
  by (simp add: limiter0)

definition drained :: Server where
  "drained = server0\<lparr>svCfg := cfg0\<lparr>cfgRateLimit := limits0\<rparr>,
     svLimiter := fst (lim_run (NewRateLimiter limits0) [AllowOp 0 ''alice'', AllowOp 0 ''alice'']),
     svWorld := init_world\<rparr>"

lemma default_eviction_resets_limits_witness:
  "\<exists>l. svLimiter drained = Some l \<and> \<not> snd (Allow (Some l) 0 ''alice'')
    \<and> (\<exists>l'. svLimiter (runSessionGC env0 drained 1) = Some l' \<and> snd (Allow (Some l') 0 ''alice''))"
proof -
  let ?l0 = "\<lparr>limCfg = limits0\<lparr>rlEvictAfter := DefaultLimiterEviction\<rparr>, limBuckets = []\<rparr>"
  let ?ops = "[AllowOp 0 ''alice'', AllowOp 0 ''alice'']"
  have "limiter_ok ?l0" using NewRateLimiter_ok(1) [OF limiter0 limits0_float] .
  then obtain l where l: "fst (lim_run (Some ?l0) ?ops) = Some l" "limiter_ok l"
    "limCfg l = limCfg ?l0" using lim_run_ok by blast
  then have s: "svLimiter drained = Some l" by (simp add: drained_def limiter0)
  have zero: "\<not> 0 < Seconds (time_sub 0 0)" by (simp add: Seconds_def time_sub_def)
  have f: "f64 1 = 1" "f64 0 = 0" using f64_representable [of 1 0] by (simp_all add: is_float_def)
  have buckets: "limBuckets l = [(''alice'', \<lparr>bkRate = 1, bkCapacity = 2, bkTokens = 0, bkLastFill = 0,
     bkLastUsed = 0\<rparr>)]"
    using l(1) by (auto simp: Allow_def allow_def zero new_bucket_def limits0_def f)
  have burst: "rlBurst (limCfg l) = 2" by (simp add: l(3) limits0_def)
  have "\<not> snd (Allow (Some l) 0 ''alice'')"
    by (simp add: Allow_def allow_def zero buckets)
  moreover have "rlEvictAfter (cfgRateLimit (svCfg drained)) = 0" "0 < fst (idleAndSweep drained)"
    by (simp_all add: drained_def limits0_def idleAndSweep_def Let_def cfg0_def DefaultIdleTimeout_def Minute_def Second_def)
  moreover have "\<forall>i b. map_of (limBuckets l) i = Some b \<longrightarrow> bkLastUsed b < 1" "1 \<le> rlBurst (limCfg l)"
    by (simp_all add: burst buckets)
  ultimately show ?thesis
    using default_eviction_resets_limits [OF _ _ s l(2), of 1 env0 0 "''alice''"] s by blast
qed

section \<open>Credentials, patterns, encodings\<close>

definition key0 :: APIKey where
  "key0 = \<lparr>keyTokenHashHex = HashToken ''ta'', keyAudience = ''aud'', keySubject = ''alice'',
     keyScopes = [''s'']\<rparr>"



lemma session_id_format_and_injective_witness:
  "\<exists>i i'. NewSessionID (Some (replicate 16 (CHR ''a''))) = Some i
    \<and> NewSessionID (Some (replicate 16 (CHR ''b''))) = Some i' \<and> length i = 26 \<and> i \<noteq> i'"
proof -
  let ?a = "replicate 16 (CHR ''a'')" and ?b = "replicate 16 (CHR ''b'')"
  obtain i i' where s: "NewSessionID (Some ?a) = Some i" "NewSessionID (Some ?b) = Some i'"
    by (simp add: NewSessionID_def)
  have "length ?a = 16" "length ?b = 16" "?a \<noteq> ?b" by simp_all
  with session_id_format_and_injective [OF this(1,2) s] s show ?thesis by blast
qed

lemma glob_sound_witness:
  "\<exists>segs. segments ''rea?'' = Some segs \<and> in_language segs ''read''"
proof -
  have "globPatternMatches ''rea?'' ''read''" by code_simp
  from glob_sound [OF this] show ?thesis by (simp add: ContainsAny_def)
qed

section \<open>A server that runs\<close>

text \<open>\<open>cfg0\<close> isolates its callers: the state after the start, and after one call by alice.\<close>

definition started0 :: Server where
  "started0 = (New cfg0 init_world)\<lparr>svPool := Some (pool0 False), svWorld := world0 False,
     svBackendCaps := Caps (Some (pool0 False))\<rparr>"

lemma run_start0: "run_start env0 (New cfg0 init_world) = (None, started0)"
proof -
  have "svCfg (New cfg0 init_world) = cfg0" "svWorld (New cfg0 init_world) = init_world"
    "cfgRunner cfg0 = None" "cfgBackend cfg0 = Some backend0" "cfgBackendShareSafe cfg0 = False"
    by (simp_all add: New_def Let_def cfg0_def)
  moreover have "pool_Start env0 init_world (NewRunnerPool backend0 False)
      = (None, pool0 False, world0 False)"
    using warm0 by (simp add: warmed_def)
  ultimately show ?thesis by (simp add: run_start_def started0_def)
qed

lemma started0_sel [simp]:
  "svCfg started0 = cfg0" "svLimiter started0 = None" "svRunner started0 = None"
  "svSessions started0 = store0" "svCatalog started0 = Some catalog0"
  "svPool started0 = Some (pool0 False)" "svWorld started0 = world0 False"
  by (simp_all add: started0_def New_def Let_def cfg0_def NewRateLimiter_def)

lemma cfg0_isolates: "cfgRunner cfg0 = None" "cfgBackend cfg0 = Some backend0" "\<not> cfgBackendShareSafe cfg0"
  by (simp_all add: cfg0_def)

lemma world0_traffic: "filter is_traffic (wTrace (world0 share)) = []"
  by (simp add: world0_def pool_simps init_world_def)

abbreviation alice_calls :: input where
  "alice_calls \<equiv> HttpRequest ''POST'' ''/mcp'' call_request"

lemma started0_call:
  "traffic (serve env0 started0 alice_calls) = [EvCall 1 ''tools/call'' (Some (tool ''read''))]"
proof -
  have "routes env0 ''POST'' ''/mcp'' started0 call_request
      = handleMCPPost env0 started0 (admitted_request call_request alice)"
    by (rule routes_post [where tok = "''ta''"]) (simp_all add: validate0_def)
  moreover have "session_of started0 (admitted_request call_request alice)
      = Some (session_for ''sa'' ''alice'')"
    by (simp add: session_of_def)
  ultimately have r: "routes env0 ''POST'' ''/mcp'' started0 call_request = handleRequest env0 started0
      (admitted_request call_request alice) (session_for ''sa'' ''alice'') call_message"
    by (simp add: post_decoded)
  obtain pool w where p: "RunnerFor env0 (svWorld (touched env0 started0 (session_for ''sa'' ''alice'')))
      (Some (pool0 False)) alice = (Inr 1, Some pool, w)" "filter is_traffic (wTrace w) = []"
    by (simp add: touched_def Now_def pool0_def world0_def pool_simps init_world_def Let_def)
  have "gate_of (access_of started0 (admitted_request call_request alice)) (msgMethod call_message)
      = Some (''name'', AllowsTool (access_of started0 (admitted_request call_request alice)))"
    by (simp add: gate_of_def)
  then show ?thesis
    using p by (simp add: r handleRequest_dispatch Let_def forwardWithNameGate_def resolveRunner_def
        runnerForRequest_def touched_def access_of_def call_through_def runner_Call_def
        traffic_def alice_may_read [simplified])
qed


end
