(* ===== verification/PoolExamples.thy ===== *)
theory PoolExamples
  imports PoolAlone Examples
begin

text \<open>
  The interleaved pool at the pool of the scene: two lookups by alice that race, a close that
  overtakes a start, and an orderly close.
\<close>

abbreviation warm_pool :: Pool where
  "warm_pool \<equiv> threaded (pool0 False) (world0 False)"

text \<open>Two goroutines look alice's runner up; the second waits for the first one's start.\<close>

definition racing :: "pool_action list" where
  "racing = [Spawn 0 (ForOp alice), Spawn 1 (ForOp alice), Advance 0, Advance 1, Advance 0]"

definition both_served :: "pool_action list" where
  "both_served = racing @ [Advance 0, Advance 1, Advance 0, Advance 1]"

text \<open>A close that finds the start of alice's runner under way.\<close>

definition overtaken :: "pool_action list" where
  "overtaken = [Spawn 0 (ForOp alice), Advance 0, Advance 0, Spawn 1 CloseOp, Advance 1, Advance 1, Advance 1]"

lemmas pool_exec_simps =
  pool0_def world0_def pool_simps init_world_def threaded_def thread_step_def for_locked_def
  set_inst_def pool_key_def runner_Start_def built_def stop_one_def

lemma racing_state:
  "\<exists>P. pool_exec env0 racing warm_pool = Some P \<and> plThreads P 1 = Some (ForOnce alice 0)
    \<and> inOnce (plHeap P ! 0) = Busy \<and> plThreads P 0 = Some (ForStarting alice 0 (Inr [(''tools'', JObj [])]))"
  by (simp add: racing_def pool_exec_simps)

lemma served_state:
  "\<exists>P. pool_exec env0 both_served warm_pool = Some P \<and> plThreads P 0 = Some (ForReturn alice (Inr 1))
    \<and> plThreads P 1 = Some (ForReturn alice (Inr 1)) \<and> plInstances P = [(''subj:alice'', 0)]
    \<and> inStarted (plHeap P ! 0) \<and> inRunner (plHeap P ! 0) = 1 \<and> settled_pool P
    \<and> (\<forall>t q. plThreads P t = Some q \<longrightarrow> pending q = []) \<and> plThreads P 2 = None \<and> \<not> plClosed P"
  by (simp add: both_served_def racing_def pool_exec_simps settled_pool_def)

lemma overtaken_state:
  "\<exists>P. pool_exec env0 overtaken warm_pool = Some P
    \<and> plThreads P 0 = Some (ForStarting alice 0 (Inr [(''tools'', JObj [])]))
    \<and> (\<forall>h. 0 \<notin> set (holds P h)) \<and> inRunner (plHeap P ! 0) = 1 \<and> EvStop 1 \<notin> set (wTrace (plWorld P))
    \<and> plClosed P \<and> plThreads P 1 = Some (CloseReturn None)"
  by (simp add: overtaken_def pool_exec_simps holds_def split: option.splits)

lemma interleaved_handout_witness:
  "\<exists>P. pool_exec env0 both_served warm_pool = Some P \<and> plThreads P 0 = Some (ForReturn alice (Inr 1))
    \<and> plThreads P 1 = Some (ForReturn alice (Inr 1)) \<and> starts 1 (wTrace (plWorld P)) = 1"
proof -
  obtain P where P: "pool_exec env0 both_served warm_pool = Some P"
    "plThreads P 0 = Some (ForReturn alice (Inr 1))" "plThreads P 1 = Some (ForReturn alice (Inr 1))"
    using served_state by blast
  from interleaved_handout [OF warm0 P(1)] P show ?thesis by blast
qed

lemma interleaved_stops_witness:
  "\<exists>P P'. pool_exec env0 both_served warm_pool = Some P
    \<and> pool_exec env0 [Spawn 2 CloseOp, Advance 2, Advance 2, Advance 2] P = Some P'
    \<and> stops 1 (wTrace (plWorld P')) = 1"
proof -
  obtain P where P: "pool_exec env0 both_served warm_pool = Some P" "plInstances P = [(''subj:alice'', 0)]"
    "inStarted (plHeap P ! 0)" "inRunner (plHeap P ! 0) = 1"
    "\<forall>t q. plThreads P t = Some q \<longrightarrow> pending q = []" "plThreads P 2 = None" "\<not> plClosed P"
    using served_state by blast
  then obtain P' where P': "pool_exec env0 [Spawn 2 CloseOp, Advance 2, Advance 2, Advance 2] P = Some P'"
    "plClosed P'" "\<forall>t q. plThreads P' t = Some q \<longrightarrow> pending q = []"
    by (auto simp: thread_step_def stop_one_def runner_Stop_def split: if_splits)
  from interleaved_stops [OF warm0 P(1) P'(1), of 1 "''subj:alice''" 0] P P' show ?thesis by auto
qed

lemma start_in_flight_leaks_witness:
  "\<exists>P P'. pool_exec env0 overtaken warm_pool = Some P \<and> plClosed P
    \<and> plThreads P 1 = Some (CloseReturn None) \<and> pool_exec env0 [Advance 0, Advance 0] P = Some P'
    \<and> plThreads P' 0 = Some (ForReturn alice (Inr 1))
    \<and> EvStart 1 \<in> set (wTrace (plWorld P')) \<and> EvStop 1 \<notin> set (wTrace (plWorld P'))"
proof -
  obtain P where P: "pool_exec env0 overtaken warm_pool = Some P"
    "plThreads P 0 = Some (ForStarting alice 0 (Inr [(''tools'', JObj [])]))" "\<forall>h. 0 \<notin> set (holds P h)"
    "inRunner (plHeap P ! 0) = 1" "EvStop 1 \<notin> set (wTrace (plWorld P))" "plClosed P"
    "plThreads P 1 = Some (CloseReturn None)"
    using overtaken_state by blast
  have "EvStop (inRunner (plHeap P ! 0)) \<notin> set (wTrace (plWorld P))" using P(4,5) by simp
  note leak = start_in_flight_leaks [OF warm0 P(1-3) this]
  have "pool_exec env0 [] P = Some P" by simp
  from leak [OF this] obtain P' where P': "pool_exec env0 [Advance 0, Advance 0] P = Some P'"
    "plThreads P' 0 = Some (ForReturn alice (Inr 1))" using P(4) by auto
  from leak [OF P'(1)] P P' show ?thesis by auto
qed

lemma pool_never_deadlocks_witness:
  "\<exists>P. pool_exec env0 racing warm_pool = Some P \<and> act env0 (Advance 1) P = None
    \<and> (\<exists>s. act env0 (Advance s) P \<noteq> None)"
proof -
  obtain P where P: "pool_exec env0 racing warm_pool = Some P" "plThreads P 1 = Some (ForOnce alice 0)"
    "inOnce (plHeap P ! 0) = Busy"
    using racing_state by blast
  then have "act env0 (Advance 1) P = None" by (simp add: thread_step_def)
  moreover have "\<forall>i res n err. ForOnce alice 0 \<notin> {ForReturn i res, EvictReturn n, CloseReturn err}" by simp
  ultimately show ?thesis using pool_never_deadlocks [OF warm0 P(1,2)] P(1) by blast
qed

lemma pool_methods_refined_witness:
  "\<exists>P n P'. pool_exec env0 both_served warm_pool = Some P
    \<and> pool_exec env0 (Spawn 2 (EvictOp 0) # replicate n (Advance 2)) P = Some P'
    \<and> unthread P' = fst (snd (pool_method env0 (unthread P) (plWorld P) (EvictOp 0)))"
proof -
  obtain P where P: "pool_exec env0 both_served warm_pool = Some P" "settled_pool P" "plThreads P 2 = None"
    using served_state by blast
  from pool_methods_refined [OF warm0 P, of "EvictOp 0"] P(1) show ?thesis
    unfolding case_prod_beta by blast
qed

end
