(* ===== verification/Serving.thy ===== *)
theory Serving
  imports ServerRun PoolThreads
begin

text \<open>
  The server as \<^verbatim>\<open>net/http\<close> runs it: every request has a goroutine of its own, beside the
  goroutine of the sweep and the one of \<^verbatim>\<open>Run\<close>. Where \<open>routes\<close> takes a request as one step,
  here a handler is the sequence of its parts between which another goroutine can run: a part makes
  at most one access to what the goroutines share, be it a method of the session store or the limiter (each under
  its own lock), a reading of the clock or the random source, a message to the backing MCP, or a step
  of a method of the pool, whose goroutines are those of \<open>PoolThreads\<close>. \<^verbatim>\<open>Allow\<close>, which
  lets go of the limiter's lock before it takes the bucket's, is one step here and two in \<open>LimiterThreads\<close>.
\<close>

section \<open>State\<close>

datatype verb = POST | GET | DELETE

text \<open>
  Where a goroutine stands, with what it holds in its variables: a request on its way through the gates and the
  handlers, the sweep, or the deferred stop of \<^verbatim>\<open>Run\<close>.
\<close>

datatype task =
    Arrived bytes bytes Request
  | Gated verb Request
  | Limiting verb Request time
  | Handling verb Request
  | Initializing Request JSONRPCMessage
  | Minted Request JSONRPCMessage InitializeParams bytes
  | Creating Request JSONRPCMessage InitializeParams bytes time
  | Found Request Session JSONRPCMessage
  | Touching Request Session JSONRPCMessage time
  | Marking Session time
  | Looking Request JSONRPCMessage
  | Awaiting Request JSONRPCMessage
  | Holding Request JSONRPCMessage runner_id
  | Passing runner_id Response
  | Deleting bytes
  | Streaming Response
  | Answered Response
  | Sweeping time
  | Cleaning time
  | Evicting time
  | Reaping
  | Draining
  | Stopping
  | Closing
  | Finished

text \<open>
  The pool's state is in \<open>sgPool\<close>, which also holds the one world; of the server's own record
  \<open>svWorld\<close> is not used, and \<open>svPool\<close> only for whether there is a pool. \<open>sgRequests\<close> are
  the goroutines of requests, and \<open>sgRun\<close> is what \<^verbatim>\<open>Run\<close> will return, once that is decided.
\<close>

record Serving =
  sgServer :: Server
  sgPool :: Pool
  sgTasks :: "nat \<Rightarrow> task option"
  sgSweeper :: "nat option"
  sgQuit :: bool
  sgRequests :: "nat list"
  sgRun :: "bytes option option"

definition no_backend :: Backend where
  "no_backend = \<lparr>beCommand = [], beArgs = [], beEnv = None, beSandbox = None, beClientInfo = zero_impl\<rparr>"

text \<open>A server that has started, before any request.\<close>

definition listening :: "Server \<Rightarrow> Serving" where
  "listening s =
    \<lparr>sgServer = s,
     sgPool = threaded (case svPool s of Some p \<Rightarrow> p | None \<Rightarrow> NewRunnerPool no_backend False) (svWorld s),
     sgTasks = (\<lambda>_. None), sgSweeper = None, sgQuit = False,
     sgRequests = [], sgRun = None\<rparr>"

text \<open>The server's record with the world as it is, and a step on it.\<close>

definition server_now :: "Serving \<Rightarrow> Server" where
  "server_now G = (sgServer G)\<lparr>svWorld := plWorld (sgPool G)\<rparr>"

definition set_server :: "Serving \<Rightarrow> Server \<Rightarrow> Serving" where
  "set_server G s = G\<lparr>sgServer := s, sgPool := (sgPool G)\<lparr>plWorld := svWorld s\<rparr>\<rparr>"

section \<open>The gates\<close>

definition verb_of :: "bytes \<Rightarrow> verb option" where
  "verb_of m =
    (if m = ''POST'' then Some POST
     else if m = ''GET'' \<or> m = ''HEAD'' then Some GET
     else if m = ''DELETE'' then Some DELETE
     else None)"

text \<open>The router and the gates that touch nothing shared.\<close>

definition arrive :: "Server \<Rightarrow> bytes \<Rightarrow> bytes \<Rightarrow> Request \<Rightarrow> task" where
  "arrive s m path rq =
    (if path = ''/healthz'' then
       Answered (if m = ''GET'' \<or> m = ''HEAD'' then fst (handleHealthz s rq)
         else method_not_allowed ''GET, HEAD'')
     else if path = ''/mcp'' then
       (case verb_of m of
          None \<Rightarrow> Answered (method_not_allowed ''DELETE, GET, HEAD, POST'')
        | Some v \<Rightarrow>
          if \<not> origin_ok (cfgAllowedOrigins (svCfg s)) rq then Answered (http_Error ''forbidden origin'' 403)
          else if version_of rq \<notin> set SupportedProtocolVersions
          then Answered (http_Error ''unsupported MCP protocol version'' 400)
          else (case authenticated (cfgValidator (svCfg s)) (cfgAudience (svCfg s)) rq of
             None \<Rightarrow> Answered respondUnauthorized
           | Some i \<Rightarrow> Gated v (admitted_request rq i)))
     else Answered (http_Error ''404 page not found'' 404))"

fun gate_task :: "Env \<Rightarrow> Server \<Rightarrow> task \<Rightarrow> (task \<times> Server) option" where
  "gate_task E s (Arrived m path rq) = Some (arrive s m path rq, s)"
| "gate_task E s (Gated v rq) =
    (if svLimiter s = None \<or> rqIdentity rq = None \<or> idSubject (IdentityFromContext rq) = []
     then Some (Handling v rq, s)
     else let (now, w) = Now E (svWorld s) in Some (Limiting v rq now, s\<lparr>svWorld := w\<rparr>))"
| "gate_task E s (Limiting v rq now) =
    (let (l, ok) = Allow (svLimiter s) now (idSubject (IdentityFromContext rq)) in
     Some (if ok then Handling v rq else Answered respondRateLimited, s\<lparr>svLimiter := l\<rparr>))"
| "gate_task E s _ = None"

section \<open>The handlers\<close>

text \<open>The session a POST or DELETE names, when it is the sender's.\<close>

definition find_session :: "Server \<Rightarrow> Request \<Rightarrow> Response + Session" where
  "find_session s rq =
    (case Get (svSessions s) (header_get (rqHeaders rq) session_header) of
       None \<Rightarrow> Inl (http_Error ''session not found'' 404)
     | Some sess \<Rightarrow>
       if sessSubject sess \<noteq> idSubject (IdentityFromContext rq)
       then Inl (http_Error ''session does not belong to this identity'' 403)
       else Inr sess)"

definition begin_post :: "Env \<Rightarrow> Server \<Rightarrow> Request \<Rightarrow> task" where
  "begin_post E s rq =
    (case read_body rq of
       None \<Rightarrow> Answered (reply_error zero_message ErrCodeParseError ''failed to read body'' None)
     | Some body \<Rightarrow>
       if maxMCPRequestBody < length body
       then Answered (reply_error zero_message ErrCodeInvalidRequest ''request body too large'' None)
       else
       (case DecodeJSONRPC body of
          (msg, Some ErrJSONRPCParse) \<Rightarrow>
            Answered (reply_error msg ErrCodeParseError (''json parse error: '' @ envParseErr E body) None)
        | (msg, Some ErrJSONRPCInvalidRequest) \<Rightarrow>
            Answered (reply_error msg ErrCodeInvalidRequest ''invalid JSON-RPC request envelope'' None)
        | (msg, None) \<Rightarrow>
          if IsRequest msg \<and> msgMethod msg = ''initialize'' then Initializing rq msg
          else if header_get (rqHeaders rq) session_header = []
          then Answered (reply_error msg ErrCodeInvalidRequest
                 ''MCP-Session-Id header required after initialize'' None)
          else
          (case find_session s rq of
             Inl resp \<Rightarrow> Answered resp
           | Inr sess \<Rightarrow>
             if IsNotification msg \<or> IsRequest msg then Found rq sess msg
             else Answered (reply_error msg ErrCodeInvalidRequest ''unrecognized JSON-RPC message'' None))))"

definition begin_delete :: "Server \<Rightarrow> Request \<Rightarrow> task" where
  "begin_delete s rq =
    (let sessionID = header_get (rqHeaders rq) session_header in
     if sessionID = [] then Answered (http_Error ''MCP-Session-Id header required'' 400)
     else case find_session s rq of Inl resp \<Rightarrow> Answered resp | Inr _ \<Rightarrow> Deleting sessionID)"

definition accepted :: Response where
  "accepted = \<lparr>rsStatus = 202, rsHeaders = [], rsBody = NoBody\<rparr>"

definition initialize_reply ::
    "Server \<Rightarrow> Request \<Rightarrow> JSONRPCMessage \<Rightarrow> InitializeParams \<Rightarrow> bytes \<Rightarrow> Response" where
  "initialize_reply s rq msg params sessionID =
    (let caps = curatedInitCapabilities (svBackendCaps s)
           (Resolve (svCatalog s) (idScopes (IdentityFromContext rq)));
         result = \<lparr>irProtocolVersion = negotiateProtocolVersion (ipProtocolVersion params),
           irCapabilities = caps, irServerInfo = serverImpl s, irInstructions = []\<rparr>;
         resp = reply_result msg (marshal_result result) in
     resp\<lparr>rsHeaders := (session_header, sessionID) # rsHeaders resp\<rparr>)"

text \<open>An event stream stays open until its client leaves it or cannot be written to.\<close>

fun is_stream :: "body \<Rightarrow> bool" where
  "is_stream (EventStream _) = True"
| "is_stream _ = False"

definition open_stream :: "Response \<Rightarrow> task" where
  "open_stream resp = (if is_stream (rsBody resp) then Streaming resp else Answered resp)"

text \<open>The entry of a handler: at most one lookup of the session; and the end of a session or a stream.\<close>

fun entry_task :: "Env \<Rightarrow> Server \<Rightarrow> task \<Rightarrow> (task \<times> Server) option" where
  "entry_task E s (Handling POST rq) = Some (begin_post E s rq, s)"
| "entry_task E s (Handling GET rq) = Some (open_stream (fst (handleMCPGet s rq)), s)"
| "entry_task E s (Handling DELETE rq) = Some (begin_delete s rq, s)"
| "entry_task E s (Deleting sid) =
    Some (Answered \<lparr>rsStatus = 204, rsHeaders = [], rsBody = NoBody\<rparr>,
      s\<lparr>svSessions := fst (Delete (svSessions s) sid)\<rparr>)"
| "entry_task E s (Streaming resp) = Some (Answered resp, s)"
| "entry_task E s _ = None"

text \<open>\<^verbatim>\<open>handleInitialize\<close>: the random bytes, the time, and the session.\<close>

fun initialize_task :: "Env \<Rightarrow> Server \<Rightarrow> task \<Rightarrow> (task \<times> Server) option" where
  "initialize_task E s (Initializing rq msg) =
    (let (params, ok) = (case msgParams msg of None \<Rightarrow> (zero_params, True) | Some v \<Rightarrow> unmarshal_params v) in
     if \<not> ok
     then Some (Answered (reply_error msg ErrCodeInvalidParams ''invalid initialize params''
            (Some (JStr (envDecodeErr E (the (msgParams msg)))))), s)
     else
       let (raw, w) = rand_Read E (svWorld s); s = s\<lparr>svWorld := w\<rparr> in
       Some (case NewSessionID raw of
           None \<Rightarrow> Answered (reply_error msg ErrCodeInternalError ''failed to mint session id'' None)
         | Some sid \<Rightarrow> Minted rq msg params sid, s))"
| "initialize_task E s (Minted rq msg params sid) =
    (let (now, w) = Now E (svWorld s) in Some (Creating rq msg params sid now, s\<lparr>svWorld := w\<rparr>))"
| "initialize_task E s (Creating rq msg params sid now) =
    Some (Answered (initialize_reply s rq msg params sid),
      s\<lparr>svSessions := fst (Create (svSessions s) sid (idSubject (IdentityFromContext rq))
        (negotiateProtocolVersion (ipProtocolVersion params)) (ipClientInfo params) now)\<rparr>)"
| "initialize_task E s _ = None"

text \<open>A message in a session: the time, the touch, and what is dealt with here.\<close>

fun message_task :: "Env \<Rightarrow> Server \<Rightarrow> task \<Rightarrow> (task \<times> Server) option" where
  "message_task E s (Found rq sess msg) =
    (let (now, w) = Now E (svWorld s) in Some (Touching rq sess msg now, s\<lparr>svWorld := w\<rparr>))"
| "message_task E s (Touching rq sess msg now) =
    Some
      (if IsNotification msg then
         (if msgMethod msg = ''notifications/initialized'' then Marking sess now else Looking rq msg)
       else if msgMethod msg = ''ping'' then Answered (reply_result msg (JObj []))
       else Looking rq msg,
       s\<lparr>svSessions := fst (Touch (svSessions s) (sessID sess) now)\<rparr>)"
| "message_task E s (Marking sess now) =
    Some (Answered accepted, s\<lparr>svSessions := fst (MarkInitialized (svSessions s) (sessID sess) now)\<rparr>)"
| "message_task E s _ = None"

definition handler_task :: "Env \<Rightarrow> Server \<Rightarrow> task \<Rightarrow> (task \<times> Server) option" where
  "handler_task E s q =
    (case entry_task E s q of Some x \<Rightarrow> Some x | None \<Rightarrow>
    (case initialize_task E s q of Some x \<Rightarrow> Some x | None \<Rightarrow> message_task E s q))"

section \<open>The backing MCP\<close>

text \<open>What becomes of a message whose lookup ended without a runner.\<close>

definition no_runner :: "JSONRPCMessage \<Rightarrow> bytes option \<Rightarrow> Response" where
  "no_runner msg err =
    (if IsNotification msg then accepted
     else case err of
       Some e \<Rightarrow> reply_error msg ErrCodeInternalError (''backing mcp unavailable: '' @ e) None
     | None \<Rightarrow> reply_error msg ErrCodeMethodNotFound (''method not implemented: '' @ msgMethod msg) None)"

text \<open>The name gate's verdict: the response it refuses with, if it does.\<close>

definition name_refusal ::
    "Env \<Rightarrow> JSONRPCMessage \<Rightarrow> bytes \<Rightarrow> (bytes \<Rightarrow> bool) \<Rightarrow> Response option" where
  "name_refusal E msg paramKey allows =
    (case (case msgParams msg of None \<Rightarrow> Some [] | Some ps \<Rightarrow> unmarshal_rawmap ps) of
       None \<Rightarrow> Some (reply_error msg ErrCodeInvalidParams ''invalid params''
         (Some (JStr (envDecodeErr E (the (msgParams msg))))))
     | Some params \<Rightarrow>
       let ident = param_ident params paramKey in
       if ident \<noteq> [] \<and> \<not> allows ident
       then Some (reply_error msg ErrCodeMethodNotFound
              (''not permitted: '' @ msgMethod msg @ '' '' @ ident) None)
       else None)"

text \<open>What the forwarder of a method does with a result.\<close>

definition shape :: "EffectiveAccess \<Rightarrow> JSONRPCMessage \<Rightarrow> json option \<Rightarrow> json option" where
  "shape access msg raw =
    (case list_of access (msgMethod msg) of
       None \<Rightarrow> raw
     | Some (key, allows) \<Rightarrow> (case filterListResult raw key allows of None \<Rightarrow> raw | Some out \<Rightarrow> out))"

text \<open>The message itself. The goroutine holds the answer until the call returns.\<close>

definition send_call :: "Env \<Rightarrow> Server \<Rightarrow> Request \<Rightarrow> JSONRPCMessage \<Rightarrow> runner_id \<Rightarrow> task \<times> Server" where
  "send_call E s rq msg r =
    (let access = access_of s rq;
         refusal = (case gate_of access (msgMethod msg) of
           None \<Rightarrow> None | Some (key, allows) \<Rightarrow> name_refusal E msg key allows) in
     case refusal of
       Some resp \<Rightarrow> (Answered resp, s)
     | None \<Rightarrow>
       let (ans, w) = runner_Call E (svWorld s) r (msgMethod msg) (msgParams msg) in
       (Passing r (case ans of
           Inl e \<Rightarrow> reply_error msg (errCode e) (errMessage e) (errData e)
         | Inr raw \<Rightarrow> reply_result msg (marshal_raw (shape access msg raw))),
        s\<lparr>svWorld := w\<rparr>))"

text \<open>The lookup outside a pool, and the message to the runner that was found.\<close>

fun lookup_task :: "Env \<Rightarrow> Server \<Rightarrow> task \<Rightarrow> (task \<times> Server) option" where
  "lookup_task E s (Looking rq msg) =
    (case svRunner s of
       Some r \<Rightarrow> Some (Holding rq msg r, s)
     | None \<Rightarrow> if svPool s = None then Some (Answered (no_runner msg None), s) else None)"
| "lookup_task E s _ = None"

fun send_task :: "Env \<Rightarrow> Server \<Rightarrow> task \<Rightarrow> (task \<times> Server) option" where
  "send_task E s (Holding rq msg r) =
    (if IsNotification msg
     then Some (Passing r accepted,
       s\<lparr>svWorld := snd (runner_Notify E (svWorld s) r (msgMethod msg) (msgParams msg))\<rparr>)
     else Some (send_call E s rq msg r))"
| "send_task E s (Passing r resp) = Some (Answered resp, s)"
| "send_task E s _ = None"

definition runner_task :: "Env \<Rightarrow> Server \<Rightarrow> task \<Rightarrow> (task \<times> Server) option" where
  "runner_task E s q = (case lookup_task E s q of Some x \<Rightarrow> Some x | None \<Rightarrow> send_task E s q)"

section \<open>The sweep and the end\<close>

text \<open>A tick of \<^verbatim>\<open>runSessionGC\<close>, and what \<^verbatim>\<open>Run\<close> has deferred.\<close>

fun sweep_task :: "Env \<Rightarrow> Server \<Rightarrow> task \<Rightarrow> (task \<times> Server) option" where
  "sweep_task E s (Sweeping now) =
    Some (Cleaning now,
      s\<lparr>svSessions := fst (ExpireBefore (svSessions s) (now - fst (idleAndSweep s)))\<rparr>)"
| "sweep_task E s (Cleaning now) =
    Some (Evicting now,
      if svLimiter s \<noteq> None
      then s\<lparr>svLimiter := fst (Cleanup (svLimiter s) (now - rlEvictAfter (cfgRateLimit (svCfg s))))\<rparr>
      else s)"
| "sweep_task E s (Evicting now) =
    (if svPool s \<noteq> None \<and> 0 < poolIdleTimeout s then None else Some (Finished, s))"
| "sweep_task E s _ = None"

fun stop_task :: "Env \<Rightarrow> Server \<Rightarrow> task \<Rightarrow> (task \<times> Server) option" where
  "stop_task E s Stopping =
    (case svRunner s of
       Some r \<Rightarrow> Some (Finished, s\<lparr>svWorld := snd (runner_Stop E (svWorld s) r)\<rparr>)
     | None \<Rightarrow> if svPool s = None then Some (Finished, s) else None)"
| "stop_task E s _ = None"

definition background_task :: "Env \<Rightarrow> Server \<Rightarrow> task \<Rightarrow> (task \<times> Server) option" where
  "background_task E s q = (case sweep_task E s q of Some x \<Rightarrow> Some x | None \<Rightarrow> stop_task E s q)"

definition server_task :: "Env \<Rightarrow> Server \<Rightarrow> task \<Rightarrow> (task \<times> Server) option" where
  "server_task E s q =
    (case gate_task E s q of Some x \<Rightarrow> Some x | None \<Rightarrow>
    (case handler_task E s q of Some x \<Rightarrow> Some x | None \<Rightarrow>
    (case runner_task E s q of Some x \<Rightarrow> Some x | None \<Rightarrow> background_task E s q)))"

text \<open>The groups as equations and as a case split.\<close>

lemma handler_task_simps [simp]:
  "handler_task E s (Arrived m path rq) = None"
  "handler_task E s (Gated v rq) = None"
  "handler_task E s (Limiting v rq now) = None"
  "handler_task E s (Looking rq msg) = None"
  "handler_task E s (Awaiting rq msg) = None"
  "handler_task E s (Holding rq msg r) = None"
  "handler_task E s (Passing r resp) = None"
  "handler_task E s (Answered resp) = None"
  "handler_task E s (Streaming resp) = entry_task E s (Streaming resp)"
  "handler_task E s (Sweeping now) = None"
  "handler_task E s (Cleaning now) = None"
  "handler_task E s (Evicting now) = None"
  "handler_task E s Reaping = None"
  "handler_task E s Draining = None"
  "handler_task E s Stopping = None"
  "handler_task E s Closing = None"
  "handler_task E s Finished = None"
  "handler_task E s (Handling POST rq) = entry_task E s (Handling POST rq)"
  "handler_task E s (Handling GET rq) = entry_task E s (Handling GET rq)"
  "handler_task E s (Handling DELETE rq) = entry_task E s (Handling DELETE rq)"
  "handler_task E s (Deleting sid) = entry_task E s (Deleting sid)"
  "handler_task E s (Initializing rq msg) = initialize_task E s (Initializing rq msg)"
  "handler_task E s (Minted rq msg params sid) = initialize_task E s (Minted rq msg params sid)"
  "handler_task E s (Creating rq msg params sid now) = initialize_task E s (Creating rq msg params sid now)"
  "handler_task E s (Found rq sess msg) = message_task E s (Found rq sess msg)"
  "handler_task E s (Touching rq sess msg now) = message_task E s (Touching rq sess msg now)"
  "handler_task E s (Marking sess now) = message_task E s (Marking sess now)"
  by (simp_all add: handler_task_def case_prod_beta Let_def split: option.split)

lemma runner_task_simps [simp]:
  "runner_task E s (Arrived m path rq) = None"
  "runner_task E s (Gated v rq) = None"
  "runner_task E s (Limiting v rq now) = None"
  "runner_task E s (Looking rq msg) = lookup_task E s (Looking rq msg)"
  "runner_task E s (Awaiting rq msg) = None"
  "runner_task E s (Holding rq msg r) = send_task E s (Holding rq msg r)"
  "runner_task E s (Passing r resp) = send_task E s (Passing r resp)"
  "runner_task E s (Answered resp) = None"
  "runner_task E s (Streaming resp) = None"
  "runner_task E s (Sweeping now) = None"
  "runner_task E s (Cleaning now) = None"
  "runner_task E s (Evicting now) = None"
  "runner_task E s Reaping = None"
  "runner_task E s Draining = None"
  "runner_task E s Stopping = None"
  "runner_task E s Closing = None"
  "runner_task E s Finished = None"
  "runner_task E s (Handling v rq) = None"
  "runner_task E s (Deleting sid) = None"
  "runner_task E s (Initializing rq msg) = None"
  "runner_task E s (Minted rq msg params sid) = None"
  "runner_task E s (Creating rq msg params sid now) = None"
  "runner_task E s (Found rq sess msg) = None"
  "runner_task E s (Touching rq sess msg now) = None"
  "runner_task E s (Marking sess now) = None"
  by (simp_all add: runner_task_def split: option.split)

lemma background_task_simps [simp]:
  "background_task E s (Arrived m path rq) = None"
  "background_task E s (Gated v rq) = None"
  "background_task E s (Limiting v rq now) = None"
  "background_task E s (Looking rq msg) = None"
  "background_task E s (Awaiting rq msg) = None"
  "background_task E s (Holding rq msg r) = None"
  "background_task E s (Passing r resp) = None"
  "background_task E s (Answered resp) = None"
  "background_task E s (Streaming resp) = None"
  "background_task E s (Sweeping now) = sweep_task E s (Sweeping now)"
  "background_task E s (Cleaning now) = sweep_task E s (Cleaning now)"
  "background_task E s (Evicting now) = sweep_task E s (Evicting now)"
  "background_task E s Reaping = None"
  "background_task E s Draining = None"
  "background_task E s Stopping = stop_task E s (Stopping)"
  "background_task E s Closing = None"
  "background_task E s Finished = None"
  "background_task E s (Handling v rq) = None"
  "background_task E s (Deleting sid) = None"
  "background_task E s (Initializing rq msg) = None"
  "background_task E s (Minted rq msg params sid) = None"
  "background_task E s (Creating rq msg params sid now) = None"
  "background_task E s (Found rq sess msg) = None"
  "background_task E s (Touching rq sess msg now) = None"
  "background_task E s (Marking sess now) = None"
  by (simp_all add: background_task_def split: option.split)

lemma handler_task_cases:
  obtains (1) E s rq where "x = (E, s, Handling POST rq)"
  | (2) E s rq where "x = (E, s, Handling GET rq)"
  | (3) E s rq where "x = (E, s, Handling DELETE rq)"
  | (4) E s sid where "x = (E, s, Deleting sid)"
  | (5) E s rq msg where "x = (E, s, Initializing rq msg)"
  | (6) E s rq msg params sid where "x = (E, s, Minted rq msg params sid)"
  | (7) E s rq msg params sid now where "x = (E, s, Creating rq msg params sid now)"
  | (8) E s rq sess msg where "x = (E, s, Found rq sess msg)"
  | (9) E s rq sess msg now where "x = (E, s, Touching rq sess msg now)"
  | (10) E s sess now where "x = (E, s, Marking sess now)"
  | (11) E s resp where "x = (E, s, Streaming resp)"
  | (other) E s q where "x = (E, s, q)" "handler_task E s q = None"
proof -
  obtain E s q where x: "x = (E, s, q)" by (cases x)
  show thesis
  proof (cases q)
    case (Handling v rq)
    with x that show thesis by (cases v) blast+
  qed (use x that in \<open>simp; fail | (blast intro: handler_task_simps)\<close>)+
qed

lemma runner_task_cases:
  obtains (1) E s rq msg where "x = (E, s, Looking rq msg)"
  | (2) E s rq msg r where "x = (E, s, Holding rq msg r)"
  | (3) E s r resp where "x = (E, s, Passing r resp)"
  | (other) E s q where "x = (E, s, q)" "runner_task E s q = None"
proof -
  obtain E s q where x: "x = (E, s, q)" by (cases x)
  show thesis
  proof (cases q)
    case (Handling v rq)
    with x that show thesis by (cases v) (auto simp: runner_task_def)
  qed (use x that in \<open>simp; fail | (blast intro: runner_task_simps)\<close>)+
qed

lemma background_task_cases:
  obtains (1) E s now where "x = (E, s, Sweeping now)"
  | (2) E s now where "x = (E, s, Cleaning now)"
  | (3) E s now where "x = (E, s, Evicting now)"
  | (4) E s where "x = (E, s, Stopping)"
  | (other) E s q where "x = (E, s, q)" "background_task E s q = None"
proof -
  obtain E s q where x: "x = (E, s, q)" by (cases x)
  show thesis
  proof (cases q)
    case (Handling v rq)
    with x that show thesis by (cases v) (auto simp: background_task_def)
  qed (use x that in \<open>simp; fail | (blast intro: background_task_simps)\<close>)+
qed

section \<open>Methods of the pool\<close>

text \<open>The method a goroutine calls, where it waits for it, and how it goes on with its result.\<close>

fun calls :: "Server \<Rightarrow> task \<Rightarrow> (pool_op \<times> task) option" where
  "calls s (Looking rq msg) = Some (ForOp (IdentityFromContext rq), Awaiting rq msg)"
| "calls s (Evicting now) = Some (EvictOp (now - poolIdleTimeout s), Reaping)"
| "calls s Stopping = Some (CloseOp, Closing)"
| "calls s _ = None"

fun go_on :: "task \<Rightarrow> pool_pc \<Rightarrow> task option" where
  "go_on (Awaiting rq msg) (ForReturn i (Inl e)) = Some (Answered (no_runner msg (Some e)))"
| "go_on (Awaiting rq msg) (ForReturn i (Inr r)) = Some (Holding rq msg r)"
| "go_on Reaping (EvictReturn n) = Some Finished"
| "go_on Closing (CloseReturn e) = Some Finished"
| "go_on _ _ = None"

fun waits :: "task \<Rightarrow> bool" where
  "waits (Awaiting _ _) = True"
| "waits Reaping = True"
| "waits Closing = True"
| "waits _ = False"

text \<open>A goroutine in a method of the pool moves as the pool's goroutine of the same number.\<close>

definition pool_task :: "Env \<Rightarrow> nat \<Rightarrow> Pool \<Rightarrow> Server \<Rightarrow> task \<Rightarrow> (task \<times> Pool) option" where
  "pool_task E t P s q =
    (case calls s q of
       Some (x, q') \<Rightarrow> map_option (Pair q') (act E (Spawn t x) P)
     | None \<Rightarrow>
       if \<not> waits q then None
       else (case Option.bind (plThreads P t) (go_on q) of
         Some q' \<Rightarrow> Some (q', P)
       | None \<Rightarrow> map_option (Pair q) (act E (Advance t) P)))"

section \<open>The machine\<close>

datatype serve_action =
    Accept nat bytes bytes Request
  | Sweep nat time
  | Quit nat
  | Emptied nat
  | GiveUp nat
  | ListenFails nat bytes
  | Turn nat

text \<open>The sweep is over when its goroutine is.\<close>

definition set_task :: "nat \<Rightarrow> task \<Rightarrow> Serving \<Rightarrow> Serving" where
  "set_task t q G =
    G\<lparr>sgTasks := (sgTasks G)(t \<mapsto> q),
      sgSweeper := (if q = Finished \<and> sgSweeper G = Some t then None else sgSweeper G)\<rparr>"

definition turn :: "Env \<Rightarrow> nat \<Rightarrow> task \<Rightarrow> Serving \<Rightarrow> Serving option" where
  "turn E t q G =
    (case server_task E (server_now G) q of
       Some (q', s) \<Rightarrow> Some (set_task t q' (set_server G s))
     | None \<Rightarrow>
       (case pool_task E t (sgPool G) (sgServer G) q of
          Some (q', P) \<Rightarrow> Some (set_task t q' (G\<lparr>sgPool := P\<rparr>))
        | None \<Rightarrow> None))"

definition answered :: "Serving \<Rightarrow> nat \<Rightarrow> bool" where
  "answered G t = (case sgTasks G t of Some (Answered _) \<Rightarrow> True | _ \<Rightarrow> False)"

text \<open>What \<^verbatim>\<open>Run\<close> returns from its wait in \<^verbatim>\<open>Shutdown\<close>, if it returns at all.\<close>

definition shutdown_returns :: "Serving \<Rightarrow> bool \<Rightarrow> bytes option option" where
  "shutdown_returns G expired =
    (if expired then Some (Some ''context deadline exceeded'')
     else if list_all (answered G) (sgRequests G) then Some None
     else None)"

lemma shutdown_returns_simps [simp]:
  "shutdown_returns G True = Some (Some ''context deadline exceeded'')"
  "shutdown_returns G False = (if list_all (answered G) (sgRequests G) then Some None else None)"
  by (simp_all add: shutdown_returns_def)

text \<open>
  A request is accepted until the listener is closed. A tick that finds the sweep at work is
  dropped by its channel, or waits in it. When its context ends, \<^verbatim>\<open>Run\<close> has the listener closed and
  waits in \<^verbatim>\<open>Shutdown\<close>, until all requests are answered or for \<^verbatim>\<open>shutdownTimeout\<close>; when the
  listener fails it does not wait. Then the deferred stop runs, beside the requests still under way.
\<close>

fun serve_act :: "Env \<Rightarrow> serve_action \<Rightarrow> Serving \<Rightarrow> Serving option" where
  "serve_act E (Accept t m path rq) G =
    (if sgTasks G t = None \<and> \<not> sgQuit G \<and> arrives (HttpRequest m path rq)
     then Some (set_task t (Arrived m path rq) (G\<lparr>sgRequests := t # sgRequests G\<rparr>)) else None)"
| "serve_act E (Sweep t now) G =
    (if sgTasks G t = None \<and> sgSweeper G = None \<and> 0 < fst (idleAndSweep (sgServer G))
     then Some (set_task t (Sweeping now) (G\<lparr>sgSweeper := Some t\<rparr>)) else None)"
| "serve_act E (Quit t) G =
    (if sgTasks G t = None \<and> \<not> sgQuit G
     then Some (set_task t Draining (G\<lparr>sgQuit := True\<rparr>)) else None)"
| "serve_act E (Emptied t) G =
    (if sgTasks G t = Some Draining
     then map_option (\<lambda>res. set_task t Stopping (G\<lparr>sgRun := Some res\<rparr>)) (shutdown_returns G False)
     else None)"
| "serve_act E (GiveUp t) G =
    (if sgTasks G t = Some Draining
     then map_option (\<lambda>res. set_task t Stopping (G\<lparr>sgRun := Some res\<rparr>)) (shutdown_returns G True)
     else None)"
| "serve_act E (ListenFails t err) G =
    (if sgTasks G t = None \<and> \<not> sgQuit G
     then Some (set_task t Stopping (G\<lparr>sgQuit := True, sgRun := Some (Some err)\<rparr>)) else None)"
| "serve_act E (Turn t) G = (case sgTasks G t of None \<Rightarrow> None | Some q \<Rightarrow> turn E t q G)"

fun serve_exec :: "Env \<Rightarrow> serve_action list \<Rightarrow> Serving \<Rightarrow> Serving option" where
  "serve_exec E [] G = Some G"
| "serve_exec E (a # xs) G =
    (case serve_act E a G of None \<Rightarrow> None | Some H \<Rightarrow> serve_exec E xs H)"

lemma serve_exec_append:
  "serve_exec E (xs @ ys) G = (case serve_exec E xs G of None \<Rightarrow> None | Some H \<Rightarrow> serve_exec E ys H)"
  by (induction xs arbitrary: G) (simp_all split: option.split)

lemma serve_exec_snoc:
  "serve_exec E (xs @ [a]) G = Some H \<longleftrightarrow> (\<exists>K. serve_exec E xs G = Some K \<and> serve_act E a K = Some H)"
  by (auto simp: serve_exec_append split: option.splits)

end
