(* ===== verification/ServingSafe.thy ===== *)
theory ServingSafe
  imports Serving PoolStops
begin

text \<open>
  What holds of the server under every interleaving of its goroutines: what reaches the backing MCP
  was sent by requests that had passed every gate, each at most once, in a session of their own identity, and in isolate
  mode to a runner of their own subject.
\<close>

section \<open>The steps\<close>

definition fixed :: "Server \<Rightarrow> Server \<Rightarrow> bool" where
  "fixed s s' \<longleftrightarrow> svCfg s' = svCfg s \<and> svRunner s' = svRunner s \<and> svPool s' = svPool s
    \<and> svCatalog s' = svCatalog s \<and> svBackendCaps s' = svBackendCaps s"

lemma fixed_refl [simp]: "fixed s s"
  by (simp add: fixed_def)

lemma fixed_trans: "fixed s t \<Longrightarrow> fixed t u \<Longrightarrow> fixed s u"
  by (simp add: fixed_def)

lemma server_now_sel [simp]:
  "svCfg (server_now G) = svCfg (sgServer G)" "svRunner (server_now G) = svRunner (sgServer G)"
  "svPool (server_now G) = svPool (sgServer G)" "svCatalog (server_now G) = svCatalog (sgServer G)"
  "svBackendCaps (server_now G) = svBackendCaps (sgServer G)"
  "svSessions (server_now G) = svSessions (sgServer G)"
  "svLimiter (server_now G) = svLimiter (sgServer G)"
  "svWorld (server_now G) = plWorld (sgPool G)" "fixed (server_now G) s = fixed (sgServer G) s"
  by (simp_all add: server_now_def fixed_def)

lemma set_server_sel [simp]:
  "sgServer (set_server G s) = s" "sgPool (set_server G s) = (sgPool G)\<lparr>plWorld := svWorld s\<rparr>"
  "sgTasks (set_server G s) = sgTasks G" "sgSweeper (set_server G s) = sgSweeper G"
  "sgQuit (set_server G s) = sgQuit G" "sgRequests (set_server G s) = sgRequests G"
  "sgRun (set_server G s) = sgRun G"
  by (simp_all add: set_server_def)

lemma set_task_sel [simp]:
  "sgServer (set_task t q G) = sgServer G" "sgPool (set_task t q G) = sgPool G"
  "sgTasks (set_task t q G) = (sgTasks G)(t \<mapsto> q)" "sgQuit (set_task t q G) = sgQuit G"
  "sgRequests (set_task t q G) = sgRequests G" "sgRun (set_task t q G) = sgRun G"
  by (simp_all add: set_task_def)

lemma listening_sel [simp]:
  "sgServer (listening s) = s" "sgTasks (listening s) = (\<lambda>_. None)"
  "sgRequests (listening s) = []" "sgRun (listening s) = None" "sgQuit (listening s) = False"
  "plWorld (sgPool (listening s)) = svWorld s" "plThreads (sgPool (listening s)) = (\<lambda>_. None)"
  by (simp_all add: listening_def threaded_def)

text \<open>A step of a goroutine is a step on the server's record or in the pool.\<close>

lemma turn_cases:
  assumes "turn E t q G = Some H"
  obtains (server) q' s where "server_task E (server_now G) q = Some (q', s)"
      "H = set_task t q' (set_server G s)"
  | (enter) x q' P where "server_task E (server_now G) q = None" "calls (sgServer G) q = Some (x, q')" "act E (Spawn t x) (sgPool G) = Some P"
      "H = set_task t q' (G\<lparr>sgPool := P\<rparr>)"
  | (leave) r q' where "waits q" "plThreads (sgPool G) t = Some r" "go_on q r = Some q'"
      "H = set_task t q' (G\<lparr>sgPool := sgPool G\<rparr>)"
  | (inside) P where "waits q" "act E (Advance t) (sgPool G) = Some P"
      "H = set_task t q (G\<lparr>sgPool := P\<rparr>)"
  using assms
  by (auto simp: turn_def pool_task_def bind_eq_Some_conv split: option.splits if_splits prod.splits)

text \<open>Every other action begins a goroutine, or ends the wait of \<^verbatim>\<open>Run\<close>.\<close>

lemma serve_act_cases:
  assumes "serve_act E a G = Some H"
  obtains (turn) t q where "a = Turn t" "sgTasks G t = Some q" "turn E t q G = Some H"
  | (start) t q where "sgTasks G t = None \<or> sgTasks G t = Some Draining"
      "(\<exists>m path rq. a = Accept t m path rq \<and> q = Arrived m path rq) \<or> q \<in> {Draining, Stopping}
        \<or> (\<exists>now. q = Sweeping now)"
      "sgTasks H = (sgTasks G)(t \<mapsto> q)" "sgServer H = sgServer G" "sgPool H = sgPool G" "a \<noteq> Turn t"
proof (cases a)
  case (Accept t m path rq)
  with assms that(2) [of t "Arrived m path rq"] show thesis by (auto split: if_splits)
next
  case (Sweep t now)
  with assms that(2) [of t "Sweeping now"] show thesis by (auto split: if_splits)
next
  case (Quit t)
  with assms that(2) [of t Draining] show thesis by (auto split: if_splits)
next
  case (Emptied t)
  with assms that(2) [of t Stopping] show thesis by (auto split: if_splits)
next
  case (GiveUp t)
  with assms that(2) [of t Stopping] show thesis by (auto split: if_splits)
next
  case (ListenFails t err)
  with assms that(2) [of t Stopping] show thesis by (auto split: if_splits)
qed (use assms that(1) in \<open>auto split: option.splits\<close>)

text \<open>The four groups of steps, one at a time.\<close>

lemma server_task_cases:
  assumes "server_task E s q = Some x"
  obtains "gate_task E s q = Some x" | "handler_task E s q = Some x"
  | "runner_task E s q = Some x" | "background_task E s q = Some x"
  using assms by (auto simp: server_task_def split: option.splits)

lemma gate_task_keeps:
  assumes "gate_task E s q = Some (q', s')"
  shows "fixed s s' \<and> traffic s' = traffic s \<and> svSessions s' = svSessions s"
  using assms
  by (cases rule: gate_task.cases [of "(E, s, q)"])
    (auto simp: fixed_def traffic_def Now_def Let_def split: if_splits prod.splits)

lemma handler_task_keeps:
  assumes "handler_task E s q = Some (q', s')"
  shows "fixed s s' \<and> traffic s' = traffic s"
  using assms
  by (cases rule: handler_task_cases [of "(E, s, q)"])
    (auto simp: fixed_def traffic_def Now_def rand_Read_def Let_def split: if_splits prod.splits)

lemma runner_task_keeps:
  assumes "runner_task E s q = Some (q', s')"
  shows "fixed s s' \<and> svSessions s' = svSessions s"
  using assms
  by (cases rule: runner_task_cases [of "(E, s, q)"])
    (auto simp: fixed_def send_call_def Let_def split: if_splits prod.splits option.splits)

lemma background_task_keeps:
  assumes "background_task E s q = Some (q', s')"
  shows "fixed s s' \<and> traffic s' = traffic s"
  using assms
  by (cases rule: background_task_cases [of "(E, s, q)"])
    (auto simp: fixed_def traffic_def split: if_splits option.splits)

lemma server_task_fixed: "server_task E s q = Some (q', s') \<Longrightarrow> fixed s s'"
  by (erule server_task_cases)
    (simp_all add: gate_task_keeps handler_task_keeps runner_task_keeps background_task_keeps)

section \<open>What is sent\<close>

text \<open>The event a message may cause, for an identity with some access.\<close>

definition may_send :: "EffectiveAccess \<Rightarrow> JSONRPCMessage \<Rightarrow> event \<Rightarrow> bool" where
  "may_send access msg e \<longleftrightarrow>
    (if IsNotification msg then e = EvNotify (ev_runner e) (msgMethod msg) (msgParams msg)
     else IsRequest msg \<and> e = EvCall (ev_runner e) (msgMethod msg) (msgParams msg)
       \<and> (case gate_of access (msgMethod msg) of
            None \<Rightarrow> True | Some (key, allows) \<Rightarrow> gate_passes key allows msg))"

lemma name_refusal_iff: "name_refusal E msg key allows = None \<longleftrightarrow> gate_passes key allows msg"
  by (auto simp: name_refusal_def gate_passes_def Let_def split: option.splits)

text \<open>Only a goroutine that holds a runner sends anything, and then its own message.\<close>

lemma server_task_traffic:
  assumes "server_task E s q = Some (q', s')"
  shows "traffic s' = traffic s \<and> (\<forall>rq msg r resp. q = Holding rq msg r \<longrightarrow> q' \<noteq> Passing r resp)
    \<or> (\<exists>rq msg r resp e. q = Holding rq msg r \<and> q' = Passing r resp \<and> traffic s' = e # traffic s
        \<and> ev_runner e = r
        \<and> (IsNotification msg \<or> IsRequest msg \<longrightarrow> may_send (access_of s rq) msg e))"
  using assms
proof (cases rule: server_task_cases)
  case 3
  then show ?thesis
  proof (cases rule: runner_task_cases [of "(E, s, q)"])
    case (2 E' s'' rq msg r)
    have q: "q = Holding rq msg r" using 2 by simp
    show ?thesis
    proof (cases "IsNotification msg")
      case True
      with 3 q show ?thesis by (auto simp: traffic_def may_send_def)
    next
      case False
      with 3 q show ?thesis
        by (cases "gate_of (access_of s rq) (msgMethod msg)")
          (auto simp: traffic_def may_send_def send_call_def runner_Call_def name_refusal_iff Let_def
            split: option.splits)
    qed
  qed (auto split: option.splits if_splits)
next
  case 1
  from gate_task_keeps [OF 1] 1 show ?thesis by auto
next
  case 2
  from handler_task_keeps [OF 2] 2 show ?thesis by auto
next
  case 4
  from background_task_keeps [OF 4] 4 show ?thesis by auto
qed

lemma act_traffic:
  assumes "act E a P = Some P'"
  shows "filter is_traffic (wTrace (plWorld P')) = filter is_traffic (wTrace (plWorld P))"
  using assms
proof (cases rule: act_cases)
  case (run t q q' Q)
  from run(3) have "filter is_traffic (wTrace (plWorld Q)) = filter is_traffic (wTrace (plWorld P))"
    by (cases rule: thread_step_cases) (auto simp: view_def)
  with run(4) show ?thesis by simp
qed simp

section \<open>What a goroutine may hold\<close>

text \<open>Whom a lookup in the pool is for.\<close>

fun looks_for :: "pool_pc \<Rightarrow> Identity option" where
  "looks_for (ForBegin i) = Some i"
| "looks_for (ForOnce i c) = Some i"
| "looks_for (ForStarting i c a) = Some i"
| "looks_for (ForCheck i c) = Some i"
| "looks_for (ForReturn i r) = Some i"
| "looks_for _ = None"

lemma looks_for_step:
  assumes "thread_step E P q = Some (q', P')" "looks_for q = Some i"
  shows "looks_for q' = Some i"
proof -
  have "for_locked E P j = (q', P') \<Longrightarrow> looks_for q' = Some j" for j
    by (cases rule: for_locked_cases [of E P j]) auto
  with assms show ?thesis
    by (cases q) (auto simp: thread_step_def runner_Start_def split: once.splits sum.splits)
qed

text \<open>A session that was in the store at some moment of a run, under an identifier.\<close>

definition was_live :: "Env \<Rightarrow> Server \<Rightarrow> serve_action list \<Rightarrow> bytes \<Rightarrow> Session \<Rightarrow> bool" where
  "was_live E s xs sid sess \<longleftrightarrow> (\<exists>n H. serve_exec E (take n xs) (listening s) = Some H
    \<and> Get (svSessions (sgServer H)) sid = Some sess)"

lemma was_live_snoc: "was_live E s xs sid sess \<Longrightarrow> was_live E s (xs @ [a]) sid sess"
proof -
  assume "was_live E s xs sid sess"
  then obtain n H where n: "serve_exec E (take n xs) (listening s) = Some H"
    "Get (svSessions (sgServer H)) sid = Some sess" by (auto simp: was_live_def)
  have "take (min n (length xs)) (xs @ [a]) = take n xs" by (simp add: min_def)
  with n show ?thesis unfolding was_live_def by metis
qed

lemma was_live_now:
  "serve_exec E xs (listening s) = Some G \<Longrightarrow> Get (svSessions (sgServer G)) sid = Some sess
    \<Longrightarrow> was_live E s xs sid sess"
  unfolding was_live_def by (intro exI [of _ "length xs"] exI [of _ G]) simp

text \<open>
  A request that was accepted under the number \<open>t\<close>, passed the gates, and carries the identity
  \<open>i\<close>; and one whose message also named a session of that identity, live when it was looked up.
\<close>

definition passed :: "Server \<Rightarrow> serve_action list \<Rightarrow> nat \<Rightarrow> verb \<Rightarrow> Request \<Rightarrow> bool" where
  "passed s xs t v rq \<longleftrightarrow> (\<exists>m rq0 i. Accept t m ''/mcp'' rq0 \<in> set xs \<and> verb_of m = Some v
    \<and> origin_ok (cfgAllowedOrigins (svCfg s)) rq0 \<and> version_of rq0 \<in> set SupportedProtocolVersions
    \<and> authenticated (cfgValidator (svCfg s)) (cfgAudience (svCfg s)) rq0 = Some i
    \<and> rq = admitted_request rq0 i)"

definition owned :: "Env \<Rightarrow> Server \<Rightarrow> serve_action list \<Rightarrow> nat \<Rightarrow> Request \<Rightarrow> JSONRPCMessage \<Rightarrow> bool" where
  "owned E s xs t rq msg \<longleftrightarrow> passed s xs t POST rq \<and> request_message rq = Some msg
    \<and> \<not> is_initialize msg \<and> (IsNotification msg \<or> IsRequest msg)
    \<and> (\<exists>sess. was_live E s xs (header_get (rqHeaders rq) session_header) sess
        \<and> sessSubject sess = idSubject (IdentityFromContext rq))"

text \<open>A server that serves from a pool.\<close>

definition pool_mode :: "Server \<Rightarrow> bool" where
  "pool_mode s \<longleftrightarrow> svRunner s = None \<and> svPool s \<noteq> None"

fun task_ok :: "Env \<Rightarrow> Server \<Rightarrow> serve_action list \<Rightarrow> nat \<Rightarrow> Pool \<Rightarrow> task \<Rightarrow> bool" where
  "task_ok E s xs t P (Arrived m path rq) = (Accept t m path rq \<in> set xs)"
| "task_ok E s xs t P (Gated v rq) = passed s xs t v rq"
| "task_ok E s xs t P (Limiting v rq now) = passed s xs t v rq"
| "task_ok E s xs t P (Handling v rq) = passed s xs t v rq"
| "task_ok E s xs t P (Initializing rq msg) = passed s xs t POST rq"
| "task_ok E s xs t P (Minted rq msg params sid) = passed s xs t POST rq"
| "task_ok E s xs t P (Creating rq msg params sid now) = passed s xs t POST rq"
| "task_ok E s xs t P (Found rq sess msg) = owned E s xs t rq msg"
| "task_ok E s xs t P (Touching rq sess msg now) = owned E s xs t rq msg"
| "task_ok E s xs t P (Looking rq msg) = owned E s xs t rq msg"
| "task_ok E s xs t P (Awaiting rq msg) = (owned E s xs t rq msg \<and> pool_mode s
    \<and> (\<exists>q. plThreads P t = Some q \<and> looks_for q = Some (IdentityFromContext rq)))"
| "task_ok E s xs t P (Holding rq msg r) = (owned E s xs t rq msg
    \<and> (case svRunner s of
         Some r' \<Rightarrow> r = r'
       | None \<Rightarrow> plThreads P t = Some (ForReturn (IdentityFromContext rq) (Inr r))))"
| "task_ok E s xs t P _ = True"

lemma passed_snoc: "passed s xs t v rq \<Longrightarrow> passed s (xs @ [a]) t v rq"
  by (auto simp: passed_def)

lemma owned_snoc: "owned E s xs t rq msg \<Longrightarrow> owned E s (xs @ [a]) t rq msg"
  unfolding owned_def using passed_snoc was_live_snoc by blast

lemma task_ok_snoc:
  "task_ok E s xs t P q \<Longrightarrow> plThreads P' t = plThreads P t \<Longrightarrow> task_ok E s (xs @ [a]) t P' q"
  by (cases q) (auto intro: passed_snoc owned_snoc split: option.splits)

lemma begin_post_cases:
  obtains (answered) resp where "begin_post E s rq = Answered resp"
  | (first) msg where "begin_post E s rq = Initializing rq msg" "request_message rq = Some msg"
      "is_initialize msg"
  | (found) sess msg where "begin_post E s rq = Found rq sess msg" "request_message rq = Some msg"
      "\<not> is_initialize msg" "IsNotification msg \<or> IsRequest msg"
      "Get (svSessions s) (header_get (rqHeaders rq) session_header) = Some sess"
      "sessSubject sess = idSubject (IdentityFromContext rq)"
  by (cases "begin_post E s rq")
    (auto simp: begin_post_def request_message_def is_initialize_def find_session_def
      split: option.splits if_splits prod.splits rpc_decode_error.splits sum.splits)

lemma arrive_cases:
  obtains (answered) resp where "arrive s m path rq = Answered resp"
  | (gated) v i where "arrive s m path rq = Gated v (admitted_request rq i)" "path = ''/mcp''"
      "verb_of m = Some v" "origin_ok (cfgAllowedOrigins (svCfg s)) rq"
      "version_of rq \<in> set SupportedProtocolVersions"
      "authenticated (cfgValidator (svCfg s)) (cfgAudience (svCfg s)) rq = Some i"
  by (cases "arrive s m path rq") (auto simp: arrive_def split: option.splits if_splits)

lemma server_task_ok:
  assumes run: "serve_exec E xs (listening s) = Some G" and fx: "fixed s (sgServer G)"
    and ok: "task_ok E s xs t (sgPool G) q"
    and step: "server_task E (server_now G) q = Some (q', s')"
  shows "task_ok E s xs t P q'"
  using step
proof (cases rule: server_task_cases)
  case 1
  then show ?thesis
  proof (cases rule: gate_task.cases [of "(E, server_now G, q)"])
    case (1 E' s'' m path rq)
    with ok \<open>gate_task E (server_now G) q = Some (q', s')\<close> have
      a: "Accept t m path rq \<in> set xs" "q' = arrive (server_now G) m path rq" by auto
    show ?thesis
    proof (cases rule: arrive_cases [of "server_now G" m path rq])
      case (gated v i)
      with a fx show ?thesis
        unfolding a(2) gated(1) task_ok.simps passed_def fixed_def
        by (intro exI [of _ m] exI [of _ rq] exI [of _ i]) simp
    qed (simp add: a(2))
  next
    case (2 E' s'' v rq)
    with ok \<open>gate_task E (server_now G) q = Some (q', s')\<close> show ?thesis
      by (auto simp: Let_def split: if_splits prod.splits)
  next
    case (3 E' s'' v rq now)
    with ok \<open>gate_task E (server_now G) q = Some (q', s')\<close> show ?thesis
      by (auto split: prod.splits)
  qed (use 1 in auto)
next
  case 2
  then show ?thesis
  proof (cases rule: handler_task_cases [of "(E, server_now G, q)"])
    case (1 E' s'' rq)
    with ok 2 have p: "passed s xs t POST rq" "q' = begin_post E (server_now G) rq" by auto
    show ?thesis
    proof (cases rule: begin_post_cases [of E "server_now G" rq])
      case (found sess msg)
      with p(1) was_live_now [OF run] show ?thesis unfolding p(2) found(1) by (auto simp: owned_def)
    qed (simp_all add: p)
  next
    case (3 E' s'' rq)
    with 2 show ?thesis by (auto simp: begin_delete_def Let_def split: sum.splits)
  next
    case (9 E' s'' rq sess msg now)
    with ok 2 fx show ?thesis by (auto split: if_splits)
  qed (use ok 2 in \<open>auto simp: open_stream_def Let_def split: prod.splits if_splits option.splits\<close>)
next
  case 3
  then show ?thesis
  proof (cases rule: runner_task_cases [of "(E, server_now G, q)"])
    case (1 E' s'' rq msg)
    with ok 3 fx show ?thesis by (auto simp: fixed_def split: option.splits if_splits)
  next
    case (2 E' s'' rq msg r)
    with 3 show ?thesis by (auto simp: send_call_def Let_def split: option.splits if_splits prod.splits)
  qed (use 3 in auto)
next
  case 4
  then show ?thesis
    by (cases rule: background_task_cases [of "(E, server_now G, q)"])
      (auto split: option.splits if_splits)
qed

text \<open>Steps in the pool.\<close>

lemma spawn_ok:
  assumes "act E (Spawn t x) P = Some P'"
  shows "plThreads P t = None" "plThreads P' = (plThreads P)(t \<mapsto> pool_entry x)" "plHeap P' = plHeap P"
    "plWorld P' = plWorld P"
  using assms by (auto split: if_splits)

lemma advance_ok:
  assumes "act E (Advance t) P = Some P'"
  shows "u \<noteq> t \<Longrightarrow> plThreads P' u = plThreads P u"
    "plThreads P t = Some q \<Longrightarrow> looks_for q = Some i \<Longrightarrow> \<exists>q'. plThreads P' t = Some q' \<and> looks_for q' = Some i"
    "plThreads P t \<noteq> Some (ForReturn i r)"
proof -
  from assms obtain p p' Q where p: "plThreads P t = Some p" "thread_step E P p = Some (p', Q)"
    "P' = Q\<lparr>plThreads := (plThreads Q)(t \<mapsto> p')\<rparr>" by (auto split: option.splits)
  from p(3) thread_step_frame(1) [OF p(2)] show "plThreads P' u = plThreads P u" if "u \<noteq> t" using that by simp
  from p looks_for_step [OF p(2)]
  show "\<exists>q'. plThreads P' t = Some q' \<and> looks_for q' = Some i"
    if "plThreads P t = Some q" "looks_for q = Some i" using that by simp
  from p(1,2) show "plThreads P t \<noteq> Some (ForReturn i r)" by (auto simp: thread_step_def)
qed

section \<open>The history of a run\<close>

fun over :: "task \<Rightarrow> bool" where
  "over (Passing r resp) = True"
| "over (Answered resp) = True"
| "over _ = False"

text \<open>An entry of the history: which goroutine sent what, for whom, and by what right.\<close>

definition sender :: "Env \<Rightarrow> Server \<Rightarrow> serve_action list \<Rightarrow> nat \<Rightarrow> Identity \<Rightarrow> event \<Rightarrow> bool" where
  "sender E s xs t i e \<longleftrightarrow> (\<exists>rq msg. owned E s xs t rq msg \<and> rqIdentity rq = Some i
    \<and> may_send (Resolve (svCatalog s) (idScopes i)) msg e)"

lemma sender_snoc: "sender E s xs t i e \<Longrightarrow> sender E s (xs @ [a]) t i e"
  unfolding sender_def using owned_snoc by blast

definition entry_ok ::
    "Env \<Rightarrow> Server \<Rightarrow> serve_action list \<Rightarrow> Serving \<Rightarrow> nat \<times> Identity \<times> event \<Rightarrow> bool" where
  "entry_ok E s xs G x \<longleftrightarrow> (let (t, i, e) = x in
    (\<exists>q. sgTasks G t = Some q \<and> over q)
    \<and> (case svRunner s of
         Some r \<Rightarrow> ev_runner e = r
       | None \<Rightarrow> plThreads (sgPool G) t = Some (ForReturn i (Inr (ev_runner e))))
    \<and> sender E s xs t i e)"

definition hist_ok ::
    "Env \<Rightarrow> Server \<Rightarrow> serve_action list \<Rightarrow> Serving \<Rightarrow> (nat \<times> Identity \<times> event) list \<Rightarrow> bool" where
  "hist_ok E s xs G lg \<longleftrightarrow> fixed s (sgServer G)
    \<and> (\<forall>t. sgTasks G t = None \<longrightarrow> plThreads (sgPool G) t = None)
    \<and> (\<forall>t q. sgTasks G t = Some q \<longrightarrow> task_ok E s xs t (sgPool G) q)
    \<and> filter is_traffic (wTrace (plWorld (sgPool G))) = map (snd \<circ> snd) lg @ traffic s
    \<and> distinct (map fst lg) \<and> (\<forall>x \<in> set lg. entry_ok E s xs G x)"

lemma hist_step:
  assumes hist: "hist_ok E s xs G lg"
    and tasks: "sgTasks H = (sgTasks G)(t \<mapsto> q')" and fx: "fixed (sgServer G) (sgServer H)"
    and threads: "\<And>u. u \<noteq> t \<Longrightarrow> plThreads (sgPool H) u = plThreads (sgPool G) u"
    and tr: "filter is_traffic (wTrace (plWorld (sgPool H)))
      = map (snd \<circ> snd) new @ filter is_traffic (wTrace (plWorld (sgPool G)))"
    and ok: "task_ok E s (xs @ [a]) t (sgPool H) q'"
    and stay: "\<And>q. sgTasks G t = Some q \<Longrightarrow> over q \<Longrightarrow>
      over q' \<and> plThreads (sgPool H) t = plThreads (sgPool G) t \<and> new = []"
    and sent: "new = [] \<or> (\<exists>i e. new = [(t, i, e)] \<and> entry_ok E s (xs @ [a]) H (t, i, e))"
  shows "hist_ok E s (xs @ [a]) H (new @ lg)"
proof -
  note h = hist [unfolded hist_ok_def]
  have keep: "entry_ok E s (xs @ [a]) H x" if x: "x \<in> set lg" for x
  proof -
    obtain u i e where u: "x = (u, i, e)" by (cases x)
    with h x have e: "entry_ok E s xs G (u, i, e)" by blast
    then obtain q where q: "sgTasks G u = Some q" "over q" by (auto simp: entry_ok_def)
    have "plThreads (sgPool H) u = plThreads (sgPool G) u" "\<exists>q. sgTasks H u = Some q \<and> over q"
      using threads [of u] stay q tasks by (cases "u = t"; simp)+
    with e sender_snoc show ?thesis unfolding u
      by (simp add: entry_ok_def split: option.splits)
  qed
  have "t \<notin> fst ` set lg" if "new \<noteq> []"
  proof
    assume "t \<in> fst ` set lg"
    then obtain i e where "(t, i, e) \<in> set lg" by auto
    with h obtain q where "sgTasks G t = Some q" "over q" by (fastforce simp: entry_ok_def)
    with stay that show False by blast
  qed
  then have "new \<noteq> [] \<Longrightarrow> (t, i, e) \<notin> set lg" for i e by force
  with sent h have "distinct (map fst (new @ lg))" by auto
  moreover have "\<forall>x \<in> set (new @ lg). entry_ok E s (xs @ [a]) H x" using keep sent by auto
  moreover have "task_ok E s (xs @ [a]) u (sgPool H) q" if "sgTasks H u = Some q" for u q
  proof (cases "u = t")
    case True
    with that tasks ok show ?thesis by simp
  next
    case False
    with that tasks h have "task_ok E s xs u (sgPool G) q" by simp
    with threads [OF False] show ?thesis by (rule task_ok_snoc [rotated])
  qed
  moreover have "plThreads (sgPool H) u = None" if "sgTasks H u = None" for u
    using that tasks threads [of u] h by (auto split: if_splits)
  ultimately show ?thesis
    using h fixed_trans [OF _ fx] tr unfolding hist_ok_def by simp
qed

lemma hist_turn:
  assumes run: "serve_exec E xs (listening s) = Some G" and hist: "hist_ok E s xs G lg"
    and t: "sgTasks G t = Some q" and st: "turn E t q G = Some H"
  shows "\<exists>lg'. hist_ok E s (xs @ [Turn t]) H lg'"
proof -
  have fx: "fixed s (sgServer G)" and ok: "task_ok E s xs t (sgPool G) q"
    using hist t by (simp_all add: hist_ok_def)
  note step = hist_step [OF hist, where t = t and a = "Turn t"]
  show ?thesis
    using st
  proof (cases rule: turn_cases)
    case (server q' s')
    have fx': "fixed (sgServer G) s'" using server_task_fixed [OF server(1)] by simp
    have ok': "task_ok E s (xs @ [Turn t]) t (sgPool H) q'"
      by (rule task_ok_snoc [OF server_task_ok [OF run fx ok server(1)]]) simp
    from server_task_traffic [OF server(1)] show ?thesis
    proof (elim disjE exE conjE)
      assume tr: "traffic s' = traffic (server_now G)"
      have "over q \<Longrightarrow> over q'"
        using server(1) by (cases q) (auto simp: server_task_def)
      then have "hist_ok E s (xs @ [Turn t]) H ([] @ lg)"
        using server(2) fx' ok' tr t by (intro step [of H q']) (auto simp: traffic_def)
      then show ?thesis by blast
    next
      fix rq msg r resp e
      assume q: "q = Holding rq msg r" "q' = Passing r resp"
        and tr: "traffic s' = e # traffic (server_now G)" and r: "ev_runner e = r"
        and may: "IsNotification msg \<or> IsRequest msg \<longrightarrow> may_send (access_of (server_now G) rq) msg e"
      from ok q(1) have own: "owned E s xs t rq msg" by simp
      then obtain i where i: "rqIdentity rq = Some i"
        by (auto simp: owned_def passed_def admitted_request_def)
      have "access_of (server_now G) rq = Resolve (svCatalog s) (idScopes i)"
        using fx i by (simp add: access_of_def fixed_def IdentityFromContext_def)
      moreover have "IsNotification msg \<or> IsRequest msg" using own by (simp add: owned_def)
      ultimately have "sender E s xs t i e" using own i may by (auto simp: sender_def)
      from sender_snoc [OF this] have "entry_ok E s (xs @ [Turn t]) H (t, i, e)"
        using i ok q server(2) r
        by (auto simp: entry_ok_def IdentityFromContext_def split: option.splits)
      then have "hist_ok E s (xs @ [Turn t]) H ([(t, i, e)] @ lg)"
        using server(2) fx' ok' tr t q by (intro step [of H q']) (auto simp: traffic_def)
      then show ?thesis by blast
    qed
  next
    case (enter x q' P)
    note sp = spawn_ok [OF enter(3)]
    have "task_ok E s (xs @ [Turn t]) t P q' \<and> \<not> over q"
      using enter(1,2) ok sp(2) fx
      by (cases q) (auto simp: owned_snoc fixed_def pool_mode_def server_task_def split: option.splits if_splits)
    then have "hist_ok E s (xs @ [Turn t]) H ([] @ lg)"
      using enter(4) t sp(2,4) by (intro step [of H q']) auto
    then show ?thesis by blast
  next
    case (leave p q')
    have "task_ok E s xs t (sgPool G) q' \<and> \<not> over q"
      using leave(1-3) ok by (cases rule: go_on.cases [of "(q, p)"]) (auto simp: pool_mode_def)
    then have "task_ok E s (xs @ [Turn t]) t (sgPool G) q'" "\<not> over q"
      using task_ok_snoc by blast+
    then have "hist_ok E s (xs @ [Turn t]) H ([] @ lg)"
      using leave(4) t by (intro step [of H q']) auto
    then show ?thesis by blast
  next
    case (inside P)
    note ad = advance_ok [OF inside(2)]
    have "task_ok E s (xs @ [Turn t]) t P q \<and> \<not> over q"
      using inside(1) ok ad(2) by (cases q) (auto simp: owned_snoc)
    then have "hist_ok E s (xs @ [Turn t]) H ([] @ lg)"
      using inside(3) t act_traffic [OF inside(2)] ad(1) by (intro step [of H q]) auto
    then show ?thesis by blast
  qed
qed

lemma hist_exec: "serve_exec E xs (listening s) = Some G \<Longrightarrow> \<exists>lg. hist_ok E s xs G lg"
proof (induction xs arbitrary: G rule: rev_induct)
  case Nil
  then have "hist_ok E s [] G []" by (auto simp: hist_ok_def traffic_def)
  then show ?case by blast
next
  case (snoc a xs)
  then obtain K lg where K: "serve_exec E xs (listening s) = Some K" "serve_act E a K = Some G"
    and lg: "hist_ok E s xs K lg" unfolding serve_exec_snoc by blast
  from K(2) show ?case
  proof (cases rule: serve_act_cases)
    case (turn t q)
    with hist_turn [OF K(1) lg] show ?thesis by simp
  next
    case (start t q)
    have "task_ok E s (xs @ [a]) t (sgPool G) q" using start(2) by auto
    with start have "hist_ok E s (xs @ [a]) G ([] @ lg)" by (intro hist_step [OF lg, of G t q]) auto
    then show ?thesis by blast
  qed
qed

lemma admitted_request_sel [simp]:
  "rqHeaders (admitted_request rq i) = rqHeaders rq" "rqBody (admitted_request rq i) = rqBody rq"
  "rqIdentity (admitted_request rq i) = Some i" "IdentityFromContext (admitted_request rq i) = i"
  "request_message (admitted_request rq i) = request_message rq"
  by (simp_all add: admitted_request_def IdentityFromContext_def request_message_def read_body_def)

lemma sender_accepted:
  assumes "sender E s xs t i e"
  shows "\<exists>rq msg sess. Accept t ''POST'' ''/mcp'' rq \<in> set xs
    \<and> origin_ok (cfgAllowedOrigins (svCfg s)) rq \<and> version_of rq \<in> set SupportedProtocolVersions
    \<and> authenticated (cfgValidator (svCfg s)) (cfgAudience (svCfg s)) rq = Some i
    \<and> request_message rq = Some msg \<and> \<not> is_initialize msg
    \<and> was_live E s xs (header_get (rqHeaders rq) session_header) sess
    \<and> sessSubject sess = idSubject i
    \<and> may_send (Resolve (svCatalog s) (idScopes i)) msg e"
proof -
  obtain rq' msg where own: "owned E s xs t rq' msg" and i: "rqIdentity rq' = Some i"
    and may: "may_send (Resolve (svCatalog s) (idScopes i)) msg e"
    using assms unfolding sender_def by blast
  from own obtain m rq j where rq: "Accept t m ''/mcp'' rq \<in> set xs" "verb_of m = Some POST"
    "origin_ok (cfgAllowedOrigins (svCfg s)) rq" "version_of rq \<in> set SupportedProtocolVersions"
    "authenticated (cfgValidator (svCfg s)) (cfgAudience (svCfg s)) rq = Some j"
    "rq' = admitted_request rq j"
    by (auto simp: owned_def passed_def)
  from rq(2) have "m = ''POST''" by (auto simp: verb_of_def split: if_splits)
  moreover have "j = i" using rq(6) i by simp
  moreover obtain sess where "was_live E s xs (header_get (rqHeaders rq') session_header) sess"
    "sessSubject sess = idSubject (IdentityFromContext rq')" "request_message rq' = Some msg"
    "\<not> is_initialize msg"
    using own by (auto simp: owned_def)
  ultimately show ?thesis
    using rq may by (intro exI [of _ rq] exI [of _ msg] exI [of _ sess]) simp
qed

section \<open>Who may send\<close>

text \<open>C2. Under any interleaving of requests, sweeps and the end of the server, what the backing MCP
  has been sent is accounted for message by message: each call and notification is the message of
  one accepted POST, no POST sent two, and that POST had an acceptable origin and version, a token
  the validator accepts, a session that was live when it was looked up and belongs to the token's subject, and a
  target its scopes give access to.\<close>

theorem interleaved_sends:
  assumes "serve_exec E xs (listening s) = Some G"
  shows "\<exists>lg. filter is_traffic (wTrace (plWorld (sgPool G))) = map (snd \<circ> snd) lg @ traffic s
    \<and> distinct (map fst lg)
    \<and> (\<forall>(t, i, e) \<in> set lg. \<exists>rq msg sess. Accept t ''POST'' ''/mcp'' rq \<in> set xs
        \<and> origin_ok (cfgAllowedOrigins (svCfg s)) rq \<and> version_of rq \<in> set SupportedProtocolVersions
        \<and> authenticated (cfgValidator (svCfg s)) (cfgAudience (svCfg s)) rq = Some i
        \<and> request_message rq = Some msg \<and> \<not> is_initialize msg
        \<and> was_live E s xs (header_get (rqHeaders rq) session_header) sess
        \<and> sessSubject sess = idSubject i
        \<and> may_send (Resolve (svCatalog s) (idScopes i)) msg e)"
proof -
  from hist_exec [OF assms] obtain lg where lg: "hist_ok E s xs G lg" ..
  have "sender E s xs t i e" if "(t, i, e) \<in> set lg" for t i e
    using lg that by (auto simp: hist_ok_def entry_ok_def)
  with lg sender_accepted show ?thesis
    unfolding hist_ok_def by (intro exI [of _ lg]) blast
qed

end
