(* ===== verification/ServingState.thy ===== *)
theory ServingState
  imports ServingSafe
begin

text \<open>
  The state of the server under every interleaving of its goroutines: the sessions stay genuine, and
  the pool stays the pool of \<open>PoolRaces\<close> and \<open>PoolStops\<close> although its world is shared with
  everything the requests do.
\<close>

section \<open>Sessions\<close>

lemma passed_vouched:
  assumes "passed s xs t v rq" "cfgValidator (svCfg s) = cfgValidator cfg"
    "cfgAudience (svCfg s) = cfgAudience cfg"
  shows "vouched cfg rq"
  using assms
  by (auto simp: passed_def vouched_def authenticated_def bind_eq_Some_conv)

text \<open>What an invariant of the server's record needs: the sessions and the rest, one at a time.\<close>

lemma srv_inv_sessions:
  assumes "srv_inv cfg s" "store_ok st" "\<And>j sess. Get st j = Some sess \<Longrightarrow> genuine cfg j sess"
  shows "srv_inv cfg (s\<lparr>svSessions := st\<rparr>)"
  using assms by (simp add: srv_inv_def)

lemma created_genuine:
  assumes "vouched cfg rq"
  shows "genuine cfg j (new_session j (idSubject (IdentityFromContext rq)) (negotiateProtocolVersion v) c now)"
proof -
  have "negotiateProtocolVersion v \<in> set SupportedProtocolVersions"
    by (simp add: negotiateProtocolVersion_def preferredProtocolVersion_def SupportedProtocolVersions_def)
  with assms show ?thesis
    by (auto simp: genuine_def new_session_def vouched_def IdentityFromContext_def) metis
qed

lemma handler_task_inv:
  assumes inv: "srv_inv cfg s" and step: "handler_task E s q = Some (q', s')"
    and v: "\<And>rq msg params sid now. q = Creating rq msg params sid now \<Longrightarrow> vouched cfg rq"
  shows "srv_inv cfg s'"
proof -
  have ok: "store_ok (svSessions s)" and gen: "\<forall>j sess. Get (svSessions s) j = Some sess \<longrightarrow> genuine cfg j sess"
    using inv by (simp_all add: srv_inv_def)
  note sess = srv_inv_sessions [OF inv]
  have world: "srv_inv cfg (s\<lparr>svWorld := w\<rparr>)" for w using inv by (simp add: srv_inv_def)
  show ?thesis
    using step
  proof (cases rule: handler_task_cases [of "(E, s, q)"])
    case (4 E' s'' sid)
    have "srv_inv cfg (s\<lparr>svSessions := fst (Delete (svSessions s) sid)\<rparr>)"
      using mem.ok_ops [OF ok] mem.get_after_remove [OF ok] gen by (intro sess) (auto split: if_splits)
    with 4 step show ?thesis by auto
  next
    case (7 E' s'' rq msg params sid now)
    then have "vouched cfg rq" using v by blast
    from created_genuine [OF this] have "srv_inv cfg (s\<lparr>svSessions := fst (Create (svSessions s) sid
        (idSubject (IdentityFromContext rq)) (negotiateProtocolVersion (ipProtocolVersion params))
        (ipClientInfo params) now)\<rparr>)"
      using mem.ok_ops [OF ok] mem.get_after_create [OF ok] gen by (intro sess) (auto split: if_splits)
    with 7 step show ?thesis by auto
  next
    case (9 E' s'' rq x msg now)
    have "srv_inv cfg (s\<lparr>svSessions := fst (Touch (svSessions s) (sessID x) now)\<rparr>)"
      using touch_genuine [OF ok gen] by (intro sess) blast+
    with 9 step show ?thesis by auto
  next
    case (10 E' s'' x now)
    have "srv_inv cfg (s\<lparr>svSessions := fst (MarkInitialized (svSessions s) (sessID x) now)\<rparr>)"
      using mark_genuine [OF ok gen] by (intro sess) blast+
    with 10 step show ?thesis by auto
  qed (use step inv world in \<open>auto simp: Let_def split: prod.splits if_splits option.splits\<close>)
qed

lemma background_task_inv:
  assumes inv: "srv_inv cfg s" and step: "background_task E s q = Some (q', s')"
  shows "srv_inv cfg s'"
proof -
  have ok: "store_ok (svSessions s)" and gen: "\<forall>j sess. Get (svSessions s) j = Some sess \<longrightarrow> genuine cfg j sess"
    using inv by (simp_all add: srv_inv_def)
  have "Get (fst (ExpireBefore (svSessions s) t)) j = Some x \<Longrightarrow> Get (svSessions s) j = Some x" for t j x
    using ok mem.view_expire [OF ok] by (simp add: Get_is_view)
  then have "srv_inv cfg (s\<lparr>svSessions := fst (ExpireBefore (svSessions s) t)\<rparr>)" for t
    using mem.ok_ops [OF ok] gen by (intro srv_inv_sessions [OF inv]) auto
  with step show ?thesis
    using inv by (cases rule: background_task_cases [of "(E, s, q)"])
      (auto simp: srv_inv_def split: if_splits option.splits)
qed

lemma server_task_inv:
  assumes inv: "srv_inv cfg s" and step: "server_task E s q = Some (q', s')"
    and v: "\<And>rq msg params sid now. q = Creating rq msg params sid now \<Longrightarrow> vouched cfg rq"
  shows "srv_inv cfg s'"
  using step
proof (cases rule: server_task_cases)
  case 1
  with gate_task_keeps [OF 1] inv show ?thesis by (simp add: srv_inv_def fixed_def)
next
  case 2
  from handler_task_inv [OF inv 2 v] show ?thesis .
next
  case 3
  with runner_task_keeps [OF 3] inv show ?thesis by (simp add: srv_inv_def fixed_def)
next
  case 4
  from background_task_inv [OF inv 4] show ?thesis .
qed

lemma srv_inv_now [simp]: "srv_inv cfg (server_now G) = srv_inv cfg (sgServer G)"
  by (simp add: srv_inv_def)

lemma serve_act_inv:
  assumes hist: "hist_ok E s xs K lg" and inv: "srv_inv cfg s" "srv_inv cfg (sgServer K)"
    and st: "serve_act E a K = Some G"
  shows "srv_inv cfg (sgServer G)"
  using st
proof (cases rule: serve_act_cases)
  case q: (turn t q)
  have ok: "task_ok E s xs t (sgPool K) q" using hist q(2) by (simp add: hist_ok_def)
  from q(3) show ?thesis
  proof (cases rule: turn_cases)
    case (server q' s')
    have "srv_inv cfg s'"
    proof (rule server_task_inv [OF _ server(1)])
      fix rq msg params sid now assume "q = Creating rq msg params sid now"
      with ok inv(1) show "vouched cfg rq" by (auto simp: srv_inv_def intro: passed_vouched)
    qed (use inv in simp)
    with server(2) show ?thesis by simp
  qed (use inv in simp_all)
qed (use inv in simp)

text \<open>C12. Sessions under any interleaving: a session that any goroutine can find belongs to a subject
  whose token the validator accepts for this audience, is stored under its own identifier, and
  speaks a supported version.\<close>

theorem interleaved_sessions:
  assumes "run_start E (New cfg w) = (None, s)" "cfgSessions cfg = None"
    "serve_exec E xs (listening s) = Some G" "Get (svSessions (sgServer G)) j = Some sess"
  shows "sessID sess = j \<and> sessProtocolVersion sess \<in> set SupportedProtocolVersions
    \<and> (\<exists>validate token i. cfgValidator cfg = Some validate \<and> validate token (cfgAudience cfg) = Some i
        \<and> sessSubject sess = idSubject i)"
proof -
  have s: "srv_inv cfg s" using serving_inv [OF serving.started [OF assms(1)] assms(2)] .
  have "srv_inv cfg (sgServer G)"
    using assms(3)
  proof (induction xs arbitrary: G rule: rev_induct)
    case (snoc a xs)
    then obtain K where K: "serve_exec E xs (listening s) = Some K" "serve_act E a K = Some G"
      unfolding serve_exec_snoc by blast
    with hist_exec obtain lg where "hist_ok E s xs K lg" by blast
    from serve_act_inv [OF this s snoc.IH [OF K(1)] K(2)] show ?case .
  qed (use s in simp)
  with assms(4) show ?thesis by (auto simp: srv_inv_def genuine_def)
qed

section \<open>The pool\<close>

text \<open>Two worlds are alike for a pool when they agree on its runners.\<close>

definition alike :: "World \<Rightarrow> World \<Rightarrow> bool" where
  "alike w w' \<longleftrightarrow> wNext w' = wNext w
    \<and> (\<forall>r. starts r (wTrace w') = starts r (wTrace w) \<and> stops r (wTrace w') = stops r (wTrace w))"

lemma alike_simps [simp]:
  "alike w w" "alike w (w\<lparr>wClock := k\<rparr>)" "alike w (w\<lparr>wRand := k\<rparr>)"
  "alike w (emit (EvCall r m ps) w)" "alike w (emit (EvNotify r m ps) w)"
  by (simp_all add: alike_def)

lemma reach_ok_world:
  assumes "reach_ok P" "alike (plWorld P) w" "world_ok w"
  shows "reach_ok (P\<lparr>plWorld := w\<rparr>)"
proof -
  from assms(1) obtain own where own: "pool_ok own P" and rest: "all_held P" "closed_empty P" "busy_started P"
    by (auto simp: reach_ok_def)
  have "heap_sound (plHeap P, plInstances P, plWorld P)" using own by (simp add: pool_ok_def view_def)
  from heap_sound_world [OF this assms(3)] assms(2) have "heap_sound (plHeap P, plInstances P, w)"
    by (simp add: alike_def)
  moreover have "map_sound own (plHeap P, plInstances P, w) = map_sound own (view P)"
    by (simp add: map_sound_def view_def)
  ultimately have "pool_ok own (P\<lparr>plWorld := w\<rparr>)"
    using own by (simp add: pool_ok_def view_def pool_key_def)
  moreover have "all_held (P\<lparr>plWorld := w\<rparr>)"
  proof -
    have "holds (P\<lparr>plWorld := w\<rparr>) = holds P" by (rule ext) (simp add: holds_def split: option.split)
    moreover have "EvStop r \<in> set (wTrace w) \<longleftrightarrow> EvStop r \<in> set (wTrace (plWorld P))" for r
      using assms(2) stops_0_iff unfolding alike_def by metis
    ultimately show ?thesis
      using rest(1) assms(2) by (simp add: all_held_def held_ok_def alike_def)
  qed
  ultimately show ?thesis
    using rest by (auto simp: reach_ok_def closed_empty_def busy_started_def)
qed

text \<open>What the goroutines do outside the pool is alike for it.\<close>

lemma server_task_world:
  assumes "server_task E s q = Some (q', s')" "pool_mode s" "world_ok (svWorld s)"
    "\<And>rq msg r. q = Holding rq msg r \<Longrightarrow> r < wNext (svWorld s)"
  shows "alike (svWorld s) (svWorld s') \<and> world_ok (svWorld s')"
  using assms(1)
proof (cases rule: server_task_cases)
  case 1
  then show ?thesis
    using assms(3)
    by (cases rule: gate_task.cases [of "(E, s, q)"])
      (auto simp: Now_def Let_def world_ok_def split: if_splits prod.splits)
next
  case 2
  then show ?thesis
    using assms(3)
    by (cases rule: handler_task_cases [of "(E, s, q)"])
      (auto simp: Now_def rand_Read_def Let_def world_ok_def split: if_splits prod.splits)
next
  case 3
  then show ?thesis
  proof (cases rule: runner_task_cases [of "(E, s, q)"])
    case (2 E' s'' rq msg r)
    then have r: "r < wNext (svWorld s)" using assms(4) by blast
    from 2 3 r assms(3) show ?thesis
      by (cases "IsNotification msg")
        (auto simp: send_call_def runner_Call_def world_ok_emit Let_def split: option.splits)
  qed (use 3 assms(3) in \<open>auto split: option.splits if_splits\<close>)
next
  case 4
  then show ?thesis
    using assms(2,3) by (cases rule: background_task_cases [of "(E, s, q)"])
      (auto simp: pool_mode_def split: option.splits if_splits)
qed

lemma handed_sound:
  assumes "pool_ok own P" "plThreads P t = Some (ForReturn i (Inr r))"
  shows "\<exists>c < length (plHeap P). own c = pool_key P i \<and> inRunner (plHeap P ! c) = r \<and> inStarted (plHeap P ! c)"
proof -
  have "thread_sound (pool_key P) own (plHeap P) (ForReturn i (Inr r))"
    using assms by (simp add: pool_ok_def)
  then show ?thesis by (simp add: thread_sound_def)
qed

lemma handed_known:
  assumes "reach_ok P" "plThreads P t = Some (ForReturn i (Inr r))"
  shows "r < wNext (plWorld P) \<and> starts r (wTrace (plWorld P)) = 1"
proof -
  from assms(1) obtain own where own: "pool_ok own P" by (auto simp: reach_ok_def)
  from handed_sound [OF own assms(2)] obtain c where
    c: "c < length (plHeap P)" "inRunner (plHeap P ! c) = r" "inStarted (plHeap P ! c)" by blast
  with own have "inst_sound (plWorld P) (plHeap P ! c)"
    by (simp add: pool_ok_def heap_sound_def view_def)
  with c show ?thesis by (simp add: inst_sound_def)
qed

lemma same_key_handed:
  assumes "reach_ok P" "plThreads P t = Some (ForReturn i (Inr r))" "plThreads P u = Some (ForReturn j (Inr r))"
  shows "pool_key P i = pool_key P j"
proof -
  from assms(1) obtain own where own: "pool_ok own P" by (auto simp: reach_ok_def)
  from handed_sound [OF own assms(2)] handed_sound [OF own assms(3)] obtain c d where
    "c < length (plHeap P)" "own c = pool_key P i" "inRunner (plHeap P ! c) = r"
    "d < length (plHeap P)" "own d = pool_key P j" "inRunner (plHeap P ! d) = r" by blast
  moreover have "distinct (map inRunner (plHeap P))"
    using own by (simp add: pool_ok_def heap_sound_def view_def)
  ultimately show ?thesis using nth_eq_iff_index_eq [of "map inRunner (plHeap P)" c d] by auto
qed

lemma reach_serve_act:
  assumes hist: "hist_ok E s xs K lg" and mode: "pool_mode s" and reach: "reach_ok (sgPool K)"
    and st: "serve_act E a K = Some G"
  shows "reach_ok (sgPool G)"
  using st
proof (cases rule: serve_act_cases)
  case q: (turn t q)
  have ok: "task_ok E s xs t (sgPool K) q" and fx: "fixed s (sgServer K)"
    using hist q(2) by (simp_all add: hist_ok_def)
  from q(3) show ?thesis
  proof (cases rule: turn_cases)
    case (server q' s')
    have "world_ok (plWorld (sgPool K))"
      using reach by (auto simp: reach_ok_def pool_ok_def heap_sound_def view_def)
    moreover have "r < wNext (plWorld (sgPool K))" if "q = Holding rq msg r" for rq msg r
    proof -
      have "plThreads (sgPool K) t = Some (ForReturn (IdentityFromContext rq) (Inr r))"
        using ok that mode by (simp add: pool_mode_def)
      from handed_known [OF reach this] show ?thesis by blast
    qed
    moreover have "pool_mode (server_now K)" using mode fx by (simp add: pool_mode_def fixed_def)
    ultimately have "alike (plWorld (sgPool K)) (svWorld s')" "world_ok (svWorld s')"
      using server_task_world [OF server(1)] by simp_all
    from reach_ok_world [OF reach this] show ?thesis using server(2) by simp
  next
    case (enter x q' P)
    with reach_ok_act [OF reach enter(3)] show ?thesis by simp
  next
    case (inside P)
    with reach_ok_act [OF reach inside(2)] show ?thesis by simp
  qed (use reach in simp)
qed (use reach in simp)

lemma started_pool:
  assumes "run_start E (New cfg w) = (None, s)" "cfgBackend cfg = Some b" "wTrace w = []"
  shows "pool_mode s \<and> (\<exists>p. svPool s = Some p \<and> warmed E b (cfgBackendShareSafe cfg) w p (svWorld s))"
proof -
  let ?n = "New cfg w"
  have cfg: "cfgRunner (svCfg ?n) = cfgRunner cfg" "cfgBackend (svCfg ?n) = Some b"
    "cfgBackendShareSafe (svCfg ?n) = cfgBackendShareSafe cfg" "svWorld ?n = w" "svRunner ?n = None"
    using assms(2) by (simp_all add: New_def Let_def)
  have none: "cfgRunner cfg = None" using assms(1) cfg(1,2) by (cases "cfgRunner cfg") (auto simp: run_start_def)
  obtain e p w' where p: "pool_Start E w (NewRunnerPool b (cfgBackendShareSafe cfg)) = (e, p, w')"
    by (cases "pool_Start E w (NewRunnerPool b (cfgBackendShareSafe cfg))")
  with assms(1) cfg none have "e = None" "s = ?n\<lparr>svPool := Some p, svWorld := w',
      svBackendCaps := Caps (Some p)\<rparr>"
    by (auto simp: run_start_def split: option.splits)
  with p cfg assms(3) show ?thesis by (simp add: pool_mode_def warmed_def)
qed

lemma started_reach:
  assumes "run_start E (New cfg w) = (None, s)" "cfgBackend cfg = Some b" "wTrace w = []"
    "serve_exec E xs (listening s) = Some G"
  shows "reach_ok (sgPool G) \<and> pool_key (sgPool G) = PartitionKey (NewRunnerPool b (cfgBackendShareSafe cfg))"
proof -
  from started_pool [OF assms(1-3)] obtain p where mode: "pool_mode s" and p: "svPool s = Some p"
    and wm: "warmed E b (cfgBackendShareSafe cfg) w p (svWorld s)" by blast
  show ?thesis
    using assms(4)
  proof (induction xs arbitrary: G rule: rev_induct)
    case Nil
    with p reach_ok_warmed [OF wm] pool_ok_warmed(2) [OF wm] show ?case by (auto simp: listening_def)
  next
    case (snoc a xs)
    then obtain K where K: "serve_exec E xs (listening s) = Some K" "serve_act E a K = Some G"
      unfolding serve_exec_snoc by blast
    with hist_exec obtain lg where "hist_ok E s xs K lg" by blast
    from reach_serve_act [OF this mode _ K(2)] snoc.IH [OF K(1)] have "reach_ok (sgPool G)" by blast
    moreover have "plBackend (sgPool G) = plBackend (sgPool K) \<and> plShareSafe (sgPool G) = plShareSafe (sgPool K)"
      using K(2)
    proof (cases rule: serve_act_cases)
      case (turn t q)
      from turn(3) show ?thesis
        by (cases rule: turn_cases)
          (use thread_step_frame(2,3) in \<open>fastforce split: option.splits if_splits\<close>)+
    qed simp
    ultimately show ?case using snoc.IH [OF K(1)] pool_key_cong by metis
  qed
qed

text \<open>C3. Tenants stay apart under any interleaving: with a pool, every runner that was sent anything was
  started exactly once, and the process one POST was forwarded to is the process of another only if
  the pool is configured as shared or both carry tokens of the same subject.\<close>

theorem interleaved_isolation:
  assumes "run_start E (New cfg w) = (None, s)" "cfgBackend cfg = Some b" "wTrace w = []"
    "serve_exec E xs (listening s) = Some G"
  shows "\<exists>lg. filter is_traffic (wTrace (plWorld (sgPool G))) = map (snd \<circ> snd) lg
    \<and> distinct (map fst lg)
    \<and> (\<forall>(t, i, e) \<in> set lg. starts (ev_runner e) (wTrace (plWorld (sgPool G))) = 1
        \<and> (\<exists>rq. Accept t ''POST'' ''/mcp'' rq \<in> set xs
            \<and> authenticated (cfgValidator (svCfg s)) (cfgAudience (svCfg s)) rq = Some i))
    \<and> (\<forall>(t, i, e) \<in> set lg. \<forall>(u, j, f) \<in> set lg. ev_runner e = ev_runner f \<longrightarrow>
        cfgBackendShareSafe cfg \<or> idSubject i = idSubject j)"
proof -
  from hist_exec [OF assms(4)] obtain lg where lg: "hist_ok E s xs G lg" ..
  from started_pool [OF assms(1-3)] have mode: "pool_mode s" and tr: "traffic s = []"
    by (auto simp: traffic_def elim!: warmed_cases)
  have reach: "reach_ok (sgPool G)"
    and key: "pool_key (sgPool G) = PartitionKey (NewRunnerPool b (cfgBackendShareSafe cfg))"
    using started_reach [OF assms] by blast+
  have got: "plThreads (sgPool G) t = Some (ForReturn i (Inr (ev_runner e)))" "sender E s xs t i e"
    if "(t, i, e) \<in> set lg" for t i e
    using lg that mode by (auto simp: hist_ok_def entry_ok_def pool_mode_def)
  have same: "cfgBackendShareSafe cfg \<or> idSubject i = idSubject j"
    if "(t, i, e) \<in> set lg" "(u, j, f) \<in> set lg" "ev_runner e = ev_runner f" for t i e u j f
  proof -
    have "pool_key (sgPool G) i = pool_key (sgPool G) j"
      using same_key_handed [OF reach got(1) [OF that(1)]] got(1) [OF that(2)] that(3) by simp
    with key isolate.key_iff [of b i j] show ?thesis by (cases "cfgBackendShareSafe cfg") simp_all
  qed
  have started: "starts (ev_runner e) (wTrace (plWorld (sgPool G))) = 1" if "(t, i, e) \<in> set lg" for t i e
    using handed_known [OF reach got(1) [OF that]] by blast
  show ?thesis
  proof (intro exI [of _ lg] conjI)
    show "filter is_traffic (wTrace (plWorld (sgPool G))) = map (snd \<circ> snd) lg" "distinct (map fst lg)"
      using lg tr by (simp_all add: hist_ok_def)
    show "\<forall>(t, i, e) \<in> set lg. starts (ev_runner e) (wTrace (plWorld (sgPool G))) = 1
        \<and> (\<exists>rq. Accept t ''POST'' ''/mcp'' rq \<in> set xs
            \<and> authenticated (cfgValidator (svCfg s)) (cfgAudience (svCfg s)) rq = Some i)"
      using started sender_accepted [OF got(2)] by blast
  qed (use same in blast)
qed

end
