(* ===== verification/ServingLive.thy ===== *)
theory ServingLive
  imports ServingState
begin

text \<open>
  Every request is answered: a bound on the steps its goroutine takes, whatever runs beside it, and
  that nothing but a start of its own runner can hold it up.
\<close>

section \<open>Goroutines and the pool's methods\<close>

datatype pool_kind = Lookups | Evictions | Closes

fun kind :: "pool_pc \<Rightarrow> pool_kind" where
  "kind (EvictBegin _) = Evictions"
| "kind (EvictStops _ _) = Evictions"
| "kind (EvictReturn _) = Evictions"
| "kind CloseBegin = Closes"
| "kind (CloseStops _ _) = Closes"
| "kind (CloseReturn _) = Closes"
| "kind _ = Lookups"

fun returned :: "pool_pc \<Rightarrow> bool" where
  "returned (ForReturn _ _) = True"
| "returned (EvictReturn _) = True"
| "returned (CloseReturn _) = True"
| "returned _ = False"

lemma kind_entry [simp]: "kind (pool_entry (ForOp i)) = Lookups" "kind (pool_entry (EvictOp c)) = Evictions"
    "kind (pool_entry CloseOp) = Closes"
  by simp_all

lemma kind_step:
  assumes "thread_step E P q = Some (q', P')"
  shows "kind q' = kind q \<and> \<not> returned q"
proof -
  have "for_locked E P i = (q', P') \<Longrightarrow> kind q' = Lookups" for i
    by (cases rule: for_locked_cases [of E P i]) auto
  then have "for_thread E P q = Some (q', P') \<Longrightarrow> ?thesis"
    by (cases q) (auto simp: runner_Start_def split: once.splits sum.splits)
  moreover have "evict_thread E P q = Some (q', P') \<Longrightarrow> ?thesis"
    by (cases rule: evict_thread.cases [of "(E, P, q)"]) (auto simp: Let_def split: if_splits)
  moreover have "close_thread E P q = Some (q', P') \<Longrightarrow> ?thesis"
    by (cases rule: close_thread.cases [of "(E, P, q)"])
      (auto simp: Let_def case_prod_beta split: if_splits)
  ultimately show ?thesis using assms by (auto simp: thread_step_def split: option.splits)
qed

text \<open>Where the pool's goroutine of a number stands, given where the server's of that number does.\<close>

fun mates :: "task \<Rightarrow> pool_pc option \<Rightarrow> bool" where
  "mates (Awaiting _ _) x = (\<exists>p. x = Some p \<and> kind p = Lookups)"
| "mates Reaping x = (\<exists>p. x = Some p \<and> kind p = Evictions)"
| "mates Closing x = (\<exists>p. x = Some p \<and> kind p = Closes)"
| "mates (Holding _ _ _) x = (x = None \<or> (\<exists>p. x = Some p \<and> returned p))"
| "mates (Passing _ _) x = (x = None \<or> (\<exists>p. x = Some p \<and> returned p))"
| "mates (Answered _) x = (x = None \<or> (\<exists>p. x = Some p \<and> returned p))"
| "mates Finished x = (x = None \<or> (\<exists>p. x = Some p \<and> returned p))"
| "mates _ x = (x = None)"

definition mated :: "Serving \<Rightarrow> bool" where
  "mated G \<longleftrightarrow> (\<forall>t. case sgTasks G t of
      None \<Rightarrow> plThreads (sgPool G) t = None
    | Some q \<Rightarrow> mates q (plThreads (sgPool G) t))"

lemma matedD:
  assumes "mated G"
  shows "sgTasks G t = None \<Longrightarrow> plThreads (sgPool G) t = None"
    "sgTasks G t = Some q \<Longrightarrow> mates q (plThreads (sgPool G) t)"
  using assms [unfolded mated_def, THEN spec, of t] by simp_all

lemma matedI:
  assumes "mated G" "sgTasks H = (sgTasks G)(t \<mapsto> q)" "mates q (plThreads (sgPool H) t)"
    "\<And>u. u \<noteq> t \<Longrightarrow> plThreads (sgPool H) u = plThreads (sgPool G) u"
  shows "mated H"
  unfolding mated_def
proof
  fix u show "case sgTasks H u of None \<Rightarrow> plThreads (sgPool H) u = None
      | Some q \<Rightarrow> mates q (plThreads (sgPool H) u)"
    using assms(1) [unfolded mated_def, THEN spec, of u] assms(2-4)
    by (cases "u = t") (simp_all split: option.splits)
qed

lemma server_task_mates:
  assumes "server_task E s q = Some (q', s')" "mates q x"
  shows "mates q' x"
  using assms(1)
proof (cases rule: server_task_cases)
  case 1
  then show ?thesis
  proof (cases rule: gate_task.cases [of "(E, s, q)"])
    case (1 E' s'' m path rq)
    with \<open>gate_task E s q = Some (q', s')\<close> have "q' = arrive s m path rq" "q = Arrived m path rq" by auto
    with assms(2) show ?thesis by (cases rule: arrive_cases [of s m path rq]) simp_all
  qed (use assms(2) \<open>gate_task E s q = Some (q', s')\<close> in \<open>auto simp: Let_def split: if_splits prod.splits\<close>)
next
  case 2
  then show ?thesis
  proof (cases rule: handler_task_cases [of "(E, s, q)"])
    case (1 E' s'' rq)
    with 2 have "q' = begin_post E s rq" "q = Handling POST rq" by auto
    with assms(2) show ?thesis by (cases rule: begin_post_cases [of E s rq]) simp_all
  next
    case (3 E' s'' rq)
    with assms(2) 2 show ?thesis by (auto simp: begin_delete_def Let_def split: sum.splits)
  qed (use assms(2) 2 in \<open>auto simp: open_stream_def Let_def split: prod.splits if_splits option.splits\<close>)
next
  case 3
  then show ?thesis
    using assms(2) by (cases rule: runner_task_cases [of "(E, s, q)"])
      (auto simp: send_call_def Let_def split: option.splits if_splits prod.splits)
next
  case 4
  then show ?thesis
    using assms(2) by (cases rule: background_task_cases [of "(E, s, q)"])
      (auto split: option.splits if_splits)
qed

lemma advance_kind:
  assumes "act E (Advance t) P = Some P'"
  shows "\<exists>p p'. plThreads P t = Some p \<and> plThreads P' t = Some p' \<and> kind p' = kind p \<and> \<not> returned p"
  using assms kind_step by (auto split: option.splits)

lemma mated_act:
  assumes "mated G" "serve_act E a G = Some H"
  shows "mated H"
  using assms(2)
proof (cases rule: serve_act_cases)
  case q: (turn t q)
  have m: "mates q (plThreads (sgPool G) t)" by (rule matedD(2) [OF assms(1) q(2)])
  from q(3) show ?thesis
  proof (cases rule: turn_cases)
    case (server q' s)
    with server_task_mates [OF server(1) m] show ?thesis by (intro matedI [OF assms(1), of H t q']) simp_all
  next
    case (enter x q' P)
    note sp = spawn_ok [OF enter(3)]
    have "mates q' (plThreads P t)" using enter(2) sp(2) by (cases q) auto
    with enter(4) sp(2) show ?thesis by (intro matedI [OF assms(1), of H t q']) simp_all
  next
    case (leave p q')
    have "mates q' (plThreads (sgPool G) t)"
      using leave(1-3) by (cases rule: go_on.cases [of "(q, p)"]) auto
    with leave(4) show ?thesis by (intro matedI [OF assms(1), of H t q']) simp_all
  next
    case (inside P)
    have "mates q (plThreads P t)"
      using inside(1) m advance_kind [OF inside(2)] by (cases q) auto
    with inside(3) advance_ok(1) [OF inside(2)] show ?thesis
      by (intro matedI [OF assms(1), of H t q]) simp_all
  qed
next
  case (start t q)
  have "plThreads (sgPool G) t = None"
    using start(1) matedD [OF assms(1), of t] by auto
  with start have "mates q (plThreads (sgPool H) t)" by auto
  with start(3,5) show ?thesis by (intro matedI [OF assms(1), of H t q]) simp_all
qed

lemma mated_exec: "mated G \<Longrightarrow> serve_exec E xs G = Some H \<Longrightarrow> mated H"
  by (induction xs arbitrary: G) (auto split: option.splits intro: mated_act)

lemma mated_listening: "mated (listening s)"
  by (simp add: mated_def)

section \<open>How many steps a request takes\<close>

fun request_task :: "task \<Rightarrow> bool" where
  "request_task (Sweeping _) = False"
| "request_task (Cleaning _) = False"
| "request_task (Evicting _) = False"
| "request_task Reaping = False"
| "request_task Draining = False"
| "request_task Stopping = False"
| "request_task Closing = False"
| "request_task Finished = False"
| "request_task _ = True"

fun pool_rank :: "pool_pc \<Rightarrow> nat" where
  "pool_rank (ForBegin _) = 4"
| "pool_rank (ForOnce _ _) = 3"
| "pool_rank (ForStarting _ _ _) = 2"
| "pool_rank (ForCheck _ _) = 1"
| "pool_rank _ = 0"

fun rank :: "task \<Rightarrow> pool_pc option \<Rightarrow> nat" where
  "rank (Arrived _ _ _) x = 14"
| "rank (Gated _ _) x = 13"
| "rank (Limiting _ _ _) x = 12"
| "rank (Handling _ _) x = 11"
| "rank (Found _ _ _) x = 10"
| "rank (Touching _ _ _ _) x = 9"
| "rank (Looking _ _) x = 8"
| "rank (Awaiting _ _) x = 3 + (case x of None \<Rightarrow> 0 | Some p \<Rightarrow> pool_rank p)"
| "rank (Initializing _ _) x = 3"
| "rank (Minted _ _ _ _) x = 2"
| "rank (Holding _ _ _) x = 2"
| "rank (Answered _) x = 0"
| "rank _ x = 1"

lemma server_task_rank:
  assumes "server_task E s q = Some (q', s')" "request_task q"
  shows "request_task q' \<and> rank q' x < rank q x"
  using assms(1)
proof (cases rule: server_task_cases)
  case 1
  then show ?thesis
  proof (cases rule: gate_task.cases [of "(E, s, q)"])
    case (1 E' s'' m path rq)
    with \<open>gate_task E s q = Some (q', s')\<close> have "q' = arrive s m path rq" "q = Arrived m path rq" by auto
    then show ?thesis by (cases rule: arrive_cases [of s m path rq]) simp_all
  qed (use \<open>gate_task E s q = Some (q', s')\<close> in \<open>auto simp: Let_def split: if_splits prod.splits\<close>)
next
  case 2
  then show ?thesis
  proof (cases rule: handler_task_cases [of "(E, s, q)"])
    case (1 E' s'' rq)
    with 2 have "q' = begin_post E s rq" "q = Handling POST rq" by auto
    then show ?thesis by (cases rule: begin_post_cases [of E s rq]) simp_all
  next
    case (3 E' s'' rq)
    with 2 show ?thesis by (auto simp: begin_delete_def Let_def split: sum.splits)
  qed (use 2 in \<open>auto simp: open_stream_def Let_def split: prod.splits if_splits option.splits\<close>)
next
  case 3
  then show ?thesis
    by (cases rule: runner_task_cases [of "(E, s, q)"])
      (auto simp: send_call_def Let_def split: option.splits if_splits prod.splits)
next
  case 4
  with assms(2) show ?thesis by (cases q) simp_all
qed

lemma lookup_rank:
  assumes "thread_step E P p = Some (p', P')" "kind p = Lookups"
  shows "pool_rank p' < pool_rank p"
proof -
  have "for_locked E P i = (p', P') \<Longrightarrow> pool_rank p' < 4" for i
    by (cases rule: for_locked_cases [of E P i]) auto
  with assms show ?thesis
    by (cases p) (auto simp: thread_step_def runner_Start_def split: once.splits sum.splits)
qed

lemma turn_rank:
  assumes "turn E t q G = Some H" "request_task q" "mates q (plThreads (sgPool G) t)"
  shows "\<exists>q'. sgTasks H t = Some q' \<and> request_task q'
    \<and> rank q' (plThreads (sgPool H) t) < rank q (plThreads (sgPool G) t)"
  using assms(1)
proof (cases rule: turn_cases)
  case (server q' s)
  with server_task_rank [OF server(1) assms(2), of "plThreads (sgPool G) t"] show ?thesis by simp
next
  case (enter x q' P)
  note sp = spawn_ok [OF enter(3)]
  have "request_task q' \<and> rank q' (plThreads P t) < rank q (plThreads (sgPool G) t)"
    using enter(2) sp(2) assms(2) by (cases q) auto
  with enter(4) show ?thesis by simp
next
  case (leave p q')
  have "request_task q' \<and> rank q' (plThreads (sgPool G) t) < rank q (plThreads (sgPool G) t)"
    using leave(1-3) assms(2) by (cases rule: go_on.cases [of "(q, p)"]) auto
  with leave(4) show ?thesis by simp
next
  case (inside P)
  then obtain p p' Q where p: "plThreads (sgPool G) t = Some p" "thread_step E (sgPool G) p = Some (p', Q)"
    "plThreads P t = Some p'" by (auto split: option.splits)
  have "rank q (plThreads P t) < rank q (plThreads (sgPool G) t)"
    using inside(1) assms(2,3) p lookup_rank [OF p(2)] by (cases q) auto
  with inside(3) assms(2) show ?thesis by simp
qed

text \<open>The others leave a goroutine where it is.\<close>

lemma turn_others:
  assumes "turn E t q G = Some H" "u \<noteq> t"
  shows "sgTasks H u = sgTasks G u \<and> plThreads (sgPool H) u = plThreads (sgPool G) u"
  using assms(1)
proof (cases rule: turn_cases)
  case (enter x q' P)
  with spawn_ok(2) [OF enter(3)] assms(2) show ?thesis by simp
next
  case (inside P)
  with advance_ok(1) [OF inside(2)] assms(2) show ?thesis by simp
qed (use assms(2) in simp_all)

lemma act_others:
  assumes "serve_act E a G = Some H" "a \<noteq> Turn t" "sgTasks G t = Some q" "q \<noteq> Draining"
  shows "sgTasks H t = sgTasks G t \<and> plThreads (sgPool H) t = plThreads (sgPool G) t"
  using assms(1)
proof (cases rule: serve_act_cases)
  case (turn u p)
  with turn_others [OF turn(3), of t] assms(2) show ?thesis by auto
next
  case (start u p)
  with assms(3,4) show ?thesis by auto
qed

lemma count_rank:
  assumes "mated G" "sgTasks G t = Some q" "request_task q" "serve_exec E ys G = Some H"
  shows "\<exists>q'. sgTasks H t = Some q' \<and> request_task q'
    \<and> count_list ys (Turn t) + rank q' (plThreads (sgPool H) t) \<le> rank q (plThreads (sgPool G) t)"
  using assms
proof (induction ys arbitrary: G q)
  case (Cons a ys)
  then obtain K where K: "serve_act E a G = Some K" "serve_exec E ys K = Some H"
    by (auto split: option.splits)
  have mK: "mated K" by (rule mated_act [OF Cons.prems(1) K(1)])
  show ?case
  proof (cases "a = Turn t")
    case True
    with K(1) Cons.prems(2) have st: "turn E t q G = Some K" by simp
    have "mates q (plThreads (sgPool G) t)"
      by (rule matedD(2) [OF Cons.prems(1,2)])
    from turn_rank [OF st Cons.prems(3) this] obtain p where
      p: "sgTasks K t = Some p" "request_task p"
        "rank p (plThreads (sgPool K) t) < rank q (plThreads (sgPool G) t)" by blast
    from Cons.IH [OF mK p(1,2) K(2)] p(3) True show ?thesis by auto
  next
    case False
    have "q \<noteq> Draining" using Cons.prems(3) by auto
    from act_others [OF K(1) False Cons.prems(2) this] Cons.prems(2)
    have same: "sgTasks K t = Some q" "plThreads (sgPool K) t = plThreads (sgPool G) t" by simp_all
    from Cons.IH [OF mK same(1) Cons.prems(3) K(2)] False show ?thesis unfolding same(2) by simp
  qed
qed simp

section \<open>Nothing holds a request up for ever\<close>

text \<open>A goroutine that is still at work can take its turn, or waits for a start.\<close>

lemma server_task_or_pool:
  assumes "server_task E s q = None" "request_task q"
  shows "(\<exists>resp. q = Answered resp) \<or> (\<exists>rq msg. q = Awaiting rq msg)
    \<or> (\<exists>rq msg. q = Looking rq msg \<and> pool_mode s)"
proof (cases q)
  case (Handling v rq)
  with assms(1) show ?thesis by (cases v) (simp_all add: server_task_def)
next
  case (Looking rq msg)
  with assms(1) show ?thesis by (simp add: server_task_def pool_mode_def split: option.splits if_splits)
qed (use assms in \<open>auto simp: server_task_def Let_def split: if_splits prod.splits\<close>)

lemma for_thread_ready:
  assumes "reach_ok P" "plThreads P t = Some p" "kind p = Lookups" "\<not> returned p"
  shows "act E (Advance t) P \<noteq> None
    \<or> (\<exists>i c u j a. p = ForOnce i c \<and> plThreads P u = Some (ForStarting j c a))"
proof -
  have "thread_step E P p \<noteq> None \<or> (\<exists>i c u j a. p = ForOnce i c \<and> plThreads P u = Some (ForStarting j c a))"
  proof (cases p)
    case (ForOnce i c)
    show ?thesis
    proof (cases "inOnce (plHeap P ! c)")
      case Busy
      have "c < length (plHeap P)" using assms(1,2) ForOnce
        by (auto simp: reach_ok_def pool_ok_def thread_sound_def)
      with assms(1) Busy ForOnce show ?thesis by (auto simp: reach_ok_def busy_started_def)
    qed (use ForOnce in \<open>simp_all add: thread_step_def case_prod_beta\<close>)
  next
    case (ForStarting i c a)
    then show ?thesis by (cases a) (simp_all add: thread_step_def)
  qed (use assms(3,4) in \<open>auto simp: thread_step_def\<close>)
  with assms(2) show ?thesis by auto
qed

lemma starting_ready:
  assumes "mated G" "plThreads (sgPool G) u = Some (ForStarting j c a)"
  shows "serve_act E (Turn u) G \<noteq> None"
proof -
  obtain q where q: "sgTasks G u = Some q" using matedD(1) [OF assms(1), of u] assms(2) by fastforce
  from matedD(2) [OF assms(1) q] assms(2) obtain rq msg where "q = Awaiting rq msg" by (cases q) auto
  moreover have "act E (Advance u) (sgPool G) \<noteq> None"
    using assms(2) by (cases a) (simp_all add: thread_step_def)
  ultimately show ?thesis
    using q assms(2) by (auto simp: turn_def pool_task_def server_task_def simp del: act.simps
        split: option.splits)
qed

lemma request_ready:
  assumes m: "mated G" and q: "sgTasks G t = Some q" "request_task q"
    and reach: "pool_mode (sgServer G) \<Longrightarrow> reach_ok (sgPool G)"
    and wait: "\<And>rq msg. q = Awaiting rq msg \<Longrightarrow> pool_mode (sgServer G)"
  shows "(\<exists>resp. q = Answered resp) \<or> serve_act E (Turn t) G \<noteq> None
    \<or> (\<exists>u i j c a. plThreads (sgPool G) t = Some (ForOnce i c)
        \<and> plThreads (sgPool G) u = Some (ForStarting j c a) \<and> serve_act E (Turn u) G \<noteq> None)"
proof (cases "server_task E (server_now G) q")
  case (Some x)
  with q(1) show ?thesis by (cases x) (simp add: turn_def)
next
  case None
  note mate = matedD(2) [OF m q(1)]
  from server_task_or_pool [OF None q(2)] show ?thesis
  proof (elim disjE exE conjE)
    fix rq msg assume L: "q = Looking rq msg"
    with mate have "plThreads (sgPool G) t = None" by simp
    with L q(1) None show ?thesis by (simp add: turn_def pool_task_def)
  next
    fix rq msg assume A: "q = Awaiting rq msg"
    with mate obtain p where p: "plThreads (sgPool G) t = Some p" "kind p = Lookups" by auto
    show ?thesis
    proof (cases "returned p")
      case True
      then obtain i r where "p = ForReturn i r" using p(2) by (cases p) auto
      then show ?thesis using A p(1) q(1) None by (cases r) (simp_all add: turn_def pool_task_def)
    next
      case False
      from for_thread_ready [OF reach [OF wait [OF A]] p False, of E] show ?thesis
      proof (elim disjE exE conjE)
        assume "act E (Advance t) (sgPool G) \<noteq> None"
        moreover have "go_on q p = None" using A False p(2) by (cases p) simp_all
        ultimately show ?thesis
          using A p(1) q(1) None by (auto simp: turn_def pool_task_def simp del: act.simps)
      next
        fix i c u j a assume c: "p = ForOnce i c" "plThreads (sgPool G) u = Some (ForStarting j c a)"
        from starting_ready [OF m c(2), of E] c p(1) show ?thesis by blast
      qed
    qed
  qed simp
qed

text \<open>Where there is a pool at all, it is sound.\<close>

lemma started_calm:
  assumes "run_start E (New cfg w) = (None, s)" "wTrace w = []"
    "serve_exec E xs (listening s) = Some G" "pool_mode (sgServer G)"
  shows "reach_ok (sgPool G)"
proof -
  have "cfgBackend (svCfg n) = None \<Longrightarrow> svPool (snd (run_start E n)) = svPool n" for n
    by (auto simp: run_start_def Let_def split: option.splits sum.splits prod.splits)
  from this [of "New cfg w"] assms(1) have backend: "cfgBackend cfg = None \<Longrightarrow> svPool s = None"
    by (simp add: New_def Let_def)
  from hist_exec [OF assms(3)] have "fixed s (sgServer G)" by (auto simp: hist_ok_def)
  with assms(4) have "svPool s \<noteq> None" by (auto simp: pool_mode_def fixed_def)
  then obtain b where "cfgBackend cfg = Some b" using backend by fastforce
  from started_reach [OF assms(1) this assms(2,3)] show ?thesis by blast
qed


end
