(* ===== verification/ServingAlone.thy ===== *)
theory ServingAlone
  imports ServingLive PoolAlone
begin

text \<open>
  The goroutines of the server against the handlers as one step each: a request whose goroutine runs
  to its end without another one in between is answered as \<open>routes\<close> answers it and leaves the
  state that \<open>routes\<close> leaves, from every state the machine can reach in which no start is
  under way in the pool. What is proved of \<open>routes\<close> holds of such requests.
\<close>

section \<open>The sequential server of a state\<close>

definition dressed :: "Server \<Rightarrow> Pool \<Rightarrow> Server" where
  "dressed s P = s\<lparr>svPool := (if svPool s = None then None else Some (unthread P))\<rparr>"

definition flat :: "Serving \<Rightarrow> Server" where
  "flat G = dressed (server_now G) (sgPool G)"

lemma dressed_sel [simp]:
  "svCfg (dressed s P) = svCfg s" "svRunner (dressed s P) = svRunner s"
  "svCatalog (dressed s P) = svCatalog s" "svBackendCaps (dressed s P) = svBackendCaps s"
  "svSessions (dressed s P) = svSessions s" "svLimiter (dressed s P) = svLimiter s"
  "svWorld (dressed s P) = svWorld s" "svPool (dressed s P) = None \<longleftrightarrow> svPool s = None"
  "access_of (dressed s P) = access_of s"
  "dressed (s\<lparr>svSessions := st\<rparr>) P = (dressed s P)\<lparr>svSessions := st\<rparr>"
  "dressed (s\<lparr>svLimiter := l\<rparr>) P = (dressed s P)\<lparr>svLimiter := l\<rparr>"
  "dressed (s\<lparr>svWorld := w\<rparr>) P = (dressed s P)\<lparr>svWorld := w\<rparr>"
  by (simp_all add: dressed_def access_of_def fun_eq_iff)

lemma unthread_world [simp]: "unthread (P\<lparr>plWorld := w\<rparr>) = unthread P"
  by (simp add: unthread_def)

section \<open>What remains to be done\<close>

fun handle :: "Env \<Rightarrow> verb \<Rightarrow> handler" where
  "handle E POST = handleMCPPost E"
| "handle E GET = handleMCPGet"
| "handle E DELETE = handleMCPDelete"

text \<open>A message to a runner that has been found, and to whichever runner serves the identity.\<close>

definition hand_over :: "Env \<Rightarrow> Server \<Rightarrow> Request \<Rightarrow> JSONRPCMessage \<Rightarrow> runner_id \<Rightarrow> Response \<times> Server" where
  "hand_over E s rq msg r =
    (if IsNotification msg
     then (accepted, s\<lparr>svWorld := snd (runner_Notify E (svWorld s) r (msgMethod msg) (msgParams msg))\<rparr>)
     else case send_call E s rq msg r of
       (Passing r' resp, s') \<Rightarrow> (resp, s')
     | (Answered resp, s') \<Rightarrow> (resp, s')
     | (_, s') \<Rightarrow> (accepted, s'))"

definition deliver :: "Env \<Rightarrow> Server \<Rightarrow> Request \<Rightarrow> JSONRPCMessage \<Rightarrow> Response \<times> Server" where
  "deliver E s rq msg =
    (case runnerForRequest E s (IdentityFromContext rq) of
       (Inl e, s') \<Rightarrow> (no_runner msg (Some e), s')
     | (Inr None, s') \<Rightarrow> (no_runner msg None, s')
     | (Inr (Some r), s') \<Rightarrow> hand_over E s' rq msg r)"

definition after_touch :: "Env \<Rightarrow> Server \<Rightarrow> Request \<Rightarrow> Session \<Rightarrow> JSONRPCMessage \<Rightarrow> time \<Rightarrow> Response \<times> Server" where
  "after_touch E s rq sess msg now =
    (let s = s\<lparr>svSessions := fst (Touch (svSessions s) (sessID sess) now)\<rparr> in
     if IsNotification msg \<and> msgMethod msg = ''notifications/initialized''
     then (accepted, s\<lparr>svSessions := fst (MarkInitialized (svSessions s) (sessID sess) now)\<rparr>)
     else if \<not> IsNotification msg \<and> msgMethod msg = ''ping'' then (reply_result msg (JObj []), s)
     else deliver E s rq msg)"

definition created :: "Server \<Rightarrow> Request \<Rightarrow> JSONRPCMessage \<Rightarrow> InitializeParams \<Rightarrow> bytes \<Rightarrow> time \<Rightarrow> Response \<times> Server" where
  "created s rq msg params sid now =
    (initialize_reply s rq msg params sid,
     s\<lparr>svSessions := fst (Create (svSessions s) sid (idSubject (IdentityFromContext rq))
       (negotiateProtocolVersion (ipProtocolVersion params)) (ipClientInfo params) now)\<rparr>)"

definition admit :: "Env \<Rightarrow> verb \<Rightarrow> Request \<Rightarrow> Server \<times> bool \<Rightarrow> Response \<times> Server" where
  "admit E v rq a = (if snd a then handle E v (fst a) rq else (respondRateLimited, fst a))"

fun rest :: "Env \<Rightarrow> task \<Rightarrow> Server \<Rightarrow> Response \<times> Server" where
  "rest E (Arrived m path rq) s = routes E m path s rq"
| "rest E (Gated v rq) s = admit E v rq (limited E s rq)"
| "rest E (Limiting v rq now) s =
    (let a = Allow (svLimiter s) now (idSubject (IdentityFromContext rq)) in
     admit E v rq (s\<lparr>svLimiter := fst a\<rparr>, snd a))"
| "rest E (Handling v rq) s = handle E v s rq"
| "rest E (Deleting sid) s = (\<lparr>rsStatus = 204, rsHeaders = [], rsBody = NoBody\<rparr>,
     s\<lparr>svSessions := fst (Delete (svSessions s) sid)\<rparr>)"
| "rest E (Initializing rq msg) s = handleInitialize E s rq msg"
| "rest E (Minted rq msg params sid) s =
    created (s\<lparr>svWorld := snd (Now E (svWorld s))\<rparr>) rq msg params sid (fst (Now E (svWorld s)))"
| "rest E (Creating rq msg params sid now) s = created s rq msg params sid now"
| "rest E (Found rq sess msg) s =
    after_touch E (s\<lparr>svWorld := snd (Now E (svWorld s))\<rparr>) rq sess msg (fst (Now E (svWorld s)))"
| "rest E (Touching rq sess msg now) s = after_touch E s rq sess msg now"
| "rest E (Marking sess now) s =
    (accepted, s\<lparr>svSessions := fst (MarkInitialized (svSessions s) (sessID sess) now)\<rparr>)"
| "rest E (Looking rq msg) s = deliver E s rq msg"
| "rest E (Holding rq msg r) s = hand_over E s rq msg r"
| "rest E (Passing r resp) s = (resp, s)"
| "rest E (Streaming resp) s = (resp, s)"
| "rest E (Answered resp) s = (resp, s)"
| "rest E _ s = (accepted, s)"

section \<open>The handlers, cut into pieces\<close>

lemma send_call_forms:
  "send_call E s rq msg r =
    (case (case gate_of (access_of s rq) (msgMethod msg) of
        None \<Rightarrow> None | Some (key, allows) \<Rightarrow> name_refusal E msg key allows) of
       Some resp \<Rightarrow> (Answered resp, s)
     | None \<Rightarrow>
       (Passing r (fst (call_through E s r msg (shape (access_of s rq) msg))),
        snd (call_through E s r msg (shape (access_of s rq) msg))))"
  by (simp add: send_call_def call_through_def Let_def split: option.splits prod.splits sum.splits)

lemma call_hand_over:
  assumes "\<not> IsNotification msg"
  shows "hand_over E s rq msg r =
    (case (case gate_of (access_of s rq) (msgMethod msg) of
        None \<Rightarrow> None | Some (key, allows) \<Rightarrow> name_refusal E msg key allows) of
       Some resp \<Rightarrow> (resp, s)
     | None \<Rightarrow> call_through E s r msg (shape (access_of s rq) msg))"
  using assms by (simp add: hand_over_def send_call_forms split: option.splits)

lemma gated_forms:
  "forwardWithNameGate E s rq msg key allows =
    (case resolveRunner E s rq msg of
       (Inl resp, s) \<Rightarrow> (resp, s)
     | (Inr r, s) \<Rightarrow>
       (case name_refusal E msg key allows of
          Some resp \<Rightarrow> (resp, s) | None \<Rightarrow> call_through E s r msg (\<lambda>raw. raw)))"
  by (simp add: forwardWithNameGate_def name_refusal_def Let_def split: option.splits prod.splits sum.splits)

lemma deliver_request:
  assumes "\<not> IsNotification msg"
  shows "deliver E s rq msg =
    (case gate_of (access_of s rq) (msgMethod msg) of
       Some (key, allows) \<Rightarrow> forwardWithNameGate E s rq msg key allows
     | None \<Rightarrow>
       (case list_of (access_of s rq) (msgMethod msg) of
          Some (key, allows) \<Rightarrow> forwardAndFilterList E s rq msg key allows
        | None \<Rightarrow> forwardGeneric E s rq msg))"
proof -
  obtain x s' where x: "runnerForRequest E s (IdentityFromContext rq) = (x, s')"
    by (cases "runnerForRequest E s (IdentityFromContext rq)")
  have acc: "access_of s' rq = access_of s rq"
    using runnerForRequest_frame [of s E "IdentityFromContext rq"] x
    by (simp add: same_frame_def access_of_def)
  have shape: "shape (access_of s rq) msg = (case list_of (access_of s rq) (msgMethod msg) of
      None \<Rightarrow> (\<lambda>raw. raw)
    | Some (key, allows) \<Rightarrow>
        (\<lambda>raw. case filterListResult raw key allows of None \<Rightarrow> raw | Some out \<Rightarrow> out))"
    by (rule ext) (simp add: shape_def split: option.splits prod.splits)
  have excl: "gate_of (access_of s rq) (msgMethod msg) \<noteq> None \<Longrightarrow> list_of (access_of s rq) (msgMethod msg) = None"
    by (auto simp: gate_of_def list_of_def split: if_splits)
  show ?thesis
    using assms excl
    by (auto simp: deliver_def x call_hand_over acc shape gated_forms forwardAndFilterList_def
        forwardGeneric_def resolveRunner_def no_runner_def split: sum.splits option.splits)
qed

lemma deliver_notification:
  assumes "IsNotification msg"
  shows "deliver E s rq msg = (accepted,
    case runnerForRequest E s (IdentityFromContext rq) of
      (Inl _, s) \<Rightarrow> s
    | (Inr None, s) \<Rightarrow> s
    | (Inr (Some r), s) \<Rightarrow>
        s\<lparr>svWorld := snd (runner_Notify E (svWorld s) r (msgMethod msg) (msgParams msg))\<rparr>)"
  using assms by (auto simp: deliver_def hand_over_def no_runner_def split: sum.splits option.splits prod.splits)

lemma found_forms:
  "rest E (Found rq sess msg) s =
    (if IsNotification msg then handleNotification E s rq sess msg else handleRequest E s rq sess msg)"
proof -
  have t: "s\<lparr>svWorld := snd (Now E (svWorld s)),
      svSessions := fst (Touch (svSessions s) (sessID sess) (fst (Now E (svWorld s))))\<rparr> = touched E s sess"
    by (simp add: touched_def Now_def)
  have "access_of (touched E s sess) rq = access_of s rq" by simp
  with t show ?thesis
    by (auto simp: after_touch_def handleNotification_dispatch handleRequest_dispatch deliver_request
        deliver_notification accepted_def Let_def Now_def cong: option.case_cong)
qed

section \<open>One step\<close>

lemma limited_forms:
  "rest E (Gated v rq) s =
    (if svLimiter s = None \<or> rqIdentity rq = None \<or> idSubject (IdentityFromContext rq) = []
     then rest E (Handling v rq) s
     else rest E (Limiting v rq (fst (Now E (svWorld s)))) (s\<lparr>svWorld := snd (Now E (svWorld s))\<rparr>))"
  by (cases "svLimiter s") (simp_all add: admit_def limited_def Now_def Let_def)

lemma post_forms: "handleMCPPost E s rq = rest E (begin_post E s rq) s"
proof (cases "request_message rq")
  case None
  then have "\<exists>resp. begin_post E s rq = Answered resp"
    by (cases rule: begin_post_cases [of E s rq]) auto
  with None show ?thesis
    by (auto simp: begin_post_def handleMCPPost_def request_message_def split: option.splits if_splits
        prod.splits rpc_decode_error.splits)
next
  case (Some msg)
  have "begin_post E s rq =
      (if is_initialize msg then Initializing rq msg
       else if header_get (rqHeaders rq) session_header = []
       then Answered (reply_error msg ErrCodeInvalidRequest
              ''MCP-Session-Id header required after initialize'' None)
       else case find_session s rq of
          Inl resp \<Rightarrow> Answered resp
        | Inr sess \<Rightarrow>
          if IsNotification msg \<or> IsRequest msg then Found rq sess msg
          else Answered (reply_error msg ErrCodeInvalidRequest ''unrecognized JSON-RPC message'' None))"
    using Some by (auto simp: begin_post_def request_message_def is_initialize_def split: option.splits
        if_splits prod.splits)
  then show ?thesis
    by (auto simp: post_decoded [OF Some] session_of_def find_session_def found_forms
        simp del: rest.simps(9) split: option.splits)
qed

lemma delete_forms: "handleMCPDelete s rq = rest E (begin_delete s rq) s"
  by (simp add: handleMCPDelete_def begin_delete_def find_session_def Let_def split: option.splits)

lemma initialize_forms:
  "handleInitialize E s rq msg =
    (let (params, ok) = (case msgParams msg of None \<Rightarrow> (zero_params, True) | Some v \<Rightarrow> unmarshal_params v) in
     if \<not> ok
     then (reply_error msg ErrCodeInvalidParams ''invalid initialize params''
            (Some (JStr (envDecodeErr E (the (msgParams msg))))), s)
     else
       let (raw, w) = rand_Read E (svWorld s) in
       case NewSessionID raw of
         None \<Rightarrow> (reply_error msg ErrCodeInternalError ''failed to mint session id'' None, s\<lparr>svWorld := w\<rparr>)
       | Some sid \<Rightarrow> rest E (Minted rq msg params sid) (s\<lparr>svWorld := w\<rparr>))"
  by (simp add: handleInitialize_def created_def initialize_reply_def serverImpl_def Now_def Let_def
      split: option.splits prod.splits)

lemma arrive_forms: "routes E m path s rq = rest E (arrive s m path rq) s"
  by (auto simp: routes_def arrive_def verb_of_def mcpChain_eq admit_def handleHealthz_def Let_def
      case_prod_beta split: option.splits)

lemma rest_gate:
  assumes "gate_task E s q = Some (q', s')"
  shows "rest E q s = rest E q' s'"
  using assms
proof (cases rule: gate_task.cases [of "(E, s, q)"])
  case (1 E' s'' m path rq)
  with assms show ?thesis using arrive_forms by auto
next
  case (2 E' s'' v rq)
  with assms show ?thesis
    using limited_forms by (auto simp: case_prod_beta Let_def simp del: rest.simps split: if_splits)
next
  case (3 E' s'' v rq now)
  with assms show ?thesis by (auto simp: admit_def case_prod_beta Let_def)
qed simp_all

lemma rest_handler:
  assumes "handler_task E s q = Some (q', s')"
  shows "rest E q s = rest E q' s'"
  using assms
proof (cases rule: handler_task_cases [of "(E, s, q)"])
  case (1 E' s'' rq)
  with assms show ?thesis using post_forms by auto
next
  case (2 E' s'' rq)
  with assms show ?thesis
    by (auto simp: open_stream_def handleMCPGet_def Let_def prod_eq_iff split: option.splits)
next
  case (3 E' s'' rq)
  with assms show ?thesis using delete_forms by auto
next
  case (5 E' s'' rq msg)
  with assms show ?thesis
    using initialize_forms by (auto simp: Let_def case_prod_beta simp del: rest.simps(7)
        split: if_splits option.splits)
next
  case (9 E' s'' rq sess msg now)
  with assms show ?thesis by (auto simp: after_touch_def Let_def split: if_splits)
qed (use assms in \<open>auto simp: created_def Now_def\<close>)

lemma rest_runner:
  assumes "runner_task E s q = Some (q', s')"
  shows "rest E q s = rest E q' s'"
  using assms
proof (cases rule: runner_task_cases [of "(E, s, q)"])
  case (1 E' s'' rq msg)
  with assms show ?thesis
    by (auto simp: deliver_def runnerForRequest_def split: option.splits if_splits)
next
  case (2 E' s'' rq msg r)
  with assms show ?thesis
    by (auto simp: hand_over_def send_call_def Let_def split: if_splits option.splits prod.splits)
qed (use assms in auto)

lemma rest_step:
  assumes "server_task E s q = Some (q', s')" "request_task q"
  shows "rest E q s = rest E q' s'"
  using assms(1)
proof (cases rule: server_task_cases)
  case 4
  with assms(2) show ?thesis by (cases q) simp_all
qed (simp_all add: rest_gate rest_handler rest_runner)

text \<open>The steps do not look at the pool.\<close>

lemma begin_dressed [simp]:
  "arrive (dressed s P) = arrive s" "begin_post E (dressed s P) = begin_post E s"
  "begin_delete (dressed s P) = begin_delete s" "fst (handleMCPGet (dressed s P) rq) = fst (handleMCPGet s rq)"
  "initialize_reply (dressed s P) = initialize_reply s"
proof -
  have f: "find_session (dressed s P) = find_session s" by (rule ext) (simp add: find_session_def)
  show "arrive (dressed s P) = arrive s" "begin_post E (dressed s P) = begin_post E s"
    "begin_delete (dressed s P) = begin_delete s" "initialize_reply (dressed s P) = initialize_reply s"
    by (intro ext; simp only: arrive_def begin_post_def begin_delete_def initialize_reply_def serverImpl_def
        handleHealthz_def f dressed_sel fst_conv)+
  show "fst (handleMCPGet (dressed s P) rq) = fst (handleMCPGet s rq)"
    by (simp add: handleMCPGet_def Let_def split: option.split)
qed

lemma dressed_step:
  assumes "server_task E s q = Some (q', s')" "request_task q"
  shows "server_task E (dressed s P) q = Some (q', dressed s' P)"
proof (cases q)
  case (Handling v rq)
  with assms show ?thesis by (cases v) (auto simp: server_task_def)
next
  case (Holding rq msg r)
  with assms show ?thesis
    by (cases "IsNotification msg")
      (auto simp: server_task_def send_call_def Let_def split: option.splits prod.splits)
next
  case (Looking rq msg)
  with assms show ?thesis by (auto simp: server_task_def split: option.splits if_splits)
qed (use assms in \<open>auto simp: server_task_def Let_def split: if_splits prod.splits option.splits\<close>)

section \<open>Alone\<close>

definition ends_with :: "Env \<Rightarrow> nat \<Rightarrow> Serving \<Rightarrow> Response \<times> Server \<Rightarrow> bool" where
  "ends_with E t G res \<longleftrightarrow> (\<exists>n H. serve_exec E (replicate n (Turn t)) G = Some H
    \<and> sgTasks H t = Some (Answered (fst res)) \<and> flat H = snd res)"

lemma ends_with_exec:
  assumes "serve_exec E (replicate n (Turn t)) G = Some H" "ends_with E t H res"
  shows "ends_with E t G res"
proof -
  from assms(2) obtain m K where "serve_exec E (replicate m (Turn t)) H = Some K"
    "sgTasks K t = Some (Answered (fst res))" "flat K = snd res" by (auto simp: ends_with_def)
  with assms(1) show ?thesis
    unfolding ends_with_def by (intro exI [of _ "n + m"] exI [of _ K]) (simp add: replicate_add serve_exec_append)
qed

lemma ends_with_step:
  assumes "sgTasks G t = Some q" "turn E t q G = Some H" "ends_with E t H res"
  shows "ends_with E t G res"
  by (rule ends_with_exec [of E 1 t G H]) (use assms in simp_all)

lemma flat_sel [simp]:
  "flat (set_task t q G) = flat G" "flat (G\<lparr>sgRequests := xs\<rparr>) = flat G" "flat (set_server G s) = dressed s (sgPool G)"
  "flat (G\<lparr>sgPool := P\<rparr>) = (dressed (sgServer G) P)\<lparr>svWorld := plWorld P\<rparr>"
  by (simp_all add: flat_def server_now_def dressed_def set_task_def set_server_def)

lemma inside_alone:
  assumes "pool_exec E (replicate n (Advance t)) (sgPool G) = Some P" "sgTasks G t = Some q" "waits q"
    "plThreads (sgPool G) t = Some p" "mates q (Some p)"
  shows "\<exists>H. serve_exec E (replicate n (Turn t)) G = Some H \<and> sgPool H = P \<and> sgServer H = sgServer G
    \<and> sgTasks H t = Some q"
  using assms
proof (induction n arbitrary: G p)
  case (Suc n)
  from Suc.prems(1,4) obtain p' Q where st: "thread_step E (sgPool G) p = Some (p', Q)"
    "pool_exec E (replicate n (Advance t)) (Q\<lparr>plThreads := (plThreads Q)(t \<mapsto> p')\<rparr>) = Some P"
    by (auto split: option.splits)
  let ?H = "set_task t q (G\<lparr>sgPool := Q\<lparr>plThreads := (plThreads Q)(t \<mapsto> p')\<rparr>\<rparr>)"
  note k = kind_step [OF st(1)]
  have "go_on q p = None" using k by (cases rule: go_on.cases [of "(q, p)"]) simp_all
  moreover have "server_task E s q = None" "calls s q = None" for s
    using Suc.prems(3) by (cases q; simp add: server_task_def)+
  ultimately have "serve_act E (Turn t) G = Some ?H"
    using Suc.prems(2-4) st(1) by (simp add: turn_def pool_task_def)
  moreover have "mates q (Some p')" using k Suc.prems(3,5) by (cases q) simp_all
  from Suc.IH [of ?H p'] st(2) Suc.prems(3) this obtain H where "serve_exec E (replicate n (Turn t)) ?H = Some H"
    "sgPool H = P" "sgServer H = sgServer G" "sgTasks H t = Some q" by auto
  ultimately show ?case by simp
qed simp

text \<open>A method of the pool, run to its end in the goroutine that waits for it.\<close>

lemma method_alone:
  assumes "ends_as E t (sgPool G) res" "sgTasks G t = Some q" "waits q"
    "plThreads (sgPool G) t = Some p" "mates q (Some p)" "go_on q (fst res) = Some q'"
  shows "\<exists>n H. serve_exec E (replicate n (Turn t)) G = Some H \<and> sgTasks H t = Some q'
    \<and> flat H = (flat G)\<lparr>svPool := (if svPool (sgServer G) = None then None else Some (fst (snd res))),
        svWorld := snd (snd res)\<rparr>
    \<and> plThreads (sgPool H) t = Some (fst res)"
proof -
  from assms(1) obtain n P where P: "pool_exec E (replicate n (Advance t)) (sgPool G) = Some P"
    "plThreads P t = Some (fst res)" "unthread P = fst (snd res)" "plWorld P = snd (snd res)"
    by (auto simp: ends_as_def)
  from inside_alone [OF P(1) assms(2-5)] obtain H where H: "serve_exec E (replicate n (Turn t)) G = Some H"
    "sgPool H = P" "sgServer H = sgServer G" "sgTasks H t = Some q" by blast
  have "server_task E s q = None" "calls s q = None" for s
    using assms(3) by (cases q; simp add: server_task_def)+
  then have "turn E t q H = Some (set_task t q' (H\<lparr>sgPool := sgPool H\<rparr>))"
    using H(2) P(2) assms(3,6) by (simp add: turn_def pool_task_def)
  then have "serve_act E (Turn t) H = Some (set_task t q' H)" using H(4) by simp
  moreover have "replicate n (Turn t) @ [Turn t] = replicate (Suc n) (Turn t)"
    by (simp add: replicate_append_same)
  ultimately have "serve_exec E (replicate (Suc n) (Turn t)) G = Some (set_task t q' H)"
    using H(1) by (metis serve_exec_snoc)
  moreover have "flat H = (flat G)\<lparr>svPool := (if svPool (sgServer G) = None then None else Some (fst (snd res))),
        svWorld := snd (snd res)\<rparr>"
    using H(2,3) P(3,4) by (simp add: flat_def server_now_def dressed_def)
  ultimately show ?thesis using H(2) P(2) by (intro exI [of _ "Suc n"] exI [of _ "set_task t q' H"]) simp
qed

text \<open>What a lookup needs of the pool, until it is over.\<close>

fun calm :: "task \<Rightarrow> bool" where
  "calm (Holding _ _ _) = False"
| "calm (Passing _ _) = False"
| "calm (Answered _) = False"
| "calm (Awaiting _ _) = False"
| "calm _ = True"

definition pool_calm :: "Serving \<Rightarrow> bool" where
  "pool_calm G \<longleftrightarrow> (pool_mode (sgServer G) \<longrightarrow> reach_ok (sgPool G) \<and> settled_pool (sgPool G))"

lemma not_awaiting: "server_task E s q = Some (q', s') \<Longrightarrow> request_task q \<Longrightarrow> q' \<noteq> Awaiting rq msg"
  using server_task_rank [of E s q q' s' None] server_task_mates [of E s q q' s' None]
  by (cases q) (auto simp: server_task_def)

lemma answered_ends:
  "sgTasks G t = Some (Answered resp) \<Longrightarrow> ends_with E t G (resp, flat G)"
  unfolding ends_with_def by (intro exI [of _ 0] exI [of _ G]) simp

text \<open>The lookup in the pool: entered, run to its end, and left.\<close>

lemma lookup_alone:
  assumes t: "sgTasks G t = Some (Looking rq msg)" and free: "plThreads (sgPool G) t = None"
    and none: "server_task E (server_now G) (Looking rq msg) = None"
    and mode: "pool_mode (sgServer G)" and calm: "pool_calm G"
  shows "\<exists>n H res pool w. serve_exec E (replicate n (Turn t)) G = Some H
    \<and> RunnerFor E (plWorld (sgPool G)) (Some (unthread (sgPool G))) (IdentityFromContext rq) = (res, pool, w)
    \<and> sgTasks H t = Some (case res of Inl e \<Rightarrow> Answered (no_runner msg (Some e)) | Inr r \<Rightarrow> Holding rq msg r)
    \<and> flat H = (flat G)\<lparr>svPool := pool, svWorld := w\<rparr>
    \<and> plThreads (sgPool H) t = Some (ForReturn (IdentityFromContext rq) res)"
proof -
  let ?P = "sgPool G" and ?i = "IdentityFromContext rq"
  let ?P1 = "?P\<lparr>plThreads := (plThreads ?P)(t \<mapsto> ForBegin ?i)\<rparr>"
  let ?G1 = "set_task t (Awaiting rq msg) (G\<lparr>sgPool := ?P1\<rparr>)"
  have sp: "act E (Spawn t (ForOp ?i)) ?P = Some ?P1" using free by simp
  have "reach_ok ?P" "settled_pool ?P" using calm mode by (simp_all add: pool_calm_def)
  with reach_ok_act [OF _ sp] obtain own where own: "pool_ok own ?P1" "all_held ?P1" "settled_pool ?P1"
    by (auto simp: reach_ok_def settled_pool_def)
  obtain res pool w where r: "RunnerFor E (plWorld ?P) (Some (unthread ?P)) ?i = (res, pool, w)"
    by (cases "RunnerFor E (plWorld ?P) (Some (unthread ?P)) ?i")
  then obtain p where p: "pool = Some p" using RunnerFor_pool [of E "plWorld ?P" "unthread ?P" ?i] by auto
  let ?q = "case res of Inl e \<Rightarrow> Answered (no_runner msg (Some e)) | Inr r \<Rightarrow> Holding rq msg r"
  have 1: "serve_act E (Turn t) G = Some ?G1"
    using t none sp by (simp add: turn_def pool_task_def)
  have "ends_as E t (sgPool ?G1) (ForReturn ?i res, p, w)"
    using for_alone [OF own, of t ?i E] r p by simp
  moreover have "go_on (Awaiting rq msg) (fst (ForReturn ?i res, p, w)) = Some ?q" by (cases res) simp_all
  ultimately obtain n H where H: "serve_exec E (replicate n (Turn t)) ?G1 = Some H" "sgTasks H t = Some ?q"
    "flat H = (flat ?G1)\<lparr>svPool := (if svPool (sgServer G) = None then None else Some p), svWorld := w\<rparr>"
    "plThreads (sgPool H) t = Some (ForReturn ?i res)"
    using method_alone [of E t ?G1 "(ForReturn ?i res, p, w)" "Awaiting rq msg" "ForBegin ?i" ?q] by auto
  have "flat H = (flat G)\<lparr>svPool := pool, svWorld := w\<rparr>"
    using H(3) p mode by (simp add: flat_def server_now_def dressed_def pool_mode_def)
  moreover have "serve_exec E (replicate (Suc n) (Turn t)) G = Some H" using 1 H(1) by simp
  ultimately show ?thesis using r H(2,4) by blast
qed

lemma runs_alone:
  assumes "sgTasks G t = Some q" "request_task q" "\<And>rq msg. q \<noteq> Awaiting rq msg"
    "mates q (plThreads (sgPool G) t)" "calm q \<Longrightarrow> pool_calm G"
  shows "ends_with E t G (rest E q (flat G))"
  using assms
proof (induction "rank q None" arbitrary: q G rule: less_induct)
  case less
  show ?case
  proof (cases "server_task E (server_now G) q")
    case (Some x)
    obtain q' s' where st: "server_task E (server_now G) q = Some (q', s')" using Some by (cases x) simp
    let ?H = "set_task t q' (set_server G s')"
    have rk: "request_task q'" "rank q' None < rank q None"
      using server_task_rank [OF st less.prems(2), of None] by simp_all
    have fx: "fixed (sgServer G) s'" using server_task_fixed [OF st] by simp
    have calm: "pool_calm ?H" if c: "calm q'"
    proof -
      have q: "calm q" "\<And>rq msg r. q \<noteq> Holding rq msg r"
        using c st by (cases q; auto simp: server_task_def send_call_def Let_def
            split: if_splits option.splits prod.splits)+
      have "alike (plWorld (sgPool G)) (svWorld s') \<and> world_ok (svWorld s')"
        if "pool_mode (sgServer G)" "reach_ok (sgPool G)"
      proof -
        have "world_ok (plWorld (sgPool G))"
          using that(2) by (auto simp: reach_ok_def pool_ok_def heap_sound_def view_def)
        with server_task_world [OF st] q(2) that(1) show ?thesis by (simp add: pool_mode_def)
      qed
      with less.prems(5) [OF q(1)] fx show ?thesis
        by (auto simp: pool_calm_def pool_mode_def fixed_def settled_pool_def intro: reach_ok_world)
    qed
    have "ends_with E t ?H (rest E q' (flat ?H))"
      by (rule less.hyps [OF rk(2) _ rk(1) not_awaiting [OF st less.prems(2)] _ calm])
        (use server_task_mates [OF st less.prems(4)] in simp_all)
    moreover have "flat ?H = dressed s' (sgPool G)" by simp
    moreover have "rest E q (flat G) = rest E q' (dressed s' (sgPool G))"
      unfolding flat_def by (rule rest_step [OF dressed_step [OF st less.prems(2)] less.prems(2)])
    moreover have "turn E t q G = Some ?H" using st by (simp add: turn_def)
    ultimately show ?thesis using ends_with_step [OF less.prems(1)] by simp
  next
    case None
    from server_task_or_pool [OF None less.prems(2)] less.prems(3) consider
      (final) resp where "q = Answered resp"
    | (look) rq msg where "q = Looking rq msg" "pool_mode (server_now G)" by blast
    then show ?thesis
    proof cases
      case final
      with answered_ends less.prems(1) show ?thesis by simp
    next
      case (look rq msg)
      have mode: "pool_mode (sgServer G)" using look(2) by (simp add: pool_mode_def)
      have "sgTasks G t = Some (Looking rq msg)" "plThreads (sgPool G) t = None"
        "server_task E (server_now G) (Looking rq msg) = None" "pool_calm G"
        using less.prems(1,4,5) None look(1) by simp_all
      from lookup_alone [OF this(1-3) mode this(4)] obtain n H res pool w where
        H: "serve_exec E (replicate n (Turn t)) G = Some H"
        "RunnerFor E (plWorld (sgPool G)) (Some (unthread (sgPool G))) (IdentityFromContext rq) = (res, pool, w)"
        "sgTasks H t = Some (case res of Inl e \<Rightarrow> Answered (no_runner msg (Some e)) | Inr r \<Rightarrow> Holding rq msg r)"
        "flat H = (flat G)\<lparr>svPool := pool, svWorld := w\<rparr>"
        "plThreads (sgPool H) t = Some (ForReturn (IdentityFromContext rq) res)" by blast
      have "svRunner (flat G) = None" "svPool (flat G) = Some (unthread (sgPool G))"
        "svWorld (flat G) = plWorld (sgPool G)"
        using mode by (auto simp: flat_def dressed_def pool_mode_def)
      then have r: "runnerForRequest E (flat G) (IdentityFromContext rq)
          = (case res of Inl e \<Rightarrow> Inl e | Inr r \<Rightarrow> Inr (Some r), flat H)"
        using H(2,4) by (simp add: runnerForRequest_def split: sum.split)
      show ?thesis
      proof (cases res)
        case (Inl e)
        with H(3) answered_ends have "ends_with E t H (no_runner msg (Some e), flat H)" by simp
        with ends_with_exec [OF H(1)] r Inl look(1) show ?thesis by (simp add: deliver_def)
      next
        case (Inr r')
        with H(3,5) have "ends_with E t H (rest E (Holding rq msg r') (flat H))"
          by (intro less.hyps) (simp_all add: look(1))
        with ends_with_exec [OF H(1)] r Inr look(1) show ?thesis by (simp add: deliver_def)
      qed
    qed
  qed
qed

text \<open>C7. The handlers taken as one step each are what the goroutines do when they do not interleave: from
  any state the server reaches with no start under way in its pool, a request that arrives and is
  served alone is answered as \<open>routes\<close> answers it, and leaves the sessions, the limiter, the
  pool, the clock and the trace that \<open>routes\<close> leaves.\<close>

theorem requests_refined:
  assumes "run_start E (New cfg w) = (None, s)" "wTrace w = []"
    "serve_exec E xs (listening s) = Some G" "settled_pool (sgPool G)"
    "sgTasks G t = None" "\<not> sgQuit G" "arrives (HttpRequest m path rq)"
  shows "\<exists>n H. serve_exec E (Accept t m path rq # replicate n (Turn t)) G = Some H
    \<and> sgTasks H t = Some (Answered (fst (routes E m path (flat G) rq)))
    \<and> flat H = snd (routes E m path (flat G) rq)"
proof -
  let ?G = "set_task t (Arrived m path rq) (G\<lparr>sgRequests := t # sgRequests G\<rparr>)"
  have act: "serve_act E (Accept t m path rq) G = Some ?G" using assms(5-7) by simp
  have m: "mated G" by (rule mated_exec [OF mated_listening assms(3)])
  have "mates (Arrived m path rq) (plThreads (sgPool ?G) t)" using matedD(1) [OF m assms(5)] by simp
  moreover have "pool_calm ?G"
    using started_calm [OF assms(1-3)] assms(4) by (simp add: pool_calm_def)
  ultimately have "ends_with E t ?G (rest E (Arrived m path rq) (flat ?G))"
    by (intro runs_alone) simp_all
  then obtain n H where "serve_exec E (replicate n (Turn t)) ?G = Some H"
    "sgTasks H t = Some (Answered (fst (routes E m path (flat G) rq)))"
    "flat H = snd (routes E m path (flat G) rq)"
    by (auto simp: ends_with_def)
  with act show ?thesis by (intro exI [of _ n] exI [of _ H]) simp
qed

section \<open>The sweep\<close>

lemma idle_cong:
  "svCfg s = svCfg s' \<Longrightarrow> idleAndSweep s = idleAndSweep s'"
  "svCfg s = svCfg s' \<Longrightarrow> poolIdleTimeout s = poolIdleTimeout s'"
  by (simp_all only: idleAndSweep_def poolIdleTimeout_def)

lemma evicting_alone:
  assumes "sgTasks G t = Some (Evicting now)" "plThreads (sgPool G) t = None"
  shows "\<exists>n H. serve_exec E (replicate n (Turn t)) G = Some H \<and> sgTasks H t = Some Finished
    \<and> flat H = (if svPool (sgServer G) \<noteq> None \<and> 0 < poolIdleTimeout (sgServer G)
       then case EvictIdle E (plWorld (sgPool G)) (Some (unthread (sgPool G)))
           (now - poolIdleTimeout (sgServer G)) of
         (_, pool, w) \<Rightarrow> (flat G)\<lparr>svPool := pool, svWorld := w\<rparr>
       else flat G)"
proof -
  let ?s = "server_now G" and ?P = "sgPool G"
  have idle: "poolIdleTimeout ?s = poolIdleTimeout (sgServer G)" by (rule idle_cong) simp
  show ?thesis
  proof (cases "svPool (sgServer G) \<noteq> None \<and> 0 < poolIdleTimeout (sgServer G)")
    case False
    then have "serve_act E (Turn t) G = Some (set_task t Finished (set_server G ?s))"
      using assms(1) by (auto simp: turn_def server_task_def idle)
    moreover have "flat (set_server G ?s) = flat G" by (subst flat_sel(3)) (simp only: flat_def)
    ultimately show ?thesis using False
      by (intro exI [of _ 1] exI [of _ "set_task t Finished (set_server G ?s)"]) auto
  next
    case True
    let ?cut = "now - poolIdleTimeout (sgServer G)"
    let ?P1 = "?P\<lparr>plThreads := (plThreads ?P)(t \<mapsto> EvictBegin ?cut)\<rparr>"
    let ?G1 = "set_task t Reaping (G\<lparr>sgPool := ?P1\<rparr>)"
    have 1: "serve_act E (Turn t) G = Some ?G1"
      using True assms by (simp add: turn_def server_task_def pool_task_def idle)
    obtain k pool w where ev: "EvictIdle E (plWorld ?P) (Some (unthread ?P)) ?cut = (k, pool, w)"
      by (cases "EvictIdle E (plWorld ?P) (Some (unthread ?P)) ?cut")
    then obtain p where p: "pool = Some p" by (auto simp: EvictIdle_def Let_def split: if_splits)
    have "plThreads ?P1 t = Some (EvictBegin ?cut)" by simp
    from evict_begin_alone [OF this, of E] ev p have "ends_as E t ?P1 (EvictReturn k, p, w)" by simp
    then obtain n H where H: "serve_exec E (replicate n (Turn t)) ?G1 = Some H" "sgTasks H t = Some Finished"
      "flat H = (flat ?G1)\<lparr>svPool := (if svPool (sgServer ?G1) = None then None else Some p), svWorld := w\<rparr>"
      using method_alone [of E t ?G1 "(EvictReturn k, p, w)" Reaping "EvictBegin ?cut" Finished] by auto
    have "flat H = (flat G)\<lparr>svPool := pool, svWorld := w\<rparr>"
      unfolding H(3) using True p by (simp add: dressed_def flat_def server_now_def)
    moreover have "serve_exec E (replicate (Suc n) (Turn t)) G = Some H" using 1 H(1) by simp
    ultimately show ?thesis using True ev H(2) by (intro exI [of _ "Suc n"] exI [of _ H]) simp
  qed
qed

text \<open>A sweep that is not interleaved is one tick of \<open>runSessionGC\<close>.\<close>

lemma sweep_refined:
  assumes "sgTasks G t = None" "plThreads (sgPool G) t = None" "sgSweeper G = None"
    "0 < fst (idleAndSweep (sgServer G))"
  shows "\<exists>n H. serve_exec E (Sweep t now # replicate n (Turn t)) G = Some H
    \<and> sgTasks H t = Some Finished \<and> flat H = runSessionGC E (flat G) now"
proof -
  let ?s = "server_now G" and ?P = "sgPool G"
  let ?s1 = "?s\<lparr>svSessions := fst (ExpireBefore (svSessions ?s) (now - fst (idleAndSweep ?s)))\<rparr>"
  let ?G0 = "set_task t (Sweeping now) (G\<lparr>sgSweeper := Some t\<rparr>)"
  let ?G1 = "set_task t (Cleaning now) (set_server ?G0 ?s1)"
  obtain s2 where s2: "s2 = (if svLimiter ?s1 \<noteq> None
    then ?s1\<lparr>svLimiter := fst (Cleanup (svLimiter ?s1) (now - rlEvictAfter (cfgRateLimit (svCfg ?s1))))\<rparr> else ?s1)"
    by blast
  obtain G2 where G2: "G2 = set_task t (Evicting now) (set_server ?G1 s2)" by blast
  have now: "server_now ?G0 = ?s" "server_now ?G1 = ?s1"
    by (simp_all add: server_now_def set_task_def set_server_def)
  have 0: "serve_act E (Sweep t now) G = Some ?G0" using assms(1,3,4) by simp
  have 1: "serve_act E (Turn t) ?G0 = Some ?G1" by (simp add: turn_def now server_task_def)
  have 2: "serve_act E (Turn t) ?G1 = Some G2"
    unfolding serve_act.simps set_task_sel fun_upd_same option.case turn_def now s2 G2
    by (simp add: server_task_def)
  have s2_sel: "svCfg s2 = svCfg (sgServer G)" "svPool s2 = svPool (sgServer G)" "svWorld s2 = plWorld ?P"
    by (simp_all add: s2)
  have idle: "poolIdleTimeout s2 = poolIdleTimeout (sgServer G)" "idleAndSweep (flat G) = idleAndSweep (sgServer G)"
    "poolIdleTimeout (flat G) = poolIdleTimeout (sgServer G)"
    "idleAndSweep ?s = idleAndSweep (sgServer G)" "poolIdleTimeout ?s = poolIdleTimeout (sgServer G)"
    by (rule idle_cong; simp add: s2_sel flat_def)+
  have P: "sgPool G2 = ?P" "sgServer G2 = s2" "flat G2 = dressed s2 ?P" "sgTasks G2 t = Some (Evicting now)"
    unfolding G2 by (simp_all add: s2_sel)
  from evicting_alone [OF P(4), of E] assms(2) obtain n H where
    H: "serve_exec E (replicate n (Turn t)) G2 = Some H" "sgTasks H t = Some Finished"
    "flat H = (if svPool (sgServer G) \<noteq> None \<and> 0 < poolIdleTimeout (sgServer G)
       then case EvictIdle E (plWorld ?P) (Some (unthread ?P)) (now - poolIdleTimeout (sgServer G)) of
         (_, pool, w) \<Rightarrow> (dressed s2 ?P)\<lparr>svPool := pool, svWorld := w\<rparr>
       else dressed s2 ?P)"
    unfolding P(1-3) idle s2_sel by blast
  have "flat H = runSessionGC E (flat G) now"
    unfolding H(3) runSessionGC_def gc_tick_def idle Let_def
    using assms(4) by (simp add: s2 flat_def idle) (simp add: dressed_def server_now_def)
  moreover have "serve_exec E (Sweep t now # replicate (Suc (Suc n)) (Turn t)) G = Some H"
    unfolding serve_exec.simps 0 option.case replicate_Suc 1 2 by (rule H(1))
  ultimately show ?thesis using H(2) by (intro exI [of _ "Suc (Suc n)"] exI [of _ H]) simp
qed

end
