(* ===== verification/ServingEnds.thy ===== *)
theory ServingEnds
  imports ServingAlone
begin

text \<open>
  What the sweep and the end of the server do to requests that are under way: neither waits for a
  call in flight, and both stop the process it is waiting on.
\<close>

section \<open>The end, alone\<close>

lemma quit_refined:
  assumes "sgTasks G t = None" "plThreads (sgPool G) t = None" "\<not> sgQuit G"
  shows "\<exists>n H. serve_exec E (Quit t # GiveUp t # replicate n (Turn t)) G = Some H
    \<and> sgTasks H t = Some Finished \<and> flat H = run_stop E (flat G)"
proof -
  let ?P = "sgPool G" and ?late = "Some (Some ''context deadline exceeded'')"
  let ?D = "set_task t Draining (G\<lparr>sgQuit := True\<rparr>)"
  obtain G0 where G0: "G0 = set_task t Stopping (?D\<lparr>sgRun := ?late\<rparr>)" by blast
  have 00: "serve_act E (Quit t) G = Some ?D" using assms(1,3) by simp
  have 0: "serve_act E (GiveUp t) ?D = Some G0" by (simp add: G0)
  have g: "sgTasks G0 t = Some Stopping" "sgPool G0 = ?P" "sgServer G0 = sgServer G"
    "server_now G0 = server_now G" "flat G0 = flat G"
    by (simp_all add: G0) (simp_all add: flat_def server_now_def set_task_def)
  show ?thesis
  proof (cases "server_task E (server_now G) Stopping")
    case (Some x)
    obtain q s where x: "x = (q, s)" by (cases x)
    have q: "q = Finished" "dressed s ?P = run_stop E (flat G)"
      using Some x by (auto simp: server_task_def run_stop_def flat_def dressed_def split: option.splits if_splits)
    let ?H = "set_task t q (set_server G0 s)"
    have "serve_act E (Turn t) G0 = Some ?H" 
      unfolding serve_act.simps g option.case turn_def Some x prod.case ..
    moreover have "flat ?H = dressed s ?P" by (simp add: g)
    ultimately show ?thesis using q 00 0
      by (intro exI [of _ 1] exI [of _ ?H]) (simp del: serve_act.simps)
  next
    case None
    then have mode: "svRunner (sgServer G) = None" "svPool (sgServer G) \<noteq> None"
      by (auto simp: server_task_def split: option.splits if_splits)
    let ?P1 = "?P\<lparr>plThreads := (plThreads ?P)(t \<mapsto> CloseBegin)\<rparr>"
    let ?G1 = "set_task t Closing (G0\<lparr>sgPool := ?P1\<rparr>)"
    have 1: "serve_act E (Turn t) G0 = Some ?G1"
      using None assms(2) by (simp add: g turn_def pool_task_def)
    obtain e pool w where c: "pool_Close E (plWorld ?P) (Some (unthread ?P)) = (e, pool, w)"
      by (cases "pool_Close E (plWorld ?P) (Some (unthread ?P))")
    then obtain p where p: "pool = Some p" by (auto simp: pool_Close_def Let_def split: if_splits prod.splits)
    have "plThreads ?P1 t = Some CloseBegin" by simp
    from close_begin_alone [OF this, of E] c p have "ends_as E t ?P1 (CloseReturn e, p, w)" by simp
    then obtain n H where H: "serve_exec E (replicate n (Turn t)) ?G1 = Some H" "sgTasks H t = Some Finished"
      "flat H = (flat ?G1)\<lparr>svPool := (if svPool (sgServer ?G1) = None then None else Some p), svWorld := w\<rparr>"
      using method_alone [of E t ?G1 "(CloseReturn e, p, w)" Closing CloseBegin Finished] by auto
    have "flat H = run_stop E (flat G)"
      unfolding H(3) using mode p c by (auto simp: g run_stop_def dressed_def flat_def server_now_def)
    moreover have "serve_exec E (Quit t # GiveUp t # replicate (Suc n) (Turn t)) G = Some H"
      unfolding serve_exec.simps 00 0 option.case replicate_Suc 1 by (rule H(1))
    ultimately show ?thesis using H(2) by (intro exI [of _ "Suc n"] exI [of _ H]) simp
  qed
qed

section \<open>Calls in flight\<close>

text \<open>A goroutine stays where it is as long as it does not have its turn.\<close>

lemma stays_put:
  assumes "serve_exec E ys G = Some H" "Turn t \<notin> set ys" "sgTasks G t = Some q" "q \<noteq> Draining"
  shows "sgTasks H t = Some q"
  using assms(1-3)
proof (induction ys arbitrary: G)
  case (Cons a ys)
  then obtain K where K: "serve_act E a G = Some K" "serve_exec E ys K = Some H"
    by (auto split: option.splits)
  have "a \<noteq> Turn t" using Cons.prems(2) by auto
  from act_others [OF K(1) this Cons.prems(3) assms(4)] Cons.prems(3) have "sgTasks K t = Some q" by simp
  with Cons.IH [OF K(2)] Cons.prems(2) show ?case by simp
qed simp

lemma stopped_in_trace:
  assumes "(k, i) \<in> set is" "piStarted i"
  shows "EvStop (piRunner i) \<in> set (wTrace (stop_started E w (map snd is)))"
  using assms by (force simp: stop_started_world)

lemma flat_pooled:
  assumes "pool_mode (sgServer G)"
  shows "svRunner (flat G) = None" "svPool (flat G) = Some (unthread (sgPool G))"
    "svWorld (flat G) = plWorld (sgPool G)" "idleAndSweep (flat G) = idleAndSweep (sgServer G)"
    "poolIdleTimeout (flat G) = poolIdleTimeout (sgServer G)"
  using assms by (auto simp: flat_def dressed_def pool_mode_def intro: idle_cong)

lemma sweep_stops_cold:
  assumes "pool_mode (sgServer G)" "\<not> plClosed (sgPool G)" "(k, c) \<in> set (plInstances (sgPool G))"
    "inStarted (plHeap (sgPool G) ! c)" "0 < fst (idleAndSweep (sgServer G))"
    "0 < poolIdleTimeout (sgServer G)" "k \<noteq> sharedKey"
    "inLastUsed (plHeap (sgPool G) ! c) < now - poolIdleTimeout (sgServer G)"
  shows "EvStop (inRunner (plHeap (sgPool G) ! c)) \<in> set (wTrace (svWorld (runSessionGC E (flat G) now)))"
proof -
  let ?P = "sgPool G" and ?I = "plHeap (sgPool G) ! c"
  let ?cold = "\<lambda>(key, inst). key \<noteq> sharedKey \<and> piLastUsed inst < now - poolIdleTimeout (sgServer G)"
  have "svWorld (runSessionGC E (flat G) now)
      = stop_started E (plWorld ?P) (map snd (filter ?cold (poInstances (unthread ?P))))"
    using gc_tick_pool [of E "flat G" now] assms(2,5,6)
    by (simp add: runSessionGC_def flat_pooled [OF assms(1)] EvictIdle_def Let_def del: unthread_sel(3))
  moreover have "(k, pooled ?I) \<in> set (poInstances (unthread ?P))" using assms(3) by force
  then have "(k, pooled ?I) \<in> set (filter ?cold (poInstances (unthread ?P)))" using assms(7,8) by simp
  from stopped_in_trace [OF this, of E "plWorld ?P"] assms(4)
  have "EvStop (inRunner ?I) \<in> set (wTrace (stop_started E (plWorld ?P)
      (map snd (filter ?cold (poInstances (unthread ?P))))))" by simp
  ultimately show ?thesis by simp
qed

lemma quit_stops_all:
  assumes "pool_mode (sgServer G)" "\<not> plClosed (sgPool G)" "(k, c) \<in> set (plInstances (sgPool G))"
    "inStarted (plHeap (sgPool G) ! c)"
  shows "EvStop (inRunner (plHeap (sgPool G) ! c)) \<in> set (wTrace (svWorld (run_stop E (flat G))))"
proof -
  let ?P = "sgPool G" and ?I = "plHeap (sgPool G) ! c"
  have "svWorld (run_stop E (flat G)) = stop_started E (plWorld ?P) (map snd (poInstances (unthread ?P)))"
    using assms(2) by (simp add: run_stop_def flat_pooled [OF assms(1)] pool_Close_def Let_def
        case_prod_beta close_loop_world del: unthread_sel(3))
  moreover have "(k, pooled ?I) \<in> set (poInstances (unthread ?P))" using assms(3) by force
  from stopped_in_trace [OF this, of E "plWorld ?P"] assms(4)
  have "EvStop (inRunner ?I) \<in> set (wTrace (stop_started E (plWorld ?P) (map snd (poInstances (unthread ?P)))))"
    by simp
  ultimately show ?thesis by simp
qed

text \<open>C22. Nothing protects a call in flight: when a request has been waiting on its runner for longer than the
  pool's idle time, since the time of use is that of the lookup, the next sweep stops the process
  under it; and the deferred stop of \<^verbatim>\<open>Run\<close>, which a \<^verbatim>\<open>Shutdown\<close> that gave up waiting
  is followed by, stops it likewise.\<close>

theorem call_in_flight_stopped:
  assumes "run_start E (New cfg w) = (None, s)" "wTrace w = []" "serve_exec E xs (listening s) = Some G"
    "pool_mode (sgServer G)" "sgTasks G t = Some (Passing r resp)" "sgTasks G u = None"
    "(k, c) \<in> set (plInstances (sgPool G))" "inRunner (plHeap (sgPool G) ! c) = r"
    "inStarted (plHeap (sgPool G) ! c)" "sgSweeper G = None" "\<not> sgQuit G"
    "0 < fst (idleAndSweep (sgServer G))" "0 < poolIdleTimeout (sgServer G)" "k \<noteq> sharedKey"
    "inLastUsed (plHeap (sgPool G) ! c) < now - poolIdleTimeout (sgServer G)"
  shows "(\<exists>n H. serve_exec E (Sweep u now # replicate n (Turn u)) G = Some H
      \<and> sgTasks H t = Some (Passing r resp) \<and> EvStop r \<in> set (wTrace (plWorld (sgPool H))))
    \<and> (\<exists>n H. serve_exec E (Quit u # GiveUp u # replicate n (Turn u)) G = Some H
      \<and> sgTasks H t = Some (Passing r resp) \<and> EvStop r \<in> set (wTrace (plWorld (sgPool H))))"
proof -
  have ne: "u \<noteq> t" using assms(5,6) by auto
  have free: "plThreads (sgPool G) u = None"
    by (rule matedD(1) [OF mated_exec [OF mated_listening assms(3)] assms(6)])
  have "closed_empty (sgPool G)" using started_calm [OF assms(1-4)] by (simp add: reach_ok_def)
  then have opened: "\<not> plClosed (sgPool G)" using assms(7) by (auto simp: closed_empty_def)
  have w: "svWorld (flat H) = plWorld (sgPool H)" for H by (simp add: flat_def)
  obtain n H where H: "serve_exec E (Sweep u now # replicate n (Turn u)) G = Some H"
    "flat H = runSessionGC E (flat G) now"
    using sweep_refined [OF assms(6) free assms(10,12)] by blast
  have 1: "EvStop r \<in> set (wTrace (plWorld (sgPool H)))"
    using sweep_stops_cold [OF assms(4) opened assms(7,9,12-15), of E] H(2) w [of H] assms(8) by simp
  obtain m K where K: "serve_exec E (Quit u # GiveUp u # replicate m (Turn u)) G = Some K" "flat K = run_stop E (flat G)"
    using quit_refined [OF assms(6) free assms(11)] by blast
  have 2: "EvStop r \<in> set (wTrace (plWorld (sgPool K)))"
    using quit_stops_all [OF assms(4) opened assms(7,9), of E] K(2) w [of K] assms(8) by simp
  have "sgTasks H t = Some (Passing r resp)" "sgTasks K t = Some (Passing r resp)"
    using stays_put [OF H(1) _ assms(5)] stays_put [OF K(1) _ assms(5)] ne by simp_all
  with H(1) K(1) 1 2 show ?thesis by blast
qed

end
