(* ===== verification/ServingShutdown.thy ===== *)
theory ServingShutdown
  imports ServingEnds
begin

text \<open>
  How \<^verbatim>\<open>Run\<close> ends: what it has waited for when it returns nil, and what can keep it from that.
\<close>

section \<open>What Run waits for\<close>

text \<open>A turn leaves a goroutine what it is: a request, or one of the server's own.\<close>

lemma server_task_own:
  assumes "server_task E s q = Some (q', s')" "\<not> request_task q"
  shows "\<not> request_task q' \<and> q' \<noteq> Draining \<and> q' \<noteq> Closing \<and> q' \<noteq> Stopping"
  using assms by (cases q) (auto simp: server_task_def split: if_splits option.splits)

lemma turn_frame:
  assumes "turn E t q G = Some H"
  shows "sgRequests H = sgRequests G" "sgQuit H = sgQuit G" "sgRun H = sgRun G"
    "\<exists>q'. sgTasks H = (sgTasks G)(t \<mapsto> q') \<and> request_task q' = request_task q \<and> q' \<noteq> Draining
      \<and> (q' \<in> {Stopping, Closing} \<longrightarrow> q \<in> {Stopping, Closing})"
    "q \<noteq> Answered resp"
proof -
  show "sgRequests H = sgRequests G" "sgQuit H = sgQuit G" "sgRun H = sgRun G"
    using assms by (cases rule: turn_cases; simp)+
  show "\<exists>q'. sgTasks H = (sgTasks G)(t \<mapsto> q') \<and> request_task q' = request_task q \<and> q' \<noteq> Draining
      \<and> (q' \<in> {Stopping, Closing} \<longrightarrow> q \<in> {Stopping, Closing})"
    using assms
  proof (cases rule: turn_cases)
    case (server q' s)
    with server_task_own [OF server(1)] server_task_rank [OF server(1)] show ?thesis
      by (cases "request_task q") fastforce+
  next
    case (enter x q' P)
    then show ?thesis by (cases q) auto
  next
    case (leave r q')
    then show ?thesis by (cases rule: go_on.cases [of "(q, r)"]) auto
  next
    case (inside P)
    then show ?thesis by (cases q) auto
  qed
  show "q \<noteq> Answered resp"
    using assms by (cases rule: turn_cases) (auto simp: server_task_def)
qed

lemma answered_iff: "answered G t \<longleftrightarrow> (\<exists>resp. sgTasks G t = Some (Answered resp))"
  by (simp add: answered_def split: option.split task.split)

text \<open>The requests of a run are the goroutines of its requests.\<close>

definition accepts :: "serve_action list \<Rightarrow> nat set" where
  "accepts xs = {t. \<exists>m path rq. Accept t m path rq \<in> set xs}"

definition requests :: "Serving \<Rightarrow> nat set" where
  "requests G = {t. \<exists>q. sgTasks G t = Some q \<and> request_task q}"

definition accounted :: "serve_action list \<Rightarrow> Serving \<Rightarrow> bool" where
  "accounted xs G \<longleftrightarrow> set (sgRequests G) = accepts xs \<and> requests G = accepts xs"

lemma accepts_simps [simp]:
  "accepts [] = {}" "accepts (xs @ ys) = accepts xs \<union> accepts ys"
  "accepts (Accept t m path rq # xs) = insert t (accepts xs)"
  "accepts (Sweep t now # xs) = accepts xs" "accepts (Quit t # xs) = accepts xs"
  "accepts (Emptied t # xs) = accepts xs" "accepts (GiveUp t # xs) = accepts xs"
  "accepts (ListenFails t err # xs) = accepts xs" "accepts (Turn t # xs) = accepts xs"
  by (auto simp: accepts_def)

lemma requests_upd:
  assumes "sgTasks H = (sgTasks G)(t \<mapsto> q)"
  shows "requests H = (if request_task q then insert t (requests G) else requests G - {t})"
  using assms by (auto simp: requests_def)

text \<open>Where \<^verbatim>\<open>Run\<close> is: one goroutine at most waits, and only until it is decided what to return.\<close>

definition staged :: "Serving \<Rightarrow> bool" where
  "staged G \<longleftrightarrow> (sgRun G \<noteq> None \<longrightarrow> sgQuit G)
    \<and> (\<forall>t. sgTasks G t = Some Draining \<longrightarrow> sgQuit G \<and> sgRun G = None
        \<and> (\<forall>u. sgTasks G u = Some Draining \<longrightarrow> u = t))
    \<and> (\<forall>t. sgTasks G t \<in> {Some Stopping, Some Closing} \<longrightarrow> sgRun G \<noteq> None)"

definition all_served :: "Serving \<Rightarrow> bool" where
  "all_served G \<longleftrightarrow> (sgRun G = Some None \<longrightarrow> (\<forall>t \<in> set (sgRequests G). answered G t))"

lemma accounted_act:
  assumes "accounted xs G" "serve_act E a G = Some H"
  shows "accounted (xs @ [a]) H"
  using assms(2)
proof (cases rule: serve_act_cases)
  case (turn t q)
  obtain q' where "sgTasks H = (sgTasks G)(t \<mapsto> q')" "request_task q' = request_task q"
    using turn_frame(4) [OF turn(3)] by blast
  then have "requests H = requests G" using turn(2) by (auto simp: requests_upd) (auto simp: requests_def)
  with assms(1) turn show ?thesis by (simp add: accounted_def turn_frame(1) [OF turn(3)])
next
  case (start t q)
  have t: "t \<notin> requests G" using start(1) by (auto simp: requests_def)
  show ?thesis
  proof (cases "\<exists>m path rq. a = Accept t m path rq")
    case True
    then obtain m path rq where a: "a = Accept t m path rq" by blast
    have "sgTasks H t = Some q" by (simp add: start(3))
    with assms(2) a have "sgRequests H = t # sgRequests G" "q = Arrived m path rq"
      by (auto split: if_splits)
    with assms(1) requests_upd [OF start(3)] a show ?thesis by (simp add: accounted_def)
  next
    case False
    then have own: "\<not> request_task q" using start(2) by auto
    have none: "a \<noteq> Accept u m path rq" for u m path rq
    proof
      assume "a = Accept u m path rq"
      with assms(2) have "sgTasks G u = None" "sgTasks H u = Some (Arrived m path rq)" by (auto split: if_splits)
      with start(3) own show False by (auto split: if_splits)
    qed
    from own have "requests H = requests G" using requests_upd [OF start(3)] t by simp
    moreover have "accepts [a] = {}" using none by (auto simp: accepts_def)
    moreover have "sgRequests H = sgRequests G"
      using assms(2) none by (cases a) (auto split: if_splits option.splits dest: turn_frame(1))
    ultimately show ?thesis using assms(1) by (simp add: accounted_def)
  qed
qed

lemma staged_act:
  assumes "staged G" "serve_act E a G = Some H"
  shows "staged H"
proof (cases a)
  case (Turn t)
  with assms(2) obtain q where q: "sgTasks G t = Some q" "turn E t q G = Some H" by (auto split: option.splits)
  obtain q' where "sgTasks H = (sgTasks G)(t \<mapsto> q')" "q' \<noteq> Draining"
    "q' \<in> {Stopping, Closing} \<longrightarrow> q \<in> {Stopping, Closing}"
    using turn_frame(4) [OF q(2)] by blast
  then have "sgTasks H u = Some Draining \<Longrightarrow> sgTasks G u = Some Draining"
    "sgTasks H u \<in> {Some Stopping, Some Closing} \<Longrightarrow> sgTasks G u \<in> {Some Stopping, Some Closing}" for u
    using q(1) by (auto split: if_splits)
  with assms(1) show ?thesis unfolding staged_def turn_frame(2,3) [OF q(2)] by blast
qed (use assms in \<open>auto simp: staged_def split: if_splits\<close>)

lemma all_served_act:
  assumes "all_served G" "staged G" "serve_act E a G = Some H"
  shows "all_served H"
proof (cases a)
  case (Turn t)
  with assms(3) obtain q where q: "sgTasks G t = Some q" "turn E t q G = Some H" by (auto split: option.splits)
  obtain q' where q': "sgTasks H = (sgTasks G)(t \<mapsto> q')" using turn_frame(4) [OF q(2)] by blast
  have "answered H u" if ans: "answered G u" for u
  proof -
    obtain r where r: "sgTasks G u = Some (Answered r)" using ans by (auto simp: answered_iff)
    have "u \<noteq> t" using r q(1) turn_frame(5) [OF q(2), of r] by auto
    with r q' show ?thesis by (simp add: answered_iff)
  qed
  with assms(1) show ?thesis unfolding all_served_def turn_frame(1,3) [OF q(2)] by blast
next
  case (Emptied t)
  with assms(3) show ?thesis by (fastforce simp: all_served_def list_all_iff answered_iff split: if_splits)
next
  case (Sweep t now)
  with assms show ?thesis by (fastforce simp: all_served_def answered_iff split: if_splits)
qed (use assms in \<open>auto simp: all_served_def staged_def answered_iff split: if_splits\<close>)

lemma run_exec:
  "serve_exec E xs (listening s) = Some G \<Longrightarrow> accounted xs G \<and> staged G \<and> all_served G"
proof (induction xs arbitrary: G rule: rev_induct)
  case Nil
  then show ?case by (auto simp: accounted_def requests_def staged_def all_served_def)
next
  case (snoc a xs)
  then obtain K where "serve_exec E xs (listening s) = Some K" "serve_act E a K = Some G"
    unfolding serve_exec_snoc by blast
  with snoc.IH accounted_act staged_act all_served_act show ?case by blast
qed

text \<open>Once it is decided that \<^verbatim>\<open>Run\<close> returns nil, nothing is accepted or sent any more.\<close>

lemma quiet_act:
  assumes "accounted xs G" "staged G" "all_served G" "sgRun G = Some None" "serve_act E a G = Some H"
  shows "sgRun H = Some None" "a \<noteq> Accept t m path rq"
    "filter is_traffic (wTrace (plWorld (sgPool H))) = filter is_traffic (wTrace (plWorld (sgPool G)))"
proof -
  have quit: "sgQuit G" "\<And>t. sgTasks G t \<noteq> Some Draining" using assms(2,4) by (auto simp: staged_def)
  show "sgRun H = Some None"
    using assms(4,5) quit by (cases a) (auto split: if_splits option.splits dest: turn_frame(3))
  show "a \<noteq> Accept t m path rq" using assms(5) quit by auto
  show "filter is_traffic (wTrace (plWorld (sgPool H))) = filter is_traffic (wTrace (plWorld (sgPool G)))"
    using assms(5)
  proof (cases rule: serve_act_cases)
    case (turn t q)
    have "answered G t" if "request_task q"
      using assms(1,3,4) turn(2) that by (auto simp: all_served_def accounted_def requests_def)
    with turn_frame(5) [OF turn(3)] turn(2) have "\<not> request_task q" by (fastforce simp: answered_iff)
    then have "q \<noteq> Holding rq msg r" for rq msg r by auto
    with turn(3) show ?thesis
    proof (cases rule: turn_cases)
      case (server q' s)
      from server_task_traffic [OF server(1)] \<open>\<And>rq msg r. q \<noteq> Holding rq msg r\<close> server(2) show ?thesis
        by (auto simp: traffic_def)
    next
      case (enter x q' P)
      with act_traffic [OF enter(3)] show ?thesis by simp
    next
      case (inside P)
      with act_traffic [OF inside(2)] show ?thesis by simp
    qed simp
  qed simp
qed

text \<open>C19. A graceful end: \<^verbatim>\<open>Run\<close> begins to stop the backing MCP only when it is decided what it returns,
  and if it returns nil then every request that was ever accepted has its answer by then, and from
  then on nothing is accepted, and nothing is sent to the backing MCP.\<close>

theorem graceful_end:
  assumes "serve_exec E xs (listening s) = Some G" "serve_exec E ys G = Some H"
  shows "(sgTasks G t \<in> {Some Stopping, Some Closing} \<longrightarrow> sgRun G \<noteq> None)
    \<and> (sgRun G = Some None \<longrightarrow>
      (\<forall>t m path rq. Accept t m path rq \<in> set xs \<longrightarrow> (\<exists>resp. sgTasks G t = Some (Answered resp)))
      \<and> sgRun H = Some None \<and> (\<forall>t m path rq. Accept t m path rq \<notin> set ys)
      \<and> filter is_traffic (wTrace (plWorld (sgPool H))) = filter is_traffic (wTrace (plWorld (sgPool G))))"
proof -
  note inv = run_exec [OF assms(1)]
  have "sgRun H = Some None \<and> (\<forall>t m path rq. Accept t m path rq \<notin> set ys)
      \<and> filter is_traffic (wTrace (plWorld (sgPool H))) = filter is_traffic (wTrace (plWorld (sgPool G)))"
    if "sgRun G = Some None"
    using assms(2)
  proof (induction ys arbitrary: H rule: rev_induct)
    case (snoc a ys)
    then obtain K where K: "serve_exec E ys G = Some K" "serve_act E a K = Some H"
      unfolding serve_exec_snoc by blast
    have "serve_exec E (xs @ ys) (listening s) = Some K" using assms(1) K(1) by (simp add: serve_exec_append)
    from run_exec [OF this] have k: "accounted (xs @ ys) K" "staged K" "all_served K" by blast+
    note IH = snoc.IH [OF K(1)]
    note q = quiet_act [OF k _ K(2)]
    from q(1,3) IH have "sgRun H = Some None"
      "filter is_traffic (wTrace (plWorld (sgPool H))) = filter is_traffic (wTrace (plWorld (sgPool G)))"
      by simp_all
    moreover have "a \<noteq> Accept t m path rq" for t m path rq using q(2) IH by blast
    ultimately show ?case using IH by auto
  qed (use that in simp)
  moreover have "\<exists>resp. sgTasks G t = Some (Answered resp)"
    if "sgRun G = Some None" "Accept t m path rq \<in> set xs" for t m path rq
    using inv that unfolding accounted_def accepts_def all_served_def answered_iff by blast
  moreover have "sgTasks G t \<in> {Some Stopping, Some Closing} \<longrightarrow> sgRun G \<noteq> None"
    using inv by (auto simp: staged_def)
  ultimately show ?thesis by blast
qed


end
