(* ===== verification/ServingExamples.thy ===== *)
theory ServingExamples
  imports ServingShutdown PoolExamples
begin

text \<open>
  The goroutines of the server at the server of the scene: a call by alice to its end, one beside a
  request of bob, an initialization, and a sweep that finds alice's call in flight.
\<close>

section \<open>Steps of the scene\<close>

lemma arrive_post:
  assumes "cfgValidator (svCfg s) = Some validate0" "cfgAudience (svCfg s) = ''aud''"
    "cfgAllowedOrigins (svCfg s) = []" "extractBearer a = Some tok" "validate0 tok ''aud'' = Some i"
  shows "arrive s ''POST'' ''/mcp'' (post a sid b) = Gated POST (admitted_request (post a sid b) i)"
proof -
  have "authenticated (Some validate0) ''aud'' (post a sid b) = Some i"
    using assms(4,5) by (simp add: authenticated_def header_get_def)
  moreover have "origin_ok [] (post a sid b)"
    "version_of (post a sid b) \<in> set SupportedProtocolVersions"
    by (simp_all add: origin_ok_def version_of_def header_get_def session_header_def
        fallbackProtocolVersion_def SupportedProtocolVersions_def)
  ultimately show ?thesis by (simp add: arrive_def assms verb_of_def)
qed

lemma cfg_facts [simp]:
  "cfgValidator cfg0 = Some validate0" "cfgAudience cfg0 = ''aud''" "cfgAllowedOrigins cfg0 = []"
  "cfgValidator cfg1 = Some validate0" "cfgAudience cfg1 = ''aud''" "cfgAllowedOrigins cfg1 = []"
  by (simp_all add: cfg1_def cfg0_def)

lemma arrive_alice [simp]:
  "svCfg s = cfg0 \<or> svCfg s = cfg1 \<Longrightarrow> arrive s ''POST'' ''/mcp'' (post ''Bearer ta'' sid b)
    = Gated POST (admitted_request (post ''Bearer ta'' sid b) alice)"
  by (rule arrive_post [where tok = "''ta''"]; auto simp: validate0_def)

lemma begin_decoded:
  assumes "request_message rq = Some msg"
  shows "begin_post E s rq =
      (if is_initialize msg then Initializing rq msg
       else if header_get (rqHeaders rq) session_header = []
       then Answered (reply_error msg ErrCodeInvalidRequest
              ''MCP-Session-Id header required after initialize'' None)
       else case find_session s rq of
          Inl resp \<Rightarrow> Answered resp
        | Inr sess \<Rightarrow>
          if IsNotification msg \<or> IsRequest msg then Found rq sess msg
          else Answered (reply_error msg ErrCodeInvalidRequest ''unrecognized JSON-RPC message'' None))"
  using assms by (auto simp: begin_post_def request_message_def is_initialize_def split: option.splits
      if_splits prod.splits)

lemma begin_alice [simp]:
  "svSessions s = store0 \<Longrightarrow> begin_post E s (admitted_request (post a ''sa'' call_body) alice)
    = Found (admitted_request (post a ''sa'' call_body) alice) (session_for ''sa'' ''alice'') call_message"
  by (simp add: begin_decoded [OF request_facts(1)] find_session_def)

definition call_reply :: Response where
  "call_reply = reply_result call_message (marshal_raw (Some tools_result))"

lemma send_alice [simp]:
  assumes "svCatalog s = Some catalog0"
  shows "send_call env0 s (admitted_request rq alice) call_message r
    = (Passing r call_reply, s\<lparr>svWorld := emit (EvCall r ''tools/call'' (Some (tool ''read''))) (svWorld s)\<rparr>)"
proof -
  let ?a = "Resolve (Some catalog0) (idScopes alice)"
  have a: "access_of s (admitted_request rq alice) = ?a" using assms by (simp add: access_of_def)
  have g: "gate_of ?a ''tools/call'' = Some (''name'', AllowsTool ?a)" "list_of ?a ''tools/call'' = None"
    by (simp_all add: gate_of_def list_of_def)
  have "name_refusal env0 call_message ''name'' (AllowsTool ?a) = None"
    using alice_may_read by (simp add: name_refusal_def Let_def del: alice_sel)
  then show ?thesis
    by (simp add: send_call_def a g shape_def runner_Call_def call_reply_def Let_def del: alice_sel)
qed

lemma listening_idle [simp]: "\<not> sgQuit (listening s)" "sgSweeper (listening s) = None"
  by (simp_all add: listening_def)

lemma post_arrives [simp]: "rqIdentity (post a i b) = None" "rqProtocolVersion (post a i b) = None"
    "rqIdentity (admitted_request rq x) = Some x"
  by (simp_all add: post_def)

lemmas serve_simps =
  listening_def pool_exec_simps turn_def server_task_def pool_task_def server_now_def set_server_def
  set_task_def Now_def numeral_eq_Suc

section \<open>Runs\<close>

definition alice_in :: "serve_action list" where
  "alice_in = [Accept 0 ''POST'' ''/mcp'' call_request]"

text \<open>Up to the message that is sent, and to the end.\<close>

definition alice_sends :: "serve_action list" where
  "alice_sends = alice_in @ replicate 12 (Turn 0)"

definition alice_out :: "serve_action list" where
  "alice_out = alice_in @ replicate 13 (Turn 0)"

text \<open>Two calls by alice, both past the session lookup before either goes on.\<close>

definition both_out :: "serve_action list" where
  "both_out = [Accept 0 ''POST'' ''/mcp'' call_request, Accept 1 ''POST'' ''/mcp'' call_request]
    @ replicate 3 (Turn 0) @ replicate 3 (Turn 1) @ replicate 10 (Turn 0) @ replicate 9 (Turn 1)"

definition init_out :: "serve_action list" where
  "init_out = Accept 0 ''POST'' ''/mcp'' (post ''Bearer ta'' [] init_body) # replicate 6 (Turn 0)"

lemma in_state: "\<exists>G. serve_exec env0 alice_in (listening started0) = Some G
    \<and> sgTasks G 0 = Some (Arrived ''POST'' ''/mcp'' call_request)"
  by (simp add: alice_in_def)

lemma sends_state: "\<exists>G resp. serve_exec env0 alice_sends (listening started0) = Some G
    \<and> sgTasks G 0 = Some (Passing 1 resp) \<and> sgTasks G 1 = None \<and> svCfg (sgServer G) = cfg0
    \<and> svRunner (sgServer G) = None \<and> svPool (sgServer G) \<noteq> None \<and> sgSweeper G = None \<and> \<not> sgQuit G
    \<and> plInstances (sgPool G) = [(''subj:alice'', 0)] \<and> inRunner (plHeap (sgPool G) ! 0) = 1
    \<and> inStarted (plHeap (sgPool G) ! 0) \<and> inLastUsed (plHeap (sgPool G) ! 0) \<le> 10 * Second"
  by (simp add: alice_sends_def alice_in_def serve_simps Second_def)

lemma out_state: "\<exists>G resp. serve_exec env0 alice_out (listening started0) = Some G
    \<and> sgTasks G 0 = Some (Answered resp)
    \<and> filter is_traffic (wTrace (plWorld (sgPool G))) = [EvCall 1 ''tools/call'' (Some (tool ''read''))]"
  by (simp add: alice_out_def alice_in_def serve_simps)

lemma both_state: "\<exists>G. serve_exec env0 both_out (listening started0) = Some G
    \<and> filter is_traffic (wTrace (plWorld (sgPool G))) =
      [EvCall 1 ''tools/call'' (Some (tool ''read'')), EvCall 1 ''tools/call'' (Some (tool ''read''))]"
  by (simp add: both_out_def serve_simps)

lemma begin_init [simp]:
  "begin_post E s (admitted_request (post a i init_body) x)
    = Initializing (admitted_request (post a i init_body) x) init_message"
  by (simp add: begin_decoded [OF request_facts(2)])

definition started1 :: Server where
  "started1 = New cfg1 init_world"

lemma started1_sel [simp]:
  "svCfg started1 = cfg1" "svLimiter started1 = None" "svRunner started1 = None" "svPool started1 = None"
  "svWorld started1 = init_world" "svSessions started1 = NewInMemorySessionStore"
  by (simp_all add: started1_def New_def Let_def cfg1_def cfg0_def NewRateLimiter_def)

lemma minted_chars [simp]: "NewSessionID (Some ''aaaaaaaaaaaaaaaa'') = Some minted"
  using minted_id by (simp add: numeral_eq_Suc del: minted_id)

lemma init_state: "\<exists>G. serve_exec env0 init_out (listening started1) = Some G
    \<and> Get (svSessions (sgServer G)) minted = Some (new_session minted ''alice'' ''2025-11-25'' zero_impl 0)"
  by (simp add: init_out_def serve_simps rand_Read_def init_world_def mem.get_after_create mem.ok_empty
      negotiateProtocolVersion_def SupportedProtocolVersions_def preferredProtocolVersion_def zero_params_def)

section \<open>The properties at these runs\<close>

lemma run_start1: "run_start env0 (New cfg1 init_world) = (None, started1)"
  by (simp add: run_start_def flip: started1_def) (simp add: cfg1_def cfg0_def)

lemma started0_quiet [simp]: "traffic started0 = []"
  by (simp add: traffic_def world0_traffic)

lemma interleaved_sends_witness:
  "\<exists>G t rq msg. serve_exec env0 alice_out (listening started0) = Some G
    \<and> filter is_traffic (wTrace (plWorld (sgPool G))) = [EvCall 1 ''tools/call'' (Some (tool ''read''))]
    \<and> Accept t ''POST'' ''/mcp'' rq \<in> set alice_out \<and> request_message rq = Some msg
    \<and> msgMethod msg = ''tools/call''"
proof -
  obtain G where G: "serve_exec env0 alice_out (listening started0) = Some G"
    "filter is_traffic (wTrace (plWorld (sgPool G))) = [EvCall 1 ''tools/call'' (Some (tool ''read''))]"
    using out_state by blast
  from interleaved_sends [OF G(1)] G(2) obtain t rq msg and i :: Identity where
    "Accept t ''POST'' ''/mcp'' rq \<in> set alice_out" "request_message rq = Some msg"
    "may_send (Resolve (svCatalog started0) (idScopes i)) msg (EvCall 1 ''tools/call'' (Some (tool ''read'')))"
    by (auto simp: Cons_eq_map_conv)
  with G show ?thesis by (auto simp: may_send_def split: if_splits)
qed

lemma interleaved_isolation_witness:
  "\<exists>G. serve_exec env0 both_out (listening started0) = Some G
    \<and> length (filter is_traffic (wTrace (plWorld (sgPool G)))) = 2
    \<and> starts 1 (wTrace (plWorld (sgPool G))) = 1"
proof -
  obtain G where G: "serve_exec env0 both_out (listening started0) = Some G"
    "filter is_traffic (wTrace (plWorld (sgPool G))) =
      [EvCall 1 ''tools/call'' (Some (tool ''read'')), EvCall 1 ''tools/call'' (Some (tool ''read''))]"
    using both_state by blast
  have "wTrace init_world = []" by (simp add: init_world_def)
  from interleaved_isolation [OF run_start0 cfg0_isolates(2) this G(1)] G(2)
  have "starts 1 (wTrace (plWorld (sgPool G))) = 1" by (force simp: Cons_eq_map_conv)
  with G show ?thesis by simp
qed

lemma interleaved_sessions_witness:
  "\<exists>G sess. serve_exec env0 init_out (listening started1) = Some G
    \<and> Get (svSessions (sgServer G)) minted = Some sess \<and> sessID sess = minted"
proof -
  obtain G where G: "serve_exec env0 init_out (listening started1) = Some G"
    "Get (svSessions (sgServer G)) minted = Some (new_session minted ''alice'' ''2025-11-25'' zero_impl 0)"
    using init_state by blast
  have "cfgSessions cfg1 = None" by (simp add: cfg1_def)
  from interleaved_sessions [OF run_start1 this G] G show ?thesis by blast
qed


lemma requests_refined_witness:
  "\<exists>n H. serve_exec env0 (Accept 0 ''POST'' ''/mcp'' call_request # replicate n (Turn 0)) (listening started0) = Some H
    \<and> sgTasks H 0 = Some (Answered (fst (routes env0 ''POST'' ''/mcp'' (flat (listening started0)) call_request)))"
proof -
  have "wTrace init_world = []" "settled_pool (sgPool (listening started0))"
    by (simp_all add: init_world_def listening_def settled_pool_def threaded_def pool0_def pool_simps)
  then show ?thesis
    using requests_refined [OF run_start0, of "[]" "listening started0" 0 "''POST''" "''/mcp''" call_request]
    by auto
qed

lemma call_in_flight_stopped_witness:
  "\<exists>G n H resp. serve_exec env0 alice_sends (listening started0) = Some G
    \<and> serve_exec env0 (Sweep 1 (1000 * Second) # replicate n (Turn 1)) G = Some H
    \<and> sgTasks H 0 = Some (Passing 1 resp) \<and> EvStop 1 \<in> set (wTrace (plWorld (sgPool H)))"
proof -
  obtain G resp where G: "serve_exec env0 alice_sends (listening started0) = Some G"
    "sgTasks G 0 = Some (Passing 1 resp)" "sgTasks G 1 = None" "svCfg (sgServer G) = cfg0"
    "pool_mode (sgServer G)" "sgSweeper G = None" "\<not> sgQuit G"
    "(''subj:alice'', 0) \<in> set (plInstances (sgPool G))" "inRunner (plHeap (sgPool G) ! 0) = 1"
    "inStarted (plHeap (sgPool G) ! 0)" "inLastUsed (plHeap (sgPool G) ! 0) \<le> 10 * Second"
    using sends_state by (auto simp: pool_mode_def)
  have idle: "0 < fst (idleAndSweep (sgServer G))" "poolIdleTimeout (sgServer G) = 900 * Second"
    using G(4) by (simp_all add: idleAndSweep_def poolIdleTimeout_def cfg0_def DefaultIdleTimeout_def
        DefaultPoolIdleTimeout_def Minute_def Second_def)
  then have cold: "inLastUsed (plHeap (sgPool G) ! 0) < 1000 * Second - poolIdleTimeout (sgServer G)"
    and pos: "0 < poolIdleTimeout (sgServer G)" using G(11) by (simp_all add: Second_def)
  have "wTrace init_world = []" "''subj:alice'' \<noteq> sharedKey"
    by (simp_all add: init_world_def sharedKey_def)
  from call_in_flight_stopped [OF run_start0 this(1) G(1,5,2,3,8,9,10,6,7) idle(1) pos this(2) cold] G(1)
  show ?thesis by blast
qed

section \<open>The end\<close>

text \<open>Alice's call is answered before \<^verbatim>\<open>Run\<close> waits.\<close>

lemma graceful_end_witness:
  "\<exists>G resp. serve_exec env0 (alice_out @ [Quit 1, Emptied 1]) (listening started0) = Some G
    \<and> sgRun G = Some None \<and> sgTasks G 0 = Some (Answered resp)"
proof -
  obtain G where G: "serve_exec env0 (alice_out @ [Quit 1, Emptied 1]) (listening started0) = Some G"
    "sgRun G = Some None"
    by (simp add: alice_out_def alice_in_def serve_simps answered_def)
  have "Accept 0 ''POST'' ''/mcp'' call_request \<in> set (alice_out @ [Quit 1, Emptied 1])"
    by (simp add: alice_out_def alice_in_def)
  with graceful_end [OF G(1), of "[]" G 0] G show ?thesis by fastforce
qed

text \<open>Alice listens to her session.\<close>

definition listen :: Request where
  "listen = (post ''Bearer ta'' ''sa'' [])\<lparr>rqHeaders := [(''Authorization'', ''Bearer ta''),
     (session_header, ''sa''), (''Accept'', ''text/event-stream'')]\<rparr>"

definition listening_run :: "serve_action list" where
  "listening_run = Accept 0 ''GET'' ''/mcp'' listen # replicate 3 (Turn 0)"

lemma listen_arrives: "svCfg s = cfg0 \<Longrightarrow> arrive s ''GET'' ''/mcp'' listen = Gated GET (admitted_request listen alice)"
  by (simp add: arrive_def verb_of_def listen_def origin_ok_def version_of_def header_get_def session_header_def
      fallbackProtocolVersion_def SupportedProtocolVersions_def authenticated_def validate0_def)

lemma listen_sel [simp]:
  "rqIdentity listen = None" "rqProtocolVersion listen = None"
  by (simp_all add: listen_def post_def)

definition alice_stream :: Response where
  "alice_stream = \<lparr>rsStatus = 200, rsHeaders = sse_headers,
     rsBody = EventStream (''id: sa-0'' @ newline @ ''data: '' @ newline @ newline)\<rparr>"

lemma listen_streams:
  assumes "svSessions s = store0"
  shows "open_stream (fst (handleMCPGet s (admitted_request listen alice))) = Streaming alice_stream"
proof -
  have "Contains ''text/event-stream'' ''text/event-stream''"
    unfolding Contains_iff by (rule exI [of _ "[]"], rule exI [of _ "[]"]) simp
  with assms show ?thesis
    by (simp add: handleMCPGet_def acceptsSSE_def listen_def header_get_def session_header_def open_stream_def
        admitted_request_def IdentityFromContext_def post_def alice_stream_def Let_def)
qed

lemma listening_state: "\<exists>G resp. serve_exec env0 listening_run (listening started0) = Some G
    \<and> sgTasks G 0 = Some (Streaming resp) \<and> sgTasks G 1 = None \<and> \<not> sgQuit G"
  by (simp add: listening_run_def serve_simps listen_arrives listen_streams)


end
