(* ===== verification/Spec2Isabelle.thy ===== *)
theory Spec2Isabelle
  imports StdioStop StdioStderr ServerMain PoolExamples ServingExamples
begin

text \<open>
  A verification library for d8a, a gateway written in Go that serves one backing MCP to many
  authenticated clients over HTTP. The library models \<^verbatim>\<open>internal/server\<close>,
  \<^verbatim>\<open>internal/core\<close>, \<^verbatim>\<open>cmd/server\<close> and the placeholder \<^verbatim>\<open>cmd/client\<close>.

  \<^bold>\<open>The program.\<close> A client posts JSON-RPC messages to \<^verbatim>\<open>/mcp\<close>. Four middlewares check
  the origin, the protocol version, the bearer token and the rate limit of the subject; the handler
  then decodes the message, finds the session, and forwards the call to a backing process that the
  pool chose for the identity, after the catalog's patterns allowed the target. Lists that come back
  are filtered by the same access. A background sweep expires sessions, idle buckets and idle
  processes. A backing process is a subprocess in a bubblewrap sandbox that speaks JSON-RPC over its
  standard streams; calls of many requests share one process and are told apart by an identifier.

  \<^bold>\<open>Theories and sources.\<close> The Go files are those of \<^verbatim>\<open>src/internal/server\<close> unless
  said otherwise; definitions have the names of the functions, types and constants they translate, a
  struct is a record, a method takes its receiver and returns it updated.

  \<^item> \<open>D8aPrelude\<close>: bytes, Go maps as association lists in insertion order, the parts of
    \<^verbatim>\<open>strings\<close> and \<^verbatim>\<open>utf8\<close> the sources use, their lemmas.
  \<^item> \<open>Json\<close>, \<open>JsonRpc\<close> (\<^verbatim>\<open>jsonrpc.go\<close>), \<open>Sessions\<close> (\<^verbatim>\<open>mcp_types.go\<close>,
    \<^verbatim>\<open>session.go\<close>): a parser of JSON texts, struct decoding with Go's field matching, the
    message envelope, its classification and round trip, session identifiers.
  \<^item> \<open>SessionStore\<close> (\<^verbatim>\<open>session_store.go\<close>): the store refines a map of sessions.
  \<^item> \<open>Sha256\<close>, \<open>Auth\<close> (\<^verbatim>\<open>auth.go\<close>): SHA-256 and hexadecimal written out, API keys, the
    locale \<open>token_validator\<close> and its interpretation.
  \<^item> \<open>PathMatch\<close>, \<open>Catalog\<close> (\<^verbatim>\<open>catalog.go\<close>): \<^verbatim>\<open>path.Match\<close> and the policy
    decision; soundness against a declarative language of patterns.
  \<^item> \<open>Float64\<close>, \<open>RateLimit\<close> (\<^verbatim>\<open>ratelimit.go\<close>): binary64 rounding as a function on rationals,
    the token bucket, and how much it admits.
    \<open>LimiterThreads\<close>: its methods as goroutines that interleave between the lock of the limiter and those
    of the buckets, how much they admit then, and that alone they do what the one-step methods do.
  \<^item> \<open>Sandbox\<close> (\<^verbatim>\<open>sandbox.go\<close>): the bubblewrap command line and its meaning.
  \<^item> \<open>World\<close> (\<^verbatim>\<open>runner.go\<close>, \<^verbatim>\<open>Backend\<close>), \<open>RunnerPool\<close> (\<^verbatim>\<open>runner_pool.go\<close>): the
    environment and the trace of what was done to runners; the pool's methods, one at a time.
  \<^item> \<open>PoolThreads\<close>, \<open>PoolRaces\<close>, \<open>PoolStops\<close>, \<open>PoolAlone\<close> (\<^verbatim>\<open>runner_pool.go\<close>): the same methods as
    goroutines that interleave between their critical sections, what that can and cannot break, and
    that a goroutine that runs alone does what the one-step method does.
  \<^item> \<open>StdioRunner\<close>, \<open>StdioDemux\<close>, \<open>StdioStop\<close> (\<^verbatim>\<open>stdio_runner.go\<close>): the bridge to a process
    as a machine of interleaved steps of its callers, its read loop and the process. \<open>StdioStderr\<close>:
    what is logged of its standard error.
  \<^item> \<open>ServerState\<close>, \<open>Middleware\<close> (\<^verbatim>\<open>middleware.go\<close>), \<open>McpHandler\<close>
    (\<^verbatim>\<open>mcp_handler.go\<close>), \<open>ServerRun\<close> (\<^verbatim>\<open>server.go\<close>): the state, the gates, the handlers, and
    the life of a server over a list of requests and ticks.
  \<^item> \<open>EndToEnd\<close>: from a request to the traffic of a process, and whose process it is.
  \<^item> \<open>Serving\<close> (\<^verbatim>\<open>server.go\<close>, \<^verbatim>\<open>middleware.go\<close>, \<^verbatim>\<open>mcp_handler.go\<close>): the same server with a goroutine for
    every request, one for the sweep and the one of \<^verbatim>\<open>Run\<close>, over the pool of \<open>PoolThreads\<close>. A handler
    is the sequence of its parts between two accesses to what the goroutines share. \<open>ServingSafe\<close>: every
    message a backing MCP gets was sent by a request that passed the gates, the session check and the
    name gate. \<open>ServingState\<close>: what holds of the sessions, and one subject for each runner.
    \<open>ServingLive\<close>: how many turns a request takes, and that only a start can hold it up.
    \<open>ServingAlone\<close>: a request that runs alone does what \<open>routes\<close> does. \<open>ServingEnds\<close>: the deferred
    stop, and what the sweep does to a call in flight. \<open>ServingShutdown\<close>: what \<^verbatim>\<open>Run\<close> has waited
    for when it returns nil, and that an open event stream keeps it from that.
  \<^item> \<open>FileConfig\<close> (\<^verbatim>\<open>config.go\<close>), \<open>ServerMain\<close> (\<^verbatim>\<open>cmd/server/main.go\<close>,
    \<^verbatim>\<open>core/version.go\<close>): the configuration file and the command.
  \<^item> \<open>Scene\<close>, \<open>StdioExamples\<close>, \<open>Examples\<close>, \<open>PoolExamples\<close>, \<open>ServingExamples\<close>: a concrete server,
    runner and pool at which the
    properties with hypotheses are applied. The properties that span components are in this theory.

  \<^bold>\<open>What the lemmas show.\<close> Nothing has an effect without a token valid at this server's audience,
  in the owner's session, within the catalog's grants; in isolate mode a process hears one subject
  only, and the end of the server stops it (\<open>Spec2Isabelle\<close>, \<open>ServerRun\<close>, \<open>McpHandler\<close>);
  this is shown of requests one after the other and of every interleaving of their goroutines. The
  store, the validator, the resolver, the matcher and the sandbox meet a declarative specification.
  The limiter admits no more than burst and rate allow, up to a stated rounding. A response reaches
  only the call it answers, whatever interleaves. Where the code does not do what its comments say,
  a theorem says what it does.

  \<^bold>\<open>Bounds and fuel.\<close> The JSON parser has fuel twice the length of the text plus two, which every
  text within Go's nesting limit needs at most; loops over lists are structural; the machines have
  no fuel, their runs are lists of actions. Statements about identifiers of calls are for runs
  shorter than \<open>2 ^ 64\<close> steps, where the 64-bit counter has not come round. Durations are 64-bit where
  the code multiplies them; times are integers of nanoseconds.

  \<^bold>\<open>Parameters.\<close> The clock, the random source, \<^verbatim>\<open>exec.LookPath\<close>, the answers of backing
  processes and the texts of library errors are fields of \<open>Env\<close> or arguments; theorems hold for all
  of them.

  \<^bold>\<open>Not modelled.\<close> Logging, listening and the transport of \<^verbatim>\<open>net/http\<close>, the file system and signals;
  in \<open>Serving\<close>, the inside of a backing MCP (a call is one message to it and its answer is fixed
  when it is sent, although the goroutine holds it until later; how calls share a subprocess is
  \<open>StdioDemux\<close>), and the two locks of \<^verbatim>\<open>Allow\<close> as separate steps (these are in \<open>LimiterThreads\<close>); infinities and NaN (the JSON decoder never
  produces them); Go's random order of map iteration, except where order is irrelevant; elements
  that a slice of the configuration keeps in its capacity when a member is given twice; the Go
  memory model, of which the machines assume sequential consistency; in \<open>Serving\<close>, the ends of the request contexts of
  calls, and the single writes to an event stream.
\<close>

section \<open>Properties that span the components\<close>

text \<open>C4. What a tool call takes, from the wire to the backing MCP: a \<^verbatim>\<open>tools/call\<close> that the
  backing MCP sees because of a request was sent with a bearer token the validator accepts for this
  server's audience, in a session that belongs to the authenticated subject, and the tool it names,
  if it names one, is granted by a bundle of one of the caller's scopes or there is no catalog.\<close>

theorem tool_call_end_to_end:
  assumes "EvCall r ''tools/call'' (Some ps) \<in> set (traffic (snd (routes E m path s rq)))"
    "EvCall r ''tools/call'' (Some ps) \<notin> set (traffic s)"
  shows "\<exists>validate token i sess params. cfgValidator (svCfg s) = Some validate
    \<and> extractBearer (header_get (rqHeaders rq) ''Authorization'') = Some token
    \<and> validate token (cfgAudience (svCfg s)) = Some i
    \<and> Get (svSessions s) (header_get (rqHeaders rq) session_header) = Some sess
    \<and> sessSubject sess = idSubject i
    \<and> unmarshal_rawmap ps = Some params
    \<and> (param_ident params ''name'' = []
       \<or> (case svCatalog s of None \<Rightarrow> True
          | Some cat \<Rightarrow> \<exists>sc \<in> set (idScopes i). \<exists>b. map_of (cBundles cat) sc = Some b
              \<and> (\<exists>p \<in> set (bTools b). pattern_allows p (param_ident params ''name''))))"
proof -
  from routes_calls [OF assms] obtain i s' msg where
    i: "authenticated (cfgValidator (svCfg s)) (cfgAudience (svCfg s)) rq = Some i"
    and s': "same_core s s'" and own: "owns_session s' (admitted_request rq i)"
    and ps: "Some ps = msgParams msg"
    and gate: "gate_passes ''name'' (AllowsTool (access_of s' (admitted_request rq i))) msg"
    by (auto simp: gate_of_def)
  let ?rq = "admitted_request rq i"
  have rq: "IdentityFromContext ?rq = i" "rqHeaders ?rq = rqHeaders rq"
    by (simp_all add: IdentityFromContext_def admitted_request_def)
  from i obtain validate token where "cfgValidator (svCfg s) = Some validate"
    "extractBearer (header_get (rqHeaders rq) ''Authorization'') = Some token"
    "validate token (cfgAudience (svCfg s)) = Some i"
    by (auto simp: authenticated_def bind_eq_Some_conv)
  moreover from own s' obtain sess where
    "Get (svSessions s) (header_get (rqHeaders rq) session_header) = Some sess"
    "sessSubject sess = idSubject i"
    by (auto simp: owns_session_def session_of_def rq same_core_def Let_def split: if_splits)
  moreover from gate obtain params where "unmarshal_rawmap ps = Some params"
    "param_ident params ''name'' = []
      \<or> AllowsTool (Resolve (svCatalog s) (idScopes i)) (param_ident params ''name'')"
    using s' by (auto simp: gate_passes_def access_of_def rq same_core_def ps [symmetric]
        split: option.splits)
  ultimately show ?thesis unfolding tools.allows_iff by blast
qed

text \<open>Isolation, end to end: when the server gives every identity its own backing MCP, then whatever
  requests and sweeps it serves, all traffic a backing process ever sees was sent by authenticated
  callers, and by one subject only. The log attributes every call and notification.\<close>

theorem isolate_end_to_end:
  assumes "run_start E (New cfg w) = (None, s0)" "cfgRunner cfg = None" "cfgBackend cfg = Some b"
    "\<not> cfgBackendShareSafe cfg" "wTrace w = []"
    "foldl (serve_logged E) (s0, []) xs = (s, lg)" "(c, r) \<in> set lg" "(d, r) \<in> set lg"
  shows "s = foldl (serve E) s0 xs \<and> map snd lg = map ev_runner (traffic s)
    \<and> (\<exists>i j. c = Some i \<and> d = Some j \<and> idSubject i = idSubject j)"
proof -
  have inv: "log_inv (s, lg)"
    using log_inv_run [OF isolate_start [OF assms(1-5)], of E xs] assms(6) by simp
  then have "map snd lg = map ev_runner (traffic s)" by (simp add: log_inv_def)
  with logged_isolated [OF inv assms(7,8)] serve_logged_fst [of E s0 "[]" xs] assms(6)
  show ?thesis by simp
qed


subsection \<open>At a concrete server\<close>

lemma tool_call_end_to_end_witness:
  "EvCall 7 ''tools/call'' (Some (tool ''read''))
     \<in> set (traffic (snd (routes env0 ''POST'' ''/mcp'' server0 call_request)))
   \<and> (\<exists>token i. validate0 token ''aud'' = Some i
     \<and> Get store0 (header_get (rqHeaders call_request) session_header) \<noteq> None)"
proof -
  have sent: "EvCall 7 ''tools/call'' (Some (tool ''read''))
      \<in> set (traffic (snd (routes env0 ''POST'' ''/mcp'' server0 call_request)))"
    by (simp add: server0_call_traffic)
  have "EvCall 7 ''tools/call'' (Some (tool ''read'')) \<notin> set (traffic server0)" by simp
  from tool_call_end_to_end [OF sent this] sent show ?thesis by (auto simp: cfg0_def)
qed

lemma isolate_end_to_end_witness:
  "\<exists>s c. foldl (serve_logged env0) (started0, []) [alice_calls] = (s, [(c, 1)])
    \<and> (\<exists>i. c = Some i \<and> idSubject i = ''alice'')"
proof -
  obtain s lg where s: "foldl (serve_logged env0) (started0, []) [alice_calls] = (s, lg)"
    by (cases "foldl (serve_logged env0) (started0, []) [alice_calls]")
  have "served_for started0 call_request = Some alice"
    by (simp add: served_for_def authenticated_def cfg0_def header_get_def validate0_def)
  moreover have "traffic started0 = []" by (simp add: traffic_def world0_traffic)
  ultimately have lg: "lg = [(Some alice, 1)]"
    using s started0_call by (auto simp: serve_logged_def Let_def)
  have "wTrace init_world = []" by (simp add: init_world_def)
  from isolate_end_to_end [OF run_start0 cfg0_isolates this s, of "Some alice" 1 "Some alice"] lg s
  show ?thesis by auto
qed


end
